(* ===== verification/Prelude.thy ===== *)
theory Prelude
  imports Main "HOL-Library.Word"
begin

text \<open>
  What every component of the development shares: the ways a C++ operation can go
  wrong, the result type that carries them, the two binds (with and without a threaded
  state), the \<open>std::vector\<close> and \<open>std::find_if\<close> operations the code uses, and C strings.
\<close>

named_theorems result_simps \<open>evaluation of the result and state-result binds\<close>
named_theorems vec_simps \<open>the vector and find_if operations\<close>

section \<open>Failures\<close>

text \<open>
  A failing \<open>assert\<close> aborts the program (the build sets no \<open>NDEBUG\<close>); the other
  constructors are undefined behaviour the model makes visible, exceptions, or (\<open>Diverges\<close>)
  a loop that does not end.
\<close>

datatype cpp_error =
    AssertionFailure
  | NullDereference
  | UseAfterFree
  | OutOfRange
  | DivisionByZero
  | BadOptionalAccess
  | BadCast
  | MissingReturn
  | Diverges
  | JsonError
  | DynamicLibraryError string
  | ProcessExit int

type_synonym 'a result = "cpp_error + 'a"
type_synonym size_t = "64 word"

definition bindR :: "'a result \<Rightarrow> ('a \<Rightarrow> 'b result) \<Rightarrow> 'b result" where
  "bindR r f = (case r of Inl e \<Rightarrow> Inl e | Inr x \<Rightarrow> f x)"

definition assertR :: "bool \<Rightarrow> unit result" where
  "assertR b = (if b then Inr () else Inl AssertionFailure)"

lemma bindR_Inl [simp, result_simps]: "bindR (Inl e) f = Inl e"
  by (simp add: bindR_def)

lemma bindR_Inr [simp, result_simps]: "bindR (Inr x) f = f x"
  by (simp add: bindR_def)

lemma bindR_eq_Inr: "bindR r f = Inr y \<longleftrightarrow> (\<exists>x. r = Inr x \<and> f x = Inr y)"
  by (cases r) auto

lemma bindR_InrE [elim!]:
  assumes "bindR r f = Inr y"
  obtains x where "r = Inr x" "f x = Inr y"
  using assms by (auto simp: bindR_eq_Inr)

lemma assertR_True [simp, result_simps]: "assertR True = Inr ()"
  by (simp add: assertR_def)

lemma assertR_False [simp, result_simps]: "assertR False = Inl AssertionFailure"
  by (simp add: assertR_def)

lemma assertR_eq_Inr [simp]: "assertR b = Inr u \<longleftrightarrow> b"
  by (simp add: assertR_def)

text \<open>A loop over a container whose body may fail: the first failure ends it.\<close>

fun foldR :: "('a \<Rightarrow> 's \<Rightarrow> 's result) \<Rightarrow> 'a list \<Rightarrow> 's \<Rightarrow> 's result" where
  "foldR f [] s = Inr s"
| "foldR f (x # xs) s = bindR (f x s) (foldR f xs)"

lemma foldR_append: "foldR f (xs @ ys) s = bindR (foldR f xs s) (foldR f ys)"
  by (induction xs arbitrary: s) (auto simp: bindR_def split: sum.splits)

lemma foldR_invariant:
  assumes "foldR f xs s = Inr s'" and "P s"
    and "\<And>x t t'. x \<in> set xs \<Longrightarrow> P t \<Longrightarrow> f x t = Inr t' \<Longrightarrow> P t'"
  shows "P s'"
  using assms
proof (induction xs arbitrary: s)
  case Nil
  then show ?case by simp
next
  case (Cons x xs)
  from Cons.prems(1) obtain t where t: "f x s = Inr t" "foldR f xs t = Inr s'"
    by auto
  have "P t" using Cons.prems(2,3) t(1) by auto
  then show ?case using Cons.IH [OF t(2)] Cons.prems(3) by auto
qed

lemma foldR_total:
  assumes "P s" and "\<And>x t. x \<in> set xs \<Longrightarrow> P t \<Longrightarrow> \<exists>t'. f x t = Inr t' \<and> P t'"
  shows "\<exists>s'. foldR f xs s = Inr s' \<and> P s'"
  using assms
proof (induction xs arbitrary: s)
  case Nil
  then show ?case by simp
next
  case (Cons x xs)
  then obtain t where t: "f x s = Inr t" "P t" by force
  have "\<exists>s'. foldR f xs t = Inr s' \<and> P s'"
    using Cons.IH [OF t(2)] Cons.prems(2) by auto
  with t show ?case by auto
qed

lemma foldR_cong [fundef_cong]:
  assumes "xs = ys" "s = t" "\<And>x u. x \<in> set ys \<Longrightarrow> f x u = g x u"
  shows "foldR f xs s = foldR g ys t"
  unfolding assms(1,2) using assms(3)
proof (induction ys arbitrary: t)
  case Nil
  then show ?case by simp
next
  case (Cons y ys)
  then show ?case by (cases "g y t") auto
qed

section \<open>Operations on a threaded state\<close>

type_synonym ('s, 'a) op = "'s \<Rightarrow> ('a \<times> 's) result"

definition returnS :: "'a \<Rightarrow> ('s, 'a) op" where
  "returnS x s = Inr (x, s)"

definition failS :: "cpp_error \<Rightarrow> ('s, 'a) op" where
  "failS e s = Inl e"

definition bindS :: "('s, 'a) op \<Rightarrow> ('a \<Rightarrow> ('s, 'b) op) \<Rightarrow> ('s, 'b) op" where
  "bindS m k s = (case m s of Inl e \<Rightarrow> Inl e | Inr (x, t) \<Rightarrow> k x t)"

definition liftR :: "'a result \<Rightarrow> ('s, 'a) op" where
  "liftR r s = (case r of Inl e \<Rightarrow> Inl e | Inr x \<Rightarrow> Inr (x, s))"

lemma returnS_apply [simp, result_simps]: "returnS x s = Inr (x, s)"
  by (simp add: returnS_def)

lemma failS_apply [simp, result_simps]: "failS e s = Inl e"
  by (simp add: failS_def)

lemma bindS_Inl [simp, result_simps]: "m s = Inl e \<Longrightarrow> bindS m k s = Inl e"
  by (simp add: bindS_def)

lemma bindS_Inr [simp, result_simps]: "m s = Inr (x, t) \<Longrightarrow> bindS m k s = k x t"
  by (simp add: bindS_def)

lemma bindS_eq_Inr: "bindS m k s = Inr r \<longleftrightarrow> (\<exists>x t. m s = Inr (x, t) \<and> k x t = Inr r)"
  by (auto simp: bindS_def split: sum.splits)

lemma bindS_InrE [elim!]:
  assumes "bindS m k s = Inr r"
  obtains x t where "m s = Inr (x, t)" "k x t = Inr r"
  using assms by (auto simp: bindS_eq_Inr)

lemma liftR_Inl [simp, result_simps]: "liftR (Inl e) s = Inl e"
  by (simp add: liftR_def)

lemma liftR_Inr [simp, result_simps]: "liftR (Inr x) s = Inr (x, s)"
  by (simp add: liftR_def)

lemma liftR_eq_Inr [simp]: "liftR r s = Inr (x, t) \<longleftrightarrow> r = Inr x \<and> t = s"
  by (cases r) auto

text \<open>Reading the state, and running operations one after the other.\<close>

definition getsR :: "('s \<Rightarrow> 'a result) \<Rightarrow> ('s, 'a) op" where
  "getsR f s = bindR (f s) (\<lambda>x. Inr (x, s))"

lemma getsR_Inr [simp]: "getsR f s = Inr (x, t) \<longleftrightarrow> f s = Inr x \<and> t = s"
  by (cases "f s") (auto simp: getsR_def)

lemma getsR_simps [simp, result_simps]:
  "f s = Inr x \<Longrightarrow> getsR f s = Inr (x, s)" "f s = Inl e \<Longrightarrow> getsR f s = Inl e"
  by (simp_all add: getsR_def)

fun seqS :: "('s, unit) op list \<Rightarrow> ('s, unit) op" where
  "seqS [] = returnS ()"
| "seqS (m # ms) = bindS m (\<lambda>_. seqS ms)"

lemma seqS_append: "seqS (ms @ ns) = bindS (seqS ms) (\<lambda>_. seqS ns)"
  by (induction ms) (auto simp: fun_eq_iff bindS_def split: sum.split)

lemma seqS_invariant:
  assumes "seqS ms s = Inr (u, s')" "P s" "\<And>m t t' v. m \<in> set ms \<Longrightarrow> P t \<Longrightarrow> m t = Inr (v, t') \<Longrightarrow> P t'"
  shows "P s'"
  using assms
proof (induction ms arbitrary: s)
  case (Cons m ms)
  from Cons.prems(1) obtain v t where t: "m s = Inr (v, t)" "seqS ms t = Inr (u, s')" by auto
  have "P t" using Cons.prems(2,3) t(1) by auto
  then show ?case using Cons.IH [OF t(2)] Cons.prems(3) by auto
qed simp

text \<open>A loop over a container whose body threads the state.\<close>

fun forS :: "'a list \<Rightarrow> ('a \<Rightarrow> ('s, unit) op) \<Rightarrow> ('s, unit) op" where
  "forS [] f = returnS ()"
| "forS (x # xs) f = bindS (f x) (\<lambda>_. forS xs f)"

fun mapS :: "('a \<Rightarrow> ('s, 'b) op) \<Rightarrow> 'a list \<Rightarrow> ('s, 'b list) op" where
  "mapS f [] = returnS []"
| "mapS f (x # xs) = bindS (f x) (\<lambda>y. bindS (mapS f xs) (\<lambda>ys. returnS (y # ys)))"

lemma forS_invariant:
  assumes "forS xs f s = Inr (u, s')" and "P s"
    and "\<And>x t t' v. x \<in> set xs \<Longrightarrow> P t \<Longrightarrow> f x t = Inr (v, t') \<Longrightarrow> P t'"
  shows "P s'"
  using assms
proof (induction xs arbitrary: s)
  case Nil
  then show ?case by simp
next
  case (Cons x xs)
  from Cons.prems(1) obtain v t where t: "f x s = Inr (v, t)" "forS xs f t = Inr (u, s')"
    by auto
  have "P t" using Cons.prems(2,3) t(1) by auto
  then show ?case using Cons.IH [OF t(2)] Cons.prems(3) by auto
qed

section \<open>Operations that keep an invariant and do not fail\<close>

definition total_on :: "('s \<Rightarrow> bool) \<Rightarrow> ('s, 'a) op \<Rightarrow> bool" where
  "total_on I m \<longleftrightarrow> (\<forall>s. I s \<longrightarrow> (\<exists>x t. m s = Inr (x, t) \<and> I t))"

lemma total_onI: "(\<And>s. I s \<Longrightarrow> \<exists>x t. m s = Inr (x, t) \<and> I t) \<Longrightarrow> total_on I m"
  by (simp add: total_on_def)

lemma total_onD: "total_on I m \<Longrightarrow> I s \<Longrightarrow> \<exists>x t. m s = Inr (x, t) \<and> I t"
  by (simp add: total_on_def)

lemma total_bind [intro]: "total_on I m \<Longrightarrow> (\<And>x. total_on I (k x)) \<Longrightarrow> total_on I (bindS m k)"
  by (fastforce simp: total_on_def bindS_def split: sum.splits)

lemma total_return [intro, simp]: "total_on I (returnS x)"
  by (simp add: total_on_def)

lemma total_seq: "(\<And>m. m \<in> set ms \<Longrightarrow> total_on I m) \<Longrightarrow> total_on I (seqS ms)"
  by (induction ms) auto

section \<open>What an operation does to the state\<close>

lemma mapS_length: "mapS f xs s = Inr (ys, t) \<Longrightarrow> length ys = length xs"
  by (induction xs arbitrary: s ys) auto

text \<open>
  An operation obeys a relation if every result it returns is related to the state it started
  in. For a reflexive and transitive relation this passes from the parts of an operation to the
  whole: the locale holds the rules, each later theory gives the relation.
\<close>

definition obeys :: "('s \<Rightarrow> 's \<Rightarrow> bool) \<Rightarrow> ('s, 'a) op \<Rightarrow> bool" where
  "obeys R m \<longleftrightarrow> (\<forall>s x t. m s = Inr (x, t) \<longrightarrow> R s t)"

lemma obeysI: "(\<And>s x t. m s = Inr (x, t) \<Longrightarrow> R s t) \<Longrightarrow> obeys R m"
  by (simp add: obeys_def)

lemma obeysD: "obeys R m \<Longrightarrow> m s = Inr (x, t) \<Longrightarrow> R s t"
  unfolding obeys_def by blast

locale frame =
  fixes R :: "'s \<Rightarrow> 's \<Rightarrow> bool"
  assumes refl: "R s s"
    and trans: "R s t \<Longrightarrow> R t u \<Longrightarrow> R s u"
begin

lemma bind: "obeys R m \<Longrightarrow> (\<And>x. obeys R (k x)) \<Longrightarrow> obeys R (bindS m k)"
  by (rule obeysI) (blast dest: obeysD intro: trans)

lemma reads: "obeys R (returnS x)" "obeys R (failS e)" "obeys R (liftR r)" "obeys R (getsR f)"
  by (auto simp: obeys_def refl)

lemma branch: "obeys R m \<Longrightarrow> obeys R m' \<Longrightarrow> obeys R (if b then m else m')"
  by simp

lemma test: "obeys R m \<Longrightarrow> obeys R m' \<Longrightarrow> obeys R (\<lambda>s. if P s then m s else m' s)"
  by (simp add: obeys_def)

lemma apply_state: "(\<And>a. obeys R (m a)) \<Longrightarrow> obeys R (\<lambda>s. m (f s) s)"
  unfolding obeys_def by blast

lemma loop: "(\<And>x. obeys R (f x)) \<Longrightarrow> obeys R (forS xs f)"
  by (induction xs) (auto intro: bind reads)

lemma collect: "(\<And>x. obeys R (g x)) \<Longrightarrow> obeys R (mapS g xs)"
  by (induction xs) (auto intro!: bind reads)

lemma sequence: "(\<And>m. m \<in> set ms \<Longrightarrow> obeys R m) \<Longrightarrow> obeys R (seqS ms)"
  by (induction ms) (auto intro!: bind reads)

lemmas rules = bind reads branch test loop collect

end

section \<open>Vectors\<close>

text \<open>
  An iterator into a \<open>std::vector\<close> is an index; the index \<open>length xs\<close> is \<open>end()\<close>.
  \<open>find_if\<close> is the position of the first element with the property, or \<open>end()\<close>.
\<close>

fun find_if :: "('a \<Rightarrow> bool) \<Rightarrow> 'a list \<Rightarrow> nat" where
  "find_if P [] = 0"
| "find_if P (x # xs) = (if P x then 0 else Suc (find_if P xs))"

definition insert_at :: "nat \<Rightarrow> 'a \<Rightarrow> 'a list \<Rightarrow> 'a list" where
  "insert_at i x xs = take i xs @ x # drop i xs"

definition erase_at :: "nat \<Rightarrow> 'a list \<Rightarrow> 'a list" where
  "erase_at i xs = take i xs @ drop (Suc i) xs"

lemma find_if_le [simp, vec_simps]: "find_if P xs \<le> length xs"
  by (induction xs) auto

lemma find_if_less_iff [vec_simps]: "find_if P xs < length xs \<longleftrightarrow> (\<exists>x\<in>set xs. P x)"
  by (induction xs) auto

lemma find_if_end_iff [vec_simps]: "find_if P xs = length xs \<longleftrightarrow> (\<forall>x\<in>set xs. \<not> P x)"
  by (induction xs) auto

lemma find_if_nth [vec_simps]: "find_if P xs < length xs \<Longrightarrow> P (xs ! find_if P xs)"
  by (induction xs) auto

lemma find_if_found: "find_if P xs \<noteq> length xs \<Longrightarrow> find_if P xs < length xs"
  using find_if_le [of P xs] by linarith

lemma find_if_before: "j < find_if P xs \<Longrightarrow> \<not> P (xs ! j)"
  by (induction xs arbitrary: j) (auto simp: nth_Cons split: nat.splits if_splits)

lemma length_insert_at [simp, vec_simps]: "length (insert_at i x xs) = Suc (length xs)"
  by (auto simp: insert_at_def)

lemma length_erase_at [simp, vec_simps]:
  "i < length xs \<Longrightarrow> length (erase_at i xs) = length xs - 1"
  by (auto simp: erase_at_def)

lemma insert_at_0 [simp, vec_simps]: "insert_at 0 x xs = x # xs"
  by (simp add: insert_at_def)

lemma erase_at_0 [simp, vec_simps]: "erase_at 0 (x # xs) = xs"
  by (simp add: erase_at_def)

lemma erase_at_Suc [simp, vec_simps]: "erase_at (Suc i) (x # xs) = x # erase_at i xs"
  by (simp add: erase_at_def)

lemma erase_at_append_mid [vec_simps]: "erase_at (length xs) (xs @ x # ys) = xs @ ys"
  by (simp add: erase_at_def)

lemma set_erase_at_subset: "set (erase_at i xs) \<subseteq> set xs"
  by (auto simp: erase_at_def dest: in_set_takeD in_set_dropD)

lemma split_at_nth: "i < length xs \<Longrightarrow> xs = take i xs @ xs ! i # drop (Suc i) xs"
  by (simp add: id_take_nth_drop)

lemma set_erase_at_insert: "i < length xs \<Longrightarrow> insert (xs ! i) (set (erase_at i xs)) = set xs"
proof -
  assume "i < length xs"
  then have "set xs = set (take i xs @ xs ! i # drop (Suc i) xs)"
    by (simp add: id_take_nth_drop [symmetric])
  then show ?thesis by (auto simp: erase_at_def)
qed

lemma length_erase_at_less: "i < length xs \<Longrightarrow> length (erase_at i xs) < length xs"
  by (cases xs) auto

lemma distinct_erase_at: "distinct xs \<Longrightarrow> distinct (erase_at i xs)"
  by (auto simp: erase_at_def set_take_disj_set_drop_if_distinct)

lemma map_erase_at [simp, vec_simps]: "map f (erase_at i xs) = erase_at i (map f xs)"
  by (simp add: erase_at_def take_map drop_map)

lemma nth_notin_erase_at:
  assumes "distinct xs" "i < length xs"
  shows "xs ! i \<notin> set (erase_at i xs)"
proof -
  have "distinct (take i xs @ xs ! i # drop (Suc i) xs)"
    using assms by (simp add: id_take_nth_drop [symmetric])
  then show ?thesis by (auto simp: erase_at_def)
qed

section \<open>C strings\<close>

text \<open>
  A \<open>char[]\<close> converted to \<open>std::string\<close> stops at the first NUL. (An array with no NUL
  would be read past its end; the messages the code reads are NUL terminated.)
\<close>

definition c_str :: "char list \<Rightarrow> string" where
  "c_str a = takeWhile (\<lambda>c. c \<noteq> CHR 0x00) a"

lemma c_str_terminated [simp]:
  "CHR 0x00 \<notin> set s \<Longrightarrow> c_str (s @ CHR 0x00 # r) = s"
proof -
  assume "CHR 0x00 \<notin> set s"
  then have "\<And>c. c \<in> set s \<Longrightarrow> c \<noteq> CHR 0x00" by metis
  then show ?thesis unfolding c_str_def by (subst takeWhile_append2) auto
qed

end
