(* ===== verification/Ipc.thy ===== *)
theory Ipc
  imports Prelude Complex_Main
begin

text \<open>
  The interface to the IPC library (the git submodule \<^verbatim>\<open>src/3rd/stream-ipc\<close>, whose code is not in
  the repository). Its messages are records with the fields the program reads; its functions
  are the fields of a record \<open>ipc\<close> that every operation using them takes as an argument.
  They act on an opaque world of type \<open>'w\<close>: message queues, shared memory and the peer process.
\<close>

type_synonym chars = "char list"
type_synonym request_id = nat

datatype peer_state = ACTIVE | NOT_ACTIVE nat

record node_response =
  nrPrimaryKey :: chars
  nrName :: chars
  nrPkgName :: chars
  nrState :: peer_state
  nrStateChangeTime :: int
  nrBootCount :: "32 word"
  nrPid :: int

record topic_response =
  trPrimaryKey :: chars
  trName :: chars
  trType :: chars

text \<open>The node and topic updates; the first component is always the primary key of the member
  the update is for.\<close>

datatype node_update =
    NodePublishersTo (nuKey: chars) chars
  | NodeSubscribersTo (nuKey: chars) chars
  | NodeIsServerFor (nuKey: chars) chars chars
  | NodeIsClientOf (nuKey: chars) chars chars
  | NodeIsActionServerFor (nuKey: chars) chars chars
  | NodeIsActionClientOf (nuKey: chars) chars chars
  | NodeState (nuKey: chars) peer_state int

datatype topic_update =
    TopicPublishers (tuKey: chars) chars chars
  | TopicSubscribers (tuKey: chars) chars chars

datatype response_type = NUMERICAL | TEXTUAL

record shm_response =
  rsType :: response_type
  rsValue :: real
  rsNumber :: nat
  rsTotal :: nat
  rsLine :: chars

datatype search_type = SearchNode | SearchTopic

record attributes_response =
  arRequestId :: request_id
  arMemAddress :: chars

text \<open>
  \<open>parseString\<close> reads a NUL terminated array, \<open>storeString\<close> is its overload that writes one.
  A \<open>send\<close> assigns the request id, a \<open>receive\<close> may return an empty optional. \<open>shmReceive\<close>
  blocks until a response is there; \<open>shmTryReceive\<close> is the call with \<open>false\<close>. The update
  receivers are the calls with \<open>false\<close>, which do not wait; each returns the message's fields in
  their order. \<open>cpuUtilization\<close> is the text \<open>std::to_string\<close> gives for the enumerator of that name;
  \<open>hostName\<close> and \<open>systemNow\<close> are \<open>gethostname\<close> and the system clock.
\<close>

record 'w ipc =
  parseString :: "chars \<Rightarrow> string"
  storeString :: "string \<Rightarrow> chars"
  sendSearchRequest :: "search_type \<Rightarrow> chars \<Rightarrow> 'w \<Rightarrow> request_id \<times> 'w"
  receiveSearchResponse :: "'w \<Rightarrow> chars option \<times> 'w"
  sendNodeRequest :: "chars \<Rightarrow> bool \<Rightarrow> 'w \<Rightarrow> request_id \<times> 'w"
  receiveNodeResponse :: "'w \<Rightarrow> node_response option \<times> 'w"
  sendTopicRequest :: "chars \<Rightarrow> bool \<Rightarrow> 'w \<Rightarrow> request_id \<times> 'w"
  receiveTopicResponse :: "'w \<Rightarrow> topic_response option \<times> 'w"
  sendAttributesRequest :: "chars \<Rightarrow> 'w \<Rightarrow> request_id \<times> 'w"
  receiveAttributesResponse :: "'w \<Rightarrow> attributes_response option \<times> 'w"
  sendUnsubscribeRequest :: "request_id \<Rightarrow> 'w \<Rightarrow> request_id \<times> 'w"
  shmReceive :: "string \<Rightarrow> 'w \<Rightarrow> shm_response \<times> 'w"
  shmTryReceive :: "string \<Rightarrow> 'w \<Rightarrow> shm_response option \<times> 'w"
  receivePublishersTo :: "'w \<Rightarrow> (chars \<times> chars) option \<times> 'w"
  receiveSubscribersTo :: "'w \<Rightarrow> (chars \<times> chars) option \<times> 'w"
  receiveIsServerFor :: "'w \<Rightarrow> (chars \<times> chars \<times> chars) option \<times> 'w"
  receiveIsClientOf :: "'w \<Rightarrow> (chars \<times> chars \<times> chars) option \<times> 'w"
  receiveIsActionServerFor :: "'w \<Rightarrow> (chars \<times> chars \<times> chars) option \<times> 'w"
  receiveIsActionClientOf :: "'w \<Rightarrow> (chars \<times> chars \<times> chars) option \<times> 'w"
  receiveState :: "'w \<Rightarrow> (chars \<times> peer_state \<times> int) option \<times> 'w"
  receivePublishers :: "'w \<Rightarrow> (chars \<times> chars \<times> chars) option \<times> 'w"
  receiveSubscribers :: "'w \<Rightarrow> (chars \<times> chars \<times> chars) option \<times> 'w"
  sendCustomMemberRequest :: "chars \<Rightarrow> bool \<Rightarrow> 'w \<Rightarrow> request_id \<times> 'w"
  receiveCustomMemberResponse :: "'w \<Rightarrow> attributes_response option \<times> 'w"
  cpuUtilization :: string
  hostName :: chars
  systemNow :: "'w \<Rightarrow> int \<times> 'w"

text \<open>\<open>std::optional::value()\<close> throws on an empty optional.\<close>

definition optional_value :: "'a option \<Rightarrow> 'a result" where
  "optional_value x = (case x of None \<Rightarrow> Inl BadOptionalAccess | Some v \<Rightarrow> Inr v)"

lemma optional_value_simps [simp, result_simps]:
  "optional_value None = Inl BadOptionalAccess" "optional_value (Some v) = Inr v"
  by (simp_all add: optional_value_def)

lemma optional_value_Inr [simp]: "optional_value x = Inr v \<longleftrightarrow> x = Some v"
  by (cases x) auto

section \<open>A concrete peer\<close>

text \<open>
  The instance the examples of the other theories use: every send gets the next id, every
  search finds the name as its own key, and every request is answered for the key it asked for.
  State updates are delivered from \<open>peStates\<close>, publisher updates from \<open>pePublishers\<close>, there are
  no others; \<open>peUnsubscribed\<close> logs the unsubscribe requests.
\<close>

record peer =
  peNextId :: request_id
  peKey :: chars
  peStates :: "(chars \<times> peer_state \<times> int) list"
  pePublishers :: "(chars \<times> chars \<times> chars) list"
  peUnsubscribed :: "request_id list"

definition peer_init :: peer where
  "peer_init = \<lparr>peNextId = 0, peKey = [], peStates = [], pePublishers = [], peUnsubscribed = []\<rparr>"

definition peer_send :: "chars \<Rightarrow> peer \<Rightarrow> request_id \<times> peer" where
  "peer_send k w = (peNextId w, w\<lparr>peNextId := Suc (peNextId w), peKey := k\<rparr>)"

fun pop :: "'a list \<Rightarrow> 'a option \<times> 'a list" where
  "pop [] = (None, [])"
| "pop (x # xs) = (Some x, xs)"

definition demo_response :: shm_response where
  "demo_response = \<lparr>rsType = NUMERICAL, rsValue = 1, rsNumber = 1, rsTotal = 1, rsLine = []\<rparr>"

definition demo_ipc :: "peer ipc" where
  "demo_ipc = \<lparr>parseString = c_str, storeString = (\<lambda>s. s @ [CHR 0x00]),
     sendSearchRequest = (\<lambda>_. peer_send), receiveSearchResponse = (\<lambda>w. (Some (peKey w), w)),
     sendNodeRequest = (\<lambda>k _. peer_send k),
     receiveNodeResponse = (\<lambda>w. (Some \<lparr>nrPrimaryKey = peKey w, nrName = peKey w, nrPkgName = [],
        nrState = ACTIVE, nrStateChangeTime = 0, nrBootCount = 0, nrPid = 0\<rparr>, w)),
     sendTopicRequest = (\<lambda>k _. peer_send k),
     receiveTopicResponse = (\<lambda>w. (Some \<lparr>trPrimaryKey = peKey w, trName = peKey w, trType = []\<rparr>, w)),
     sendAttributesRequest = peer_send,
     receiveAttributesResponse =
       (\<lambda>w. (Some \<lparr>arRequestId = peNextId w - 1, arMemAddress = peKey w\<rparr>, w)),
     sendUnsubscribeRequest = (\<lambda>i w. peer_send [] (w\<lparr>peUnsubscribed := peUnsubscribed w @ [i]\<rparr>)),
     shmReceive = (\<lambda>_ w. (demo_response, w)), shmTryReceive = (\<lambda>_ w. (Some demo_response, w)),
     receivePublishersTo = (\<lambda>w. (None, w)), receiveSubscribersTo = (\<lambda>w. (None, w)),
     receiveIsServerFor = (\<lambda>w. (None, w)), receiveIsClientOf = (\<lambda>w. (None, w)),
     receiveIsActionServerFor = (\<lambda>w. (None, w)), receiveIsActionClientOf = (\<lambda>w. (None, w)),
     receiveState = (\<lambda>w. apsnd (\<lambda>r. w\<lparr>peStates := r\<rparr>) (pop (peStates w))),
     receivePublishers = (\<lambda>w. apsnd (\<lambda>r. w\<lparr>pePublishers := r\<rparr>) (pop (pePublishers w))),
     receiveSubscribers = (\<lambda>w. (None, w)),
     sendCustomMemberRequest = (\<lambda>q _. peer_send []),
     receiveCustomMemberResponse =
       (\<lambda>w. (Some \<lparr>arRequestId = peNextId w - 1, arMemAddress = []\<rparr>, w)),
     cpuUtilization = ''0'', hostName = ''host'' @ [CHR 0x00], systemNow = (\<lambda>w. (0, w))\<rparr>"

lemma demo_parse [simp]: "parseString demo_ipc = c_str"
  by (simp add: demo_ipc_def)

lemma demo_try [simp]: "shmTryReceive demo_ipc a w = (Some demo_response, w)"
  by (simp add: demo_ipc_def)

end
