(* ===== verification/Cpp_Map.thy ===== *)
theory Cpp_Map
  imports Prelude "HOL-Library.Char_ord" "HOL-Library.List_Lexorder"
begin

text \<open>
  \<open>std::map\<close> with an arbitrary comparator: a list of pairs in iteration order. The comparator
  decides both the order and which keys are the same key: two keys neither of which is less than
  the other are equivalent, whatever \<open>operator==\<close> says. Locale \<open>strict_weak_order\<close> is what the
  standard demands of a comparator; \<open>strict_total_order\<close> is the case in which equivalent keys
  are equal.
\<close>

definition key_equiv :: "('k \<Rightarrow> 'k \<Rightarrow> bool) \<Rightarrow> 'k \<Rightarrow> 'k \<Rightarrow> bool" where
  "key_equiv lt a b \<longleftrightarrow> \<not> lt a b \<and> \<not> lt b a"

fun map_find :: "('k \<Rightarrow> 'k \<Rightarrow> bool) \<Rightarrow> 'k \<Rightarrow> ('k \<times> 'v) list \<Rightarrow> 'v option" where
  "map_find lt k [] = None"
| "map_find lt k ((a, w) # m) = (if key_equiv lt a k then Some w else map_find lt k m)"

text \<open>\<open>emplace\<close>: the new map, and whether the pair was inserted.\<close>

fun map_emplace :: "('k \<Rightarrow> 'k \<Rightarrow> bool) \<Rightarrow> 'k \<Rightarrow> 'v \<Rightarrow> ('k \<times> 'v) list \<Rightarrow> ('k \<times> 'v) list \<times> bool" where
  "map_emplace lt k v [] = ([(k, v)], True)"
| "map_emplace lt k v ((a, w) # m) =
     (if lt k a then ((k, v) # (a, w) # m, True)
      else if lt a k then apfst (Cons (a, w)) (map_emplace lt k v m)
      else ((a, w) # m, False))"

text \<open>Assignment through the iterator that \<open>find\<close> returned.\<close>

fun map_modify :: "('k \<Rightarrow> 'k \<Rightarrow> bool) \<Rightarrow> 'k \<Rightarrow> ('v \<Rightarrow> 'v) \<Rightarrow> ('k \<times> 'v) list \<Rightarrow> ('k \<times> 'v) list" where
  "map_modify lt k f [] = []"
| "map_modify lt k f ((a, w) # m) =
     (if key_equiv lt a k then (a, f w) # m else (a, w) # map_modify lt k f m)"

definition map_ok :: "('k \<Rightarrow> 'k \<Rightarrow> bool) \<Rightarrow> ('k \<times> 'v) list \<Rightarrow> bool" where
  "map_ok lt m \<longleftrightarrow> sorted_wrt lt (map fst m)"

lemma map_ok_Nil [simp]: "map_ok lt []"
  by (simp add: map_ok_def)

lemma map_ok_Cons [simp]:
  "map_ok lt ((a, w) # m) \<longleftrightarrow> (\<forall>p\<in>set m. lt a (fst p)) \<and> map_ok lt m"
  by (auto simp: map_ok_def)

lemma fst_map_modify [simp]: "map fst (map_modify lt k f m) = map fst m"
  by (induction m) auto

lemma map_ok_modify [simp]: "map_ok lt (map_modify lt k f m) \<longleftrightarrow> map_ok lt m"
  by (simp add: map_ok_def)

lemma map_ok_erase_at: "map_ok lt m \<Longrightarrow> map_ok lt (erase_at i m)"
proof (induction m arbitrary: i)
  case Nil
  then show ?case by (simp add: erase_at_def)
next
  case (Cons p m)
  obtain a w where p: "p = (a, w)" by force
  show ?case
  proof (cases i)
    case 0
    then show ?thesis using Cons p by simp
  next
    case (Suc j)
    then show ?thesis using Cons p set_erase_at_subset [of j m] by fastforce
  qed
qed

locale strict_weak_order =
  fixes lt :: "'k \<Rightarrow> 'k \<Rightarrow> bool"
  assumes irrefl: "\<not> lt a a"
    and trans: "lt a b \<Longrightarrow> lt b c \<Longrightarrow> lt a c"
    and cotrans: "lt a b \<Longrightarrow> lt a c \<or> lt c b"
begin

lemma equiv_refl: "key_equiv lt a a"
  by (simp add: key_equiv_def irrefl)

lemma equiv_sym: "key_equiv lt a b \<Longrightarrow> key_equiv lt b a"
  by (simp add: key_equiv_def)

lemma equiv_trans: "key_equiv lt a b \<Longrightarrow> key_equiv lt b c \<Longrightarrow> key_equiv lt a c"
  unfolding key_equiv_def using cotrans by blast

lemma keys_emplace:
  "p \<in> set (fst (map_emplace lt k v m)) \<Longrightarrow> p = (k, v) \<or> p \<in> set m"
  by (induction m) (auto split: if_splits)

lemma emplace_ok: "map_ok lt m \<Longrightarrow> map_ok lt (fst (map_emplace lt k v m))"
proof (induction m)
  case Nil
  then show ?case by simp
next
  case (Cons p m)
  obtain a w where p: "p = (a, w)" by force
  consider "lt k a" | "\<not> lt k a" "lt a k" | "\<not> lt k a" "\<not> lt a k" by blast
  then show ?case
  proof cases
    case 1
    then show ?thesis using Cons.prems p trans by auto
  next
    case 2
    then have "map_ok lt ((a, w) # fst (map_emplace lt k v m))"
      using Cons p keys_emplace [of _ k v m] 2(2) by fastforce
    then show ?thesis using 2 p by simp
  next
    case 3
    then show ?thesis using Cons.prems p by simp
  qed
qed

lemma find_None_if_less:
  "map_ok lt m \<Longrightarrow> \<forall>p\<in>set m. lt k (fst p) \<Longrightarrow> map_find lt k m = None"
  by (induction m) (auto simp: key_equiv_def)

lemma emplace_inserted_iff:
  "map_ok lt m \<Longrightarrow> snd (map_emplace lt k v m) \<longleftrightarrow> map_find lt k m = None"
proof (induction m)
  case Nil
  then show ?case by simp
next
  case (Cons p m)
  obtain a w where p: "p = (a, w)" by force
  have "lt k a \<Longrightarrow> map_find lt k m = None"
    using Cons.prems p trans by (intro find_None_if_less) auto
  then show ?case using Cons p by (auto simp: key_equiv_def split: prod.splits)
qed

lemma emplace_not_inserted: "\<not> snd (map_emplace lt k v m) \<Longrightarrow> fst (map_emplace lt k v m) = m"
  by (induction m) (auto split: prod.splits if_splits)

lemma find_emplace_same:
  "map_ok lt m \<Longrightarrow> map_find lt k (fst (map_emplace lt k v m)) =
     (case map_find lt k m of None \<Rightarrow> Some v | Some w \<Rightarrow> Some w)"
proof (induction m)
  case Nil
  then show ?case by (simp add: equiv_refl)
next
  case (Cons p m)
  obtain a w where p: "p = (a, w)" by force
  have "lt k a \<Longrightarrow> map_find lt k m = None"
    using Cons.prems p trans by (intro find_None_if_less) auto
  then show ?case
    using Cons p equiv_refl [of k] by (auto simp: key_equiv_def split: prod.splits)
qed

lemma find_emplace_other:
  "\<not> key_equiv lt k j \<Longrightarrow> map_find lt j (fst (map_emplace lt k v m)) = map_find lt j m"
  by (induction m) (auto split: prod.splits)

lemma find_modify_same: "map_find lt k (map_modify lt k f m) = map_option f (map_find lt k m)"
  by (induction m) auto

lemma equivalent_keys_unique:
  assumes "map_ok lt m" "p \<in> set m" "q \<in> set m" "key_equiv lt (fst p) (fst q)"
  shows "p = q"
  using assms by (induction m) (auto simp: key_equiv_def)

end

locale strict_total_order = strict_weak_order +
  assumes total: "key_equiv lt a b \<Longrightarrow> a = b"
begin

lemma equiv_iff_eq [simp]: "key_equiv lt a b \<longleftrightarrow> a = b"
  using equiv_refl total by auto

lemma find_eq_map_of: "map_find lt k m = map_of m k"
  by (induction m) auto

lemma map_of_emplace:
  "map_ok lt m \<Longrightarrow> map_of (fst (map_emplace lt k v m)) =
     (map_of m)(k := (case map_of m k of None \<Rightarrow> Some v | Some w \<Rightarrow> Some w))"
  using find_emplace_same [of m k v] find_emplace_other [of k _ v m]
  by (auto simp: find_eq_map_of fun_eq_iff)

lemma map_of_modify: "map_of (map_modify lt k f m) = (map_of m)(k := map_option f (map_of m k))"
  by (induction m) auto

lemma distinct_keys: "map_ok lt m \<Longrightarrow> distinct (map fst m)"
  proof (induction m)
  case Nil
  then show ?case by simp
next
  case (Cons p m)
  then show ?case by (cases p) (auto simp: irrefl)
qed

end

text \<open>The order of \<open>std::string\<close>: lexicographic, characters as unsigned bytes.\<close>

definition string_less :: "string \<Rightarrow> string \<Rightarrow> bool" where
  "string_less s t \<longleftrightarrow> s < t"

interpretation strmap: strict_total_order string_less
  by unfold_locales (auto simp: string_less_def key_equiv_def)

end
