(* ===== verification/Members.thy ===== *)
theory Members
  imports Ipc Cpp_Map
begin

text \<open>
  \<^verbatim>\<open>src/dynamic-subgraph/member-base.{hpp,cpp}\<close> and \<^verbatim>\<open>members.{hpp,cpp}\<close>: the members of the
  monitored system, a \<open>Node\<close> or a \<open>Topic\<close>, both derived from \<open>Member\<close>; the proxies by which
  they name each other; and the updates a member receives. A base class is a record, a derived
  class its extension, a \<open>std::map\<close> a sorted association list (theory \<open>Cpp_Map\<close>).
\<close>

section \<open>Data\<close>

record attribute =
  atName :: string
  atSharedMemory :: string
  atRequestId :: request_id
  atLastValue :: real

record member =
  mIsTopic :: bool
  mPrimaryKey :: string
  mmAttributes :: "attribute list"

record member_proxy =
  pxPrimaryKey :: string
  pxIsTopic :: bool

type_synonym member_proxies = "member_proxy list"

definition proxy_eq :: "member_proxy \<Rightarrow> member_proxy \<Rightarrow> bool" where
  "proxy_eq a b \<longleftrightarrow> pxPrimaryKey a = pxPrimaryKey b"

definition proxy_less :: "member_proxy \<Rightarrow> member_proxy \<Rightarrow> bool" where
  "proxy_less a b \<longleftrightarrow> string_less (pxPrimaryKey a) (pxPrimaryKey b)"

text \<open>The two constructors: from a \<open>std::string\<close> and from a message's array.\<close>

definition proxy_of_key :: "string \<Rightarrow> bool \<Rightarrow> member_proxy" where
  "proxy_of_key k t = \<lparr>pxPrimaryKey = k, pxIsTopic = t\<rparr>"

definition proxy_of_chars :: "'w ipc \<Rightarrow> chars \<Rightarrow> bool \<Rightarrow> member_proxy" where
  "proxy_of_chars ipc a t = \<lparr>pxPrimaryKey = parseString ipc a, pxIsTopic = t\<rparr>"

record node = member +
  mNodeName :: string
  mPkgName :: string
  mAlive :: bool
  mAliveChangeTime :: int
  mBootCount :: "32 word"
  mProcessId :: int
  mClients :: "(string \<times> member_proxies) list"
  mActionClients :: "(string \<times> member_proxies) list"
  mServers :: "(string \<times> member_proxy) list"
  mActionServers :: "(string \<times> member_proxy) list"
  mPublishesTo :: member_proxies
  mSubscribesTo :: member_proxies

record communication_edge =
  edPrimaryKey :: string
  edAssociatedNode :: member_proxy

definition mk_edge :: "string \<Rightarrow> string \<Rightarrow> communication_edge" where
  "mk_edge edge node = \<lparr>edPrimaryKey = edge, edAssociatedNode = proxy_of_key node False\<rparr>"

record topic = member +
  mTopicName :: string
  mType :: string
  mPublishers :: "communication_edge list"
  mSubscribers :: "communication_edge list"

section \<open>Constructors\<close>

definition node_of_response :: "'w ipc \<Rightarrow> node_response \<Rightarrow> node" where
  "node_of_response ipc r =
     \<lparr>mIsTopic = False, mPrimaryKey = c_str (nrPrimaryKey r), mmAttributes = [],
      mNodeName = parseString ipc (nrName r), mPkgName = parseString ipc (nrPkgName r),
      mAlive = (nrState r = ACTIVE), mAliveChangeTime = nrStateChangeTime r,
      mBootCount = nrBootCount r, mProcessId = nrPid r,
      mClients = [], mActionClients = [], mServers = [], mActionServers = [],
      mPublishesTo = [], mSubscribesTo = []\<rparr>"

definition topic_of_response :: "'w ipc \<Rightarrow> topic_response \<Rightarrow> topic" where
  "topic_of_response ipc r =
     \<lparr>mIsTopic = True, mPrimaryKey = c_str (trPrimaryKey r), mmAttributes = [],
      mTopicName = parseString ipc (trName r), mType = parseString ipc (trType r),
      mPublishers = [], mSubscribers = []\<rparr>"

section \<open>Attributes\<close>

text \<open>
  \<open>getAttributes\<close> polls every attribute's channel; a received value replaces the stored one
  (the vector is \<open>mutable\<close>). \<open>emplace\<close> keeps the first of two attributes of one name.
\<close>

fun poll_attributes ::
  "'w ipc \<Rightarrow> attribute list \<Rightarrow> (string \<times> real) list \<Rightarrow> 'w \<Rightarrow>
    (attribute list \<times> (string \<times> real) list \<times> 'w) result" where
  "poll_attributes ipc [] out w = Inr ([], out, w)"
| "poll_attributes ipc (a # as) out w =
     (case shmTryReceive ipc (atSharedMemory a) w of
        (None, w1) \<Rightarrow>
          bindR (poll_attributes ipc as (fst (map_emplace string_less (atName a) (atLastValue a) out)) w1)
            (\<lambda>(as', out', w'). Inr (a # as', out', w'))
      | (Some r, w1) \<Rightarrow>
          bindR (assertR (rsType r = NUMERICAL)) (\<lambda>_.
          let a' = a\<lparr>atLastValue := rsValue r\<rparr> in
          bindR (poll_attributes ipc as (fst (map_emplace string_less (atName a') (atLastValue a') out)) w1)
            (\<lambda>(as', out', w'). Inr (a' # as', out', w'))))"

definition getAttributes ::
  "'w ipc \<Rightarrow> 'a member_scheme \<Rightarrow> 'w \<Rightarrow>
    ((string \<times> real) list \<times> 'a member_scheme \<times> 'w) result" where
  "getAttributes ipc m w = bindR (poll_attributes ipc (mmAttributes m) [] w)
     (\<lambda>(as', out, w'). Inr (out, m\<lparr>mmAttributes := as'\<rparr>, w'))"

text \<open>A new source: wait for the first value, which must be numerical, and append.\<close>

definition addAttributeSource ::
  "'w ipc \<Rightarrow> string \<Rightarrow> attributes_response \<Rightarrow> 'a member_scheme \<Rightarrow> 'w \<Rightarrow>
    ('a member_scheme \<times> 'w) result" where
  "addAttributeSource ipc name response m w =
     (let shm = parseString ipc (arMemAddress response);
          (r, w') = shmReceive ipc shm w
      in bindR (assertR (rsType r = NUMERICAL)) (\<lambda>_.
           Inr (m\<lparr>mmAttributes := mmAttributes m @
             [\<lparr>atName = name, atSharedMemory = shm, atRequestId = arRequestId response,
               atLastValue = rsValue r\<rparr>]\<rparr>, w')))"

section \<open>Updates of a node\<close>

definition add_client :: "string \<Rightarrow> member_proxy \<Rightarrow>
    (string \<times> member_proxies) list \<Rightarrow> (string \<times> member_proxies) list" where
  "add_client service client m =
     (let m1 = (case map_find string_less service m of
                  None \<Rightarrow> fst (map_emplace string_less service [] m)
                | Some _ \<Rightarrow> m)
      in map_modify string_less service (\<lambda>cs. cs @ [client]) m1)"

definition node_publishersTo :: "'w ipc \<Rightarrow> chars \<Rightarrow> node \<Rightarrow> node" where
  "node_publishersTo ipc publishesTo n =
     n\<lparr>mPublishesTo := mPublishesTo n @ [proxy_of_chars ipc publishesTo True]\<rparr>"

definition node_subscribersTo :: "'w ipc \<Rightarrow> chars \<Rightarrow> node \<Rightarrow> node" where
  "node_subscribersTo ipc subscribesTo n =
     n\<lparr>mSubscribesTo := mSubscribesTo n @ [proxy_of_chars ipc subscribesTo True]\<rparr>"

definition node_isServerFor :: "'w ipc \<Rightarrow> chars \<Rightarrow> chars \<Rightarrow> node \<Rightarrow> node" where
  "node_isServerFor ipc srvName clientNodeId n =
     n\<lparr>mClients := add_client (parseString ipc srvName) (proxy_of_chars ipc clientNodeId False) (mClients n)\<rparr>"

definition node_isClientOf :: "'w ipc \<Rightarrow> chars \<Rightarrow> chars \<Rightarrow> node \<Rightarrow> node" where
  "node_isClientOf ipc srvName serverNodeId n =
     n\<lparr>mServers := fst (map_emplace string_less (parseString ipc srvName)
        (proxy_of_chars ipc serverNodeId False) (mServers n))\<rparr>"

text \<open>The update for action servers writes to \<open>mClients\<close>, as the code does.\<close>

definition node_isActionServerFor :: "'w ipc \<Rightarrow> chars \<Rightarrow> chars \<Rightarrow> node \<Rightarrow> node" where
  "node_isActionServerFor ipc srvName actionclientNodeId n =
     n\<lparr>mClients := add_client (parseString ipc srvName) (proxy_of_chars ipc actionclientNodeId False) (mClients n)\<rparr>"

definition node_isActionClientOf :: "'w ipc \<Rightarrow> chars \<Rightarrow> chars \<Rightarrow> node \<Rightarrow> node" where
  "node_isActionClientOf ipc srvName actionserverNodeId n =
     n\<lparr>mActionServers := fst (map_emplace string_less (parseString ipc srvName)
        (proxy_of_chars ipc actionserverNodeId False) (mActionServers n))\<rparr>"

definition node_state :: "peer_state \<Rightarrow> int \<Rightarrow> node \<Rightarrow> node" where
  "node_state state stateChangeTime n =
     (let isAliveNow = (state = ACTIVE)
      in if isAliveNow \<noteq> mAlive n
         then n\<lparr>mAlive := isAliveNow, mAliveChangeTime := stateChangeTime\<rparr>
         else n)"

fun node_apply :: "'w ipc \<Rightarrow> node_update \<Rightarrow> node \<Rightarrow> node" where
  "node_apply ipc (NodePublishersTo _ t) n = node_publishersTo ipc t n"
| "node_apply ipc (NodeSubscribersTo _ t) n = node_subscribersTo ipc t n"
| "node_apply ipc (NodeIsServerFor _ s c) n = node_isServerFor ipc s c n"
| "node_apply ipc (NodeIsClientOf _ s c) n = node_isClientOf ipc s c n"
| "node_apply ipc (NodeIsActionServerFor _ s c) n = node_isActionServerFor ipc s c n"
| "node_apply ipc (NodeIsActionClientOf _ s c) n = node_isActionClientOf ipc s c n"
| "node_apply ipc (NodeState _ s t) n = node_state s t n"

section \<open>Updates of a topic\<close>

definition topic_publishers :: "chars \<Rightarrow> chars \<Rightarrow> topic \<Rightarrow> topic" where
  "topic_publishers publisher edge t =
     t\<lparr>mPublishers := mPublishers t @ [mk_edge (c_str edge) (c_str publisher)]\<rparr>"

definition topic_subscribers :: "chars \<Rightarrow> chars \<Rightarrow> topic \<Rightarrow> topic" where
  "topic_subscribers subscriber edge t =
     t\<lparr>mSubscribers := mSubscribers t @ [mk_edge (c_str edge) (c_str subscriber)]\<rparr>"

fun topic_apply :: "topic_update \<Rightarrow> topic \<Rightarrow> topic" where
  "topic_apply (TopicPublishers _ p e) t = topic_publishers p e t"
| "topic_apply (TopicSubscribers _ s e) t = topic_subscribers s e t"

section \<open>Printing\<close>

definition show_proxy :: "member_proxy \<Rightarrow> string" where
  "show_proxy p = (if pxIsTopic p then ''Proxy(Topic('' else ''Proxy(Node('') @ pxPrimaryKey p @ ''))''"

text \<open>A member prints with its address, whose text is an argument.\<close>

definition show_member :: "string \<Rightarrow> bool \<Rightarrow> string \<Rightarrow> string" where
  "show_member address isTopic primaryKey =
     (if isTopic then ''Topic('' else ''Node('') @ primaryKey @ ''@'' @ address @ '')''"

definition show_vector :: "('a \<Rightarrow> string) \<Rightarrow> 'a list \<Rightarrow> string" where
  "show_vector sh v = ''{'' @ (case v of [] \<Rightarrow> '''' | x # xs \<Rightarrow>
     sh x @ concat (map (\<lambda>y. '', '' @ sh y) xs)) @ ''}''"

section \<open>Lemmas\<close>

named_theorems member_defs \<open>the update operations of nodes and topics\<close>

lemmas [member_defs] = node_publishersTo_def node_subscribersTo_def node_isServerFor_def
  node_isClientOf_def node_isActionServerFor_def node_isActionClientOf_def node_state_def
  topic_publishers_def topic_subscribers_def

lemma add_client_ok: "map_ok string_less m \<Longrightarrow> map_ok string_less (add_client s c m)"
  by (simp add: add_client_def Let_def strmap.emplace_ok split: option.splits)

lemma map_of_add_client:
  assumes "map_ok string_less m"
  shows "map_of (add_client s c m) =
    (map_of m)(s \<mapsto> (case map_of m s of None \<Rightarrow> [c] | Some cs \<Rightarrow> cs @ [c]))"
  using assms
  by (auto simp: add_client_def Let_def strmap.find_eq_map_of strmap.map_of_modify
      strmap.map_of_emplace fun_eq_iff split: option.splits)

definition node_ok :: "node \<Rightarrow> bool" where
  "node_ok n \<longleftrightarrow> \<not> mIsTopic n \<and> map_ok string_less (mClients n) \<and> map_ok string_less (mActionClients n)
     \<and> map_ok string_less (mServers n) \<and> map_ok string_less (mActionServers n)"

lemma node_of_response_ok [simp]: "node_ok (node_of_response ipc r)"
  by (simp add: node_ok_def node_of_response_def)

lemma node_apply_ok: "node_ok n \<Longrightarrow> node_ok (node_apply ipc u n)"
  by (cases u) (auto simp: node_ok_def member_defs add_client_ok strmap.emplace_ok Let_def)

lemma node_apply_key [simp]: "mPrimaryKey (node_apply ipc u n) = mPrimaryKey n"
  by (cases u) (auto simp: member_defs Let_def)

lemma node_apply_kind [simp]: "mIsTopic (node_apply ipc u n) = mIsTopic n"
  by (cases u) (auto simp: member_defs Let_def)

lemma topic_apply_key [simp]: "mPrimaryKey (topic_apply u t) = mPrimaryKey t"
  by (cases u) (auto simp: member_defs)

definition node_updates :: "'w ipc \<Rightarrow> node_update list \<Rightarrow> node \<Rightarrow> node" where
  "node_updates ipc us n = foldl (\<lambda>n u. node_apply ipc u n) n us"

lemma node_updates_simps [simp]:
  "node_updates ipc [] n = n"
  "node_updates ipc (u # us) n = node_updates ipc us (node_apply ipc u n)"
  by (simp_all add: node_updates_def)

lemma node_updates_snoc: "node_updates ipc (us @ [u]) n = node_apply ipc u (node_updates ipc us n)"
  by (simp add: node_updates_def)

lemma node_updates_append:
  "node_updates ipc (us @ vs) n = node_updates ipc vs (node_updates ipc us n)"
  by (simp add: node_updates_def)

lemma node_updates_ok: "node_ok n \<Longrightarrow> node_ok (node_updates ipc us n)"
  by (induction us arbitrary: n) (auto simp: node_apply_ok)

text \<open>The clients of a service that a list of updates names, and the servers of one.\<close>

fun client_named :: "'w ipc \<Rightarrow> string \<Rightarrow> node_update \<Rightarrow> member_proxies" where
  "client_named ipc s (NodeIsServerFor _ sv c) =
     (if parseString ipc sv = s then [proxy_of_chars ipc c False] else [])"
| "client_named ipc s (NodeIsActionServerFor _ sv c) =
     (if parseString ipc sv = s then [proxy_of_chars ipc c False] else [])"
| "client_named ipc s _ = []"

fun server_named :: "'w ipc \<Rightarrow> string \<Rightarrow> node_update \<Rightarrow> member_proxies" where
  "server_named ipc s (NodeIsClientOf _ sv c) =
     (if parseString ipc sv = s then [proxy_of_chars ipc c False] else [])"
| "server_named ipc s _ = []"

definition clients_named :: "'w ipc \<Rightarrow> string \<Rightarrow> node_update list \<Rightarrow> member_proxies" where
  "clients_named ipc s us = concat (map (client_named ipc s) us)"

definition servers_named :: "'w ipc \<Rightarrow> string \<Rightarrow> node_update list \<Rightarrow> member_proxies" where
  "servers_named ipc s us = concat (map (server_named ipc s) us)"

definition list_entry :: "'a list \<Rightarrow> 'a list option" where
  "list_entry xs = (if xs = [] then None else Some xs)"

definition first_entry :: "'a list \<Rightarrow> 'a option" where
  "first_entry xs = (case xs of [] \<Rightarrow> None | x # _ \<Rightarrow> Some x)"

lemma named_snoc [simp]:
  "clients_named ipc s (us @ [u]) = clients_named ipc s us @ client_named ipc s u"
  "servers_named ipc s (us @ [u]) = servers_named ipc s us @ server_named ipc s u"
  "clients_named ipc s [] = []" "servers_named ipc s [] = []"
  by (simp_all add: clients_named_def servers_named_def)

lemma first_entry_append:
  "first_entry (xs @ ys) = (case first_entry xs of None \<Rightarrow> first_entry ys | Some x \<Rightarrow> Some x)"
  by (cases xs) (auto simp: first_entry_def)

lemma first_entry_simps [simp]: "first_entry [] = None" "first_entry [x] = Some x"
  by (simp_all add: first_entry_def)

lemma list_entry_snoc:
  "list_entry (xs @ [x]) = Some (case list_entry xs of None \<Rightarrow> [x] | Some ys \<Rightarrow> ys @ [x])"
  by (simp add: list_entry_def)

lemma node_updates_clients:
  assumes "node_ok n" "mClients n = []"
  shows "map_of (mClients (node_updates ipc us n)) s = list_entry (clients_named ipc s us)"
proof (induction us rule: rev_induct)
  case Nil
  then show ?case using assms by (simp add: list_entry_def)
next
  case (snoc u us)
  have ok: "map_ok string_less (mClients (node_updates ipc us n))"
    using node_updates_ok [OF assms(1), of ipc us] by (simp add: node_ok_def)
  show ?case
    using snoc by (cases u)
      (auto simp: node_updates_snoc member_defs Let_def map_of_add_client [OF ok]
        list_entry_snoc)
qed

lemma node_updates_servers:
  assumes "node_ok n" "mServers n = []"
  shows "map_of (mServers (node_updates ipc us n)) s = first_entry (servers_named ipc s us)"
proof (induction us rule: rev_induct)
  case Nil
  then show ?case using assms by simp
next
  case (snoc u us)
  have ok: "map_ok string_less (mServers (node_updates ipc us n))"
    using node_updates_ok [OF assms(1), of ipc us] by (simp add: node_ok_def)
  show ?case
    using snoc by (cases u)
      (auto simp: node_updates_snoc member_defs Let_def strmap.map_of_emplace [OF ok]
        first_entry_append split: option.splits)
qed

lemma node_updates_action_clients: "mActionClients (node_updates ipc us n) = mActionClients n"
proof (induction us arbitrary: n)
  case (Cons u us)
  have "mActionClients (node_apply ipc u n) = mActionClients n"
    by (cases u) (auto simp: member_defs Let_def)
  with Cons show ?case by simp
qed simp

text \<open>State updates that agree with the present state change nothing.\<close>

fun state_agrees :: "bool \<Rightarrow> node_update \<Rightarrow> bool" where
  "state_agrees alive (NodeState _ st t) = ((st = ACTIVE) = alive)"
| "state_agrees alive _ = True"

lemma node_updates_agree:
  assumes "\<forall>u\<in>set us. state_agrees (mAlive n) u"
  shows "mAlive (node_updates ipc us n) = mAlive n
    \<and> mAliveChangeTime (node_updates ipc us n) = mAliveChangeTime n"
  using assms
proof (induction us arbitrary: n)
  case (Cons u us)
  have "mAlive (node_apply ipc u n) = mAlive n
      \<and> mAliveChangeTime (node_apply ipc u n) = mAliveChangeTime n"
    using Cons.prems by (cases u) (auto simp: member_defs Let_def)
  with Cons show ?case by simp
qed simp

definition attr_values :: "attribute list \<Rightarrow> (string \<times> real) list" where
  "attr_values as = map (\<lambda>a. (atName a, atLastValue a)) as"

definition attr_ids :: "attribute list \<Rightarrow> attribute list" where
  "attr_ids as = map (\<lambda>a. a\<lparr>atLastValue := 0\<rparr>) as"

lemma poll_attributes_spec:
  "poll_attributes ipc as out w = Inr (as', out', w') \<Longrightarrow> map_ok string_less out \<Longrightarrow>
    attr_ids as' = attr_ids as \<and> map_ok string_less out'
    \<and> map_of out' = map_of (attr_values as') ++ map_of out"
proof (induction as arbitrary: out w as' out' w')
  case Nil
  then show ?case by (simp add: attr_values_def)
next
  case (Cons a as)
  obtain r w1 where rcv: "shmTryReceive ipc (atSharedMemory a) w = (r, w1)" by force
  let ?a = "case r of None \<Rightarrow> a | Some v \<Rightarrow> a\<lparr>atLastValue := rsValue v\<rparr>"
  let ?out = "fst (map_emplace string_less (atName ?a) (atLastValue ?a) out)"
  obtain bs where bs: "as' = ?a # bs" "poll_attributes ipc as ?out w1 = Inr (bs, out', w')"
    using Cons.prems(1) rcv by (auto split: option.splits)
  have ids: "?a\<lparr>atLastValue := 0\<rparr> = a\<lparr>atLastValue := 0\<rparr>" by (simp split: option.split)
  have ok: "map_ok string_less ?out" using Cons.prems(2) by (rule strmap.emplace_ok)
  have "map_of (attr_values bs) ++ map_of ?out = map_of (attr_values as') ++ map_of out"
    using bs(1) by (auto simp: strmap.map_of_emplace [OF Cons.prems(2)] map_add_def fun_eq_iff
        attr_values_def split: option.splits)
  with Cons.IH [OF bs(2) ok] bs(1) ids show ?case by (simp add: attr_ids_def)
qed

section \<open>Properties\<close>

text \<open>C37: After any sequence of updates to a freshly created node, the clients recorded for a
  service are the clients named for it by the (action) server updates, in the order they
  arrived, and the service has no entry if there was no such update. The separate map of action
  clients stays empty.\<close>

theorem clients_after_updates:
  "map_of (mClients (node_updates ipc us (node_of_response ipc r))) s =
     list_entry (clients_named ipc s us)
   \<and> mActionClients (node_updates ipc us (node_of_response ipc r)) = []"
  using node_updates_clients [OF node_of_response_ok]
  by (simp add: node_updates_action_clients node_of_response_def)

text \<open>The server recorded for a service is the one the first update for that service named:
  later updates never replace it.\<close>

theorem server_after_updates:
  "map_of (mServers (node_updates ipc us (node_of_response ipc r))) s =
     first_entry (servers_named ipc s us)"
  by (rule node_updates_servers [OF node_of_response_ok]) (simp add: node_of_response_def)

text \<open>The alive flag follows the last state change, and its time stamp is the time of that
  change: state updates repeating the present state never move it.\<close>

theorem alive_change_time:
  assumes "(st = ACTIVE) \<noteq> mAlive (node_updates ipc pre n)"
    and "\<forall>u\<in>set post. state_agrees (st = ACTIVE) u"
  shows "mAlive (node_updates ipc (pre @ NodeState k st t # post) n) = (st = ACTIVE)
    \<and> mAliveChangeTime (node_updates ipc (pre @ NodeState k st t # post) n) = t"
proof -
  let ?m = "node_apply ipc (NodeState k st t) (node_updates ipc pre n)"
  have "mAlive ?m = (st = ACTIVE)" "mAliveChangeTime ?m = t"
    using assms(1) by (auto simp: node_state_def Let_def)
  with node_updates_agree [of post ?m ipc] assms(2) show ?thesis
    by (simp add: node_updates_append)
qed

lemma alive_change_time_witness:
  "mAliveChangeTime (node_updates demo_ipc
      ([] @ NodeState [] (NOT_ACTIVE 1) 7 # [NodeState [] (NOT_ACTIVE 1) 9])
      (node_of_response demo_ipc \<lparr>nrPrimaryKey = [], nrName = [], nrPkgName = [], nrState = ACTIVE,
         nrStateChangeTime = 0, nrBootCount = 0, nrPid = 0\<rparr>)) = 7"
  by (rule conjunct2 [OF alive_change_time]) (auto simp: node_of_response_def)

text \<open>Polling a member's attributes changes nothing but the stored last values, and returns for
  every attribute name exactly the value now stored in the first attribute of that name.\<close>

theorem getAttributes_values:
  assumes "getAttributes ipc m w = Inr (out, m', w')"
  shows "map_of out = map_of (attr_values (mmAttributes m')) \<and> map_ok string_less out
    \<and> attr_ids (mmAttributes m') = attr_ids (mmAttributes m)
    \<and> m' = m\<lparr>mmAttributes := mmAttributes m'\<rparr>"
proof -
  obtain as' where p: "poll_attributes ipc (mmAttributes m) [] w = Inr (as', out, w')"
    and m': "m' = m\<lparr>mmAttributes := as'\<rparr>"
    using assms by (auto simp: getAttributes_def)
  from poll_attributes_spec [OF p] m' show ?thesis by simp
qed

definition demo_attr :: attribute where
  "demo_attr = \<lparr>atName = ''cpu'', atSharedMemory = ''a'', atRequestId = 0, atLastValue = 0\<rparr>"

definition demo_member :: member where
  "demo_member = \<lparr>mIsTopic = False, mPrimaryKey = ''k'', mmAttributes = [demo_attr]\<rparr>"

lemma demo_getAttributes:
  "getAttributes demo_ipc demo_member w = Inr ([(''cpu'', 1)],
     demo_member\<lparr>mmAttributes := [demo_attr\<lparr>atLastValue := 1\<rparr>]\<rparr>, w)"
  by (simp add: getAttributes_def demo_member_def demo_attr_def demo_response_def)

lemma getAttributes_values_witness:
  "map_of [(''cpu'', 1 :: real)] = map_of (attr_values [demo_attr\<lparr>atLastValue := 1\<rparr>])"
  using getAttributes_values [OF demo_getAttributes] by simp

text \<open>Two proxies print alike exactly if they are the same proxy: kind and key can be read off
  the log line.\<close>

theorem show_proxy_injective: "show_proxy p = show_proxy q \<longleftrightarrow> p = q"
  by (cases p; cases q) (auto simp: show_proxy_def split: if_splits)

end
