(* ===== verification/Atomic_Counter.thy ===== *)
theory Atomic_Counter
  imports Prelude
begin

text \<open>
  \<^verbatim>\<open>src/dynamic-subgraph/atomic-counter.{hpp,cpp}\<close> and \<open>ScopeLock\<close> of \<^verbatim>\<open>src/common.hpp\<close>. First the
  sequential meaning of the counter's operations on a \<open>size_t\<close>; then the operations as the
  code performs them, split into lock, reads, write and unlock, run by any number of threads;
  and the proof that the locked operations behave as if each were one atomic step.
\<close>

section \<open>The operations, sequentially\<close>

definition counter_increase :: "size_t \<Rightarrow> size_t" where
  "counter_increase v = v + 1"

definition counter_decrease :: "size_t \<Rightarrow> size_t" where
  "counter_decrease v = (if 0 < v then v - 1 else v)"

definition counter_get :: "size_t \<Rightarrow> size_t" where
  "counter_get v = v"

definition counter_nonZero :: "size_t \<Rightarrow> bool" where
  "counter_nonZero v \<longleftrightarrow> 0 < v"

text \<open>Construction, copy and move take the value; an assignment replaces it. No copy takes the mutex.\<close>

definition counter_new :: "size_t \<Rightarrow> size_t" where
  "counter_new value = value"

definition counter_copy :: "size_t \<Rightarrow> size_t" where
  "counter_copy other = other"

definition counter_assign :: "size_t \<Rightarrow> size_t \<Rightarrow> size_t" where
  "counter_assign this other = other"

text \<open>Printing writes the value in decimal; it is read without the mutex.\<close>

fun decimal :: "nat \<Rightarrow> string" where
  "decimal n = (if n < 10 then [char_of (48 + n)] else decimal (n div 10) @ [char_of (48 + n mod 10)])"

declare decimal.simps [simp del]

definition show_counter :: "size_t \<Rightarrow> string" where
  "show_counter counter = decimal (unat counter)"

definition decimal_value :: "string \<Rightarrow> nat" where
  "decimal_value cs = foldl (\<lambda>v c. 10 * v + (of_char c - 48)) 0 cs"

lemma decimal_round_trip: "decimal_value (decimal n) = n"
proof (induction n rule: decimal.induct)
  case (1 n)
  show ?case
  proof (cases "n < 10")
    case True
    then show ?thesis by (subst decimal.simps) (simp add: decimal_value_def)
  next
    case False
    then have "decimal n = decimal (n div 10) @ [char_of (48 + n mod 10)]" by (subst decimal.simps) simp
    then show ?thesis using 1 [OF False] by (simp add: decimal_value_def)
  qed
qed

lemma show_counter_injective: "show_counter a = show_counter b \<longleftrightarrow> a = b"
  unfolding show_counter_def by (metis decimal_round_trip unsigned_word_eqI)

lemma unat_counter_increase:
  "unat v + 1 < 2 ^ 64 \<Longrightarrow> unat (counter_increase v) = unat v + 1"
  by (simp add: counter_increase_def unat_word_ariths)

lemma unat_counter_decrease: "unat (counter_decrease v) = unat v - 1"
proof (cases "v = 0")
  case False
  then have "0 < v" by (simp add: word_gt_0)
  then show ?thesis by (simp add: counter_decrease_def unat_minus_one False)
qed (simp add: counter_decrease_def)

lemma counter_nonZero_unat: "counter_nonZero v \<longleftrightarrow> 0 < unat v"
  by (simp add: counter_nonZero_def word_gt_0 unat_gt_0)

datatype counter_op = Increase | Decrease | Get | NonZero

datatype counter_ret = RVoid | RSize size_t | RBool bool

fun counter_exec :: "counter_op \<Rightarrow> size_t \<Rightarrow> counter_ret \<times> size_t" where
  "counter_exec Increase v = (RVoid, counter_increase v)"
| "counter_exec Decrease v = (RVoid, counter_decrease v)"
| "counter_exec Get v = (RSize (counter_get v), v)"
| "counter_exec NonZero v = (RBool (counter_nonZero v), v)"

fun serial_run :: "size_t \<Rightarrow> counter_op list \<Rightarrow> counter_ret list \<times> size_t" where
  "serial_run v [] = ([], v)"
| "serial_run v (c # cs) = (case counter_exec c v of (r, v') \<Rightarrow> apfst (Cons r) (serial_run v' cs))"

lemma serial_run_snoc:
  "serial_run v (cs @ [c]) =
     (fst (serial_run v cs) @ [fst (counter_exec c (snd (serial_run v cs)))],
      snd (counter_exec c (snd (serial_run v cs))))"
  by (induction cs arbitrary: v) (auto split: prod.splits simp: prod_eq_iff)

section \<open>ScopeLock\<close>

text \<open>
  The constructor returns only once the mutex is free, and takes it; the destructor frees it.
\<close>

definition scope_lock :: "nat \<Rightarrow> nat option \<Rightarrow> nat option option" where
  "scope_lock i holder = (case holder of None \<Rightarrow> Some (Some i) | Some _ \<Rightarrow> None)"

text \<open>The other constructor is meant to adopt a mutex its caller holds; it takes the mutex as well.\<close>

definition scope_adopt :: "nat \<Rightarrow> nat option \<Rightarrow> nat option option" where
  "scope_adopt i holder = scope_lock i holder"

lemma adopting_never_returns: "scope_adopt i (Some i) = None"
  by (simp add: scope_adopt_def scope_lock_def)

definition scope_unlock :: "nat option \<Rightarrow> nat option" where
  "scope_unlock holder = None"

section \<open>The operations as threads run them\<close>

text \<open>
  \<open>Entered\<close>: the lock is held. \<open>Checked\<close>: \<open>decrease\<close> has read a positive value in its guard.
  \<open>Loaded v\<close>: the value the update is computed from has been read. \<open>Leaving\<close>: the body is over,
  the lock still held. \<open>clog\<close> records the finished bodies with what they returned.
\<close>

datatype counter_pc = Idle | Entered | Checked | Loaded size_t | Leaving

record counter_sys =
  cvalue :: size_t
  cholder :: "nat option"
  cpc :: "nat \<Rightarrow> counter_pc"
  cops :: "nat \<Rightarrow> counter_op list"
  clog :: "(nat \<times> counter_op \<times> counter_ret) list"

definition counter_init :: "size_t \<Rightarrow> (nat \<Rightarrow> counter_op list) \<Rightarrow> counter_sys" where
  "counter_init v progs = \<lparr>cvalue = v, cholder = None, cpc = (\<lambda>_. Idle), cops = progs, clog = []\<rparr>"

definition finish :: "nat \<Rightarrow> counter_op \<Rightarrow> counter_ret \<Rightarrow> counter_sys \<Rightarrow> counter_sys" where
  "finish i c r s = s\<lparr>cpc := (cpc s)(i := Leaving), clog := clog s @ [(i, c, r)]\<rparr>"

inductive counter_step :: "counter_sys \<Rightarrow> counter_sys \<Rightarrow> bool" where
  lock: "cpc s i = Idle \<Longrightarrow> cops s i = c # cs \<Longrightarrow> scope_lock i (cholder s) = Some h \<Longrightarrow>
    counter_step s (s\<lparr>cholder := h, cpc := (cpc s)(i := Entered)\<rparr>)"
| get: "cpc s i = Entered \<Longrightarrow> cops s i = Get # cs \<Longrightarrow>
    counter_step s (finish i Get (RSize (cvalue s)) s)"
| nonZero: "cpc s i = Entered \<Longrightarrow> cops s i = NonZero # cs \<Longrightarrow>
    counter_step s (finish i NonZero (RBool (0 < cvalue s)) s)"
| guard_pass: "cpc s i = Entered \<Longrightarrow> cops s i = Decrease # cs \<Longrightarrow> 0 < cvalue s \<Longrightarrow>
    counter_step s (s\<lparr>cpc := (cpc s)(i := Checked)\<rparr>)"
| guard_fail: "cpc s i = Entered \<Longrightarrow> cops s i = Decrease # cs \<Longrightarrow> \<not> 0 < cvalue s \<Longrightarrow>
    counter_step s (finish i Decrease RVoid s)"
| load_inc: "cpc s i = Entered \<Longrightarrow> cops s i = Increase # cs \<Longrightarrow>
    counter_step s (s\<lparr>cpc := (cpc s)(i := Loaded (cvalue s))\<rparr>)"
| load_dec: "cpc s i = Checked \<Longrightarrow>
    counter_step s (s\<lparr>cpc := (cpc s)(i := Loaded (cvalue s))\<rparr>)"
| store_inc: "cpc s i = Loaded v \<Longrightarrow> cops s i = Increase # cs \<Longrightarrow>
    counter_step s (finish i Increase RVoid (s\<lparr>cvalue := v + 1\<rparr>))"
| store_dec: "cpc s i = Loaded v \<Longrightarrow> cops s i = Decrease # cs \<Longrightarrow>
    counter_step s (finish i Decrease RVoid (s\<lparr>cvalue := v - 1\<rparr>))"
| unlock: "cpc s i = Leaving \<Longrightarrow> cops s i = c # cs \<Longrightarrow>
    counter_step s (s\<lparr>cholder := scope_unlock (cholder s), cpc := (cpc s)(i := Idle), cops := (cops s)(i := cs)\<rparr>)"

inductive counter_reachable :: "size_t \<Rightarrow> (nat \<Rightarrow> counter_op list) \<Rightarrow> counter_sys \<Rightarrow> bool"
  for v0 progs where
  start: "counter_reachable v0 progs (counter_init v0 progs)"
| step: "counter_reachable v0 progs s \<Longrightarrow> counter_step s t \<Longrightarrow> counter_reachable v0 progs t"

text \<open>What thread \<open>i\<close> has still to do; a logged operation no longer counts.\<close>

definition todo :: "counter_sys \<Rightarrow> nat \<Rightarrow> counter_op list" where
  "todo s i = (if cpc s i = Leaving then tl (cops s i) else cops s i)"

definition done_by :: "nat \<Rightarrow> (nat \<times> counter_op \<times> counter_ret) list \<Rightarrow> counter_op list" where
  "done_by i l = map (fst \<circ> snd) (filter (\<lambda>e. fst e = i) l)"

lemma done_by_snoc [simp]:
  "done_by i (l @ [(j, c, r)]) = done_by i l @ (if i = j then [c] else [])"
  by (simp add: done_by_def)

fun pc_ok :: "counter_pc \<Rightarrow> counter_op list \<Rightarrow> size_t \<Rightarrow> bool" where
  "pc_ok Idle cs v = False"
| "pc_ok Entered cs v = (cs \<noteq> [])"
| "pc_ok Checked cs v = (cs \<noteq> [] \<and> hd cs = Decrease \<and> 0 < v)"
| "pc_ok (Loaded w) cs v = (cs \<noteq> [] \<and> w = v \<and> (hd cs = Increase \<or> hd cs = Decrease \<and> 0 < v))"
| "pc_ok Leaving cs v = (cs \<noteq> [])"

definition lock_inv :: "counter_sys \<Rightarrow> bool" where
  "lock_inv s \<longleftrightarrow> (case cholder s of
       None \<Rightarrow> (\<forall>i. cpc s i = Idle)
     | Some i \<Rightarrow> (\<forall>j. j \<noteq> i \<longrightarrow> cpc s j = Idle) \<and> pc_ok (cpc s i) (cops s i) (cvalue s))"

lemma lock_inv_holder:
  assumes "lock_inv s" "cpc s i \<noteq> Idle"
  shows "cholder s = Some i" "\<And>j. j \<noteq> i \<Longrightarrow> cpc s j = Idle" "pc_ok (cpc s i) (cops s i) (cvalue s)"
  using assms by (auto simp: lock_inv_def split: option.splits) (metis pc_ok.simps(1))+

lemma lock_inv_free: "lock_inv s \<Longrightarrow> cholder s = None \<Longrightarrow> cpc s i = Idle"
  by (simp add: lock_inv_def)

definition log_inv :: "size_t \<Rightarrow> (nat \<Rightarrow> counter_op list) \<Rightarrow> counter_sys \<Rightarrow> bool" where
  "log_inv v0 progs s \<longleftrightarrow>
     serial_run v0 (map (fst \<circ> snd) (clog s)) = (map (snd \<circ> snd) (clog s), cvalue s)
     \<and> (\<forall>i. done_by i (clog s) @ todo s i = progs i)"

lemma lock_inv_init: "lock_inv (counter_init v progs)"
  by (simp add: lock_inv_def counter_init_def)

lemma log_inv_init: "log_inv v progs (counter_init v progs)"
  by (simp add: log_inv_def counter_init_def todo_def done_by_def)

lemma scope_lock_Some [simp]: "scope_lock i h = Some h' \<longleftrightarrow> h = None \<and> h' = Some i"
  by (auto simp: scope_lock_def split: option.splits)

lemma lock_inv_move:
  assumes "lock_inv s" "cpc s i \<noteq> Idle" "pc_ok pc (cops s i) v"
  shows "lock_inv (s\<lparr>cvalue := v, cpc := (cpc s)(i := pc), clog := l\<rparr>)"
  using lock_inv_holder [OF assms(1,2)] assms(3) by (simp add: lock_inv_def)

lemma lock_inv_step: "counter_step s t \<Longrightarrow> lock_inv s \<Longrightarrow> lock_inv t"
proof (induction rule: counter_step.induct)
  case (lock s i c cs h)
  then show ?case by (simp add: lock_inv_def)
next
  case (get s i cs)
  then show ?case using lock_inv_move [of s i Leaving "cvalue s"] by (simp add: finish_def)
next
  case (nonZero s i cs)
  then show ?case using lock_inv_move [of s i Leaving "cvalue s"] by (simp add: finish_def)
next
  case (guard_pass s i cs)
  then show ?case using lock_inv_move [of s i Checked "cvalue s" "clog s"] by simp
next
  case (guard_fail s i cs)
  then show ?case using lock_inv_move [of s i Leaving "cvalue s"] by (simp add: finish_def)
next
  case (load_inc s i cs)
  then show ?case using lock_inv_move [of s i "Loaded (cvalue s)" "cvalue s" "clog s"] by simp
next
  case (load_dec s i)
  then show ?case
    using lock_inv_move [of s i "Loaded (cvalue s)" "cvalue s" "clog s"] lock_inv_holder(3) [of s i]
    by simp
next
  case (store_inc s i v cs)
  then show ?case using lock_inv_move [of s i Leaving "v + 1"] by (simp add: finish_def)
next
  case (store_dec s i v cs)
  then show ?case using lock_inv_move [of s i Leaving "v - 1"] by (simp add: finish_def)
next
  case (unlock s i c cs)
  then show ?case using lock_inv_holder [of s i] by (simp add: lock_inv_def scope_unlock_def)
qed

text \<open>Only the lock holder is between lock and unlock, so a step of thread \<open>i\<close> logs the next
  operation of \<open>i\<close> with the result it has on the present value.\<close>

lemma log_inv_finish:
  assumes "log_inv v0 progs s" "cpc s i \<noteq> Leaving" "cops s i = c # cs"
    and "counter_exec c (cvalue s) = (r, v)"
  shows "log_inv v0 progs (finish i c r (s\<lparr>cvalue := v\<rparr>))"
proof -
  let ?t = "finish i c r (s\<lparr>cvalue := v\<rparr>)"
  have "done_by j (clog ?t) @ todo ?t j = done_by j (clog s) @ todo s j" for j
    using assms(2,3) by (simp add: finish_def todo_def)
  then show ?thesis
    using assms(1,4) by (auto simp: log_inv_def finish_def serial_run_snoc)
qed

lemma log_inv_frame:
  assumes "log_inv v0 progs s" "clog t = clog s" "cvalue t = cvalue s" "\<And>j. todo t j = todo s j"
  shows "log_inv v0 progs t"
  using assms by (simp add: log_inv_def)

lemma log_inv_step:
  assumes "counter_step s t" "lock_inv s" "log_inv v0 progs s"
  shows "log_inv v0 progs t"
  using assms
proof (induction rule: counter_step.induct)
  case (get s i cs)
  then show ?case using log_inv_finish [of v0 progs s i Get cs "RSize (cvalue s)" "cvalue s"]
    by (simp add: counter_get_def)
next
  case (nonZero s i cs)
  then show ?case
    using log_inv_finish [of v0 progs s i NonZero cs "RBool (0 < cvalue s)" "cvalue s"]
    by (simp add: counter_nonZero_def)
next
  case (guard_fail s i cs)
  then show ?case using log_inv_finish [of v0 progs s i Decrease cs RVoid "cvalue s"]
    by (simp add: counter_decrease_def)
next
  case (store_inc s i v cs)
  then have "v = cvalue s" using lock_inv_holder(3) [of s i] by simp
  then show ?case using store_inc log_inv_finish [of v0 progs s i Increase cs RVoid "v + 1"]
    by (simp add: counter_increase_def)
next
  case (store_dec s i v cs)
  then have v: "v = cvalue s" "0 < cvalue s" using lock_inv_holder(3) [of s i] by auto
  then have "counter_exec Decrease (cvalue s) = (RVoid, v - 1)" by (simp add: counter_decrease_def)
  from log_inv_finish [OF _ _ _ this] store_dec show ?case by simp
qed (erule log_inv_frame; simp add: todo_def)+

lemma reachable_invs:
  "counter_reachable v0 progs s \<Longrightarrow> lock_inv s \<and> log_inv v0 progs s"
proof (induction rule: counter_reachable.induct)
  case start
  then show ?case by (simp add: lock_inv_init log_inv_init)
next
  case (step s t)
  then show ?case by (blast intro: lock_inv_step log_inv_step)
qed

section \<open>Properties\<close>

text \<open>C26: Under any interleaving of threads running any operations on one counter, the value is the
  one obtained by running the finished operations one after the other in the order they
  finished, each returned what it returns in that serial run, and every thread's operations
  finish in its program order.\<close>

theorem counter_atomic:
  assumes "counter_reachable v0 progs s"
  shows "serial_run v0 (map (fst \<circ> snd) (clog s)) = (map (snd \<circ> snd) (clog s), cvalue s)
    \<and> (\<forall>i. done_by i (clog s) @ todo s i = progs i)"
  using reachable_invs [OF assms] by (auto simp: log_inv_def)

text \<open>Thread 0 increases, thread 1 is about to read; thread 0 has run its whole body.\<close>

definition demo_progs :: "nat \<Rightarrow> counter_op list" where
  "demo_progs i = (if i = 0 then [Increase] else if i = 1 then [Get] else [])"

definition demo_state :: counter_sys where
  "demo_state = \<lparr>cvalue = 1, cholder = Some 0, cpc = (\<lambda>_. Idle)(0 := Leaving),
     cops = demo_progs, clog = [(0, Increase, RVoid)]\<rparr>"

lemma demo_reachable: "counter_reachable 0 demo_progs demo_state"
proof -
  let ?s0 = "counter_init 0 demo_progs"
  let ?s1 = "?s0\<lparr>cholder := Some 0, cpc := (cpc ?s0)(0 := Entered)\<rparr>"
  let ?s2 = "?s1\<lparr>cpc := (cpc ?s1)(0 := Loaded (cvalue ?s1))\<rparr>"
  have p: "cops ?s0 0 = [Increase]" by (simp add: counter_init_def demo_progs_def)
  have s1: "counter_step ?s0 ?s1"
    by (rule counter_step.lock [OF _ p]) (simp_all add: counter_init_def)
  have s2: "counter_step ?s1 ?s2"
    by (rule counter_step.load_inc) (use p in auto)
  have s3: "counter_step ?s2 (finish 0 Increase RVoid (?s2\<lparr>cvalue := cvalue ?s1 + 1\<rparr>))"
    by (rule counter_step.store_inc) (use p in auto)
  have s4: "finish 0 Increase RVoid (?s2\<lparr>cvalue := cvalue ?s1 + 1\<rparr>) = demo_state"
    by (simp add: finish_def demo_state_def counter_init_def)
  show ?thesis
    using counter_reachable.step [OF counter_reachable.step [OF counter_reachable.step
      [OF counter_reachable.start s1] s2] s3]
    unfolding s4 .
qed

lemma counter_atomic_witness:
  "counter_reachable 0 demo_progs demo_state \<and> serial_run 0 [Increase] = ([RVoid], 1)
     \<and> done_by 0 [(0, Increase, RVoid)] @ todo demo_state 0 = [Increase]"
proof -
  note c = counter_atomic [OF demo_reachable]
  have "clog demo_state = [(0, Increase, RVoid)]" "cvalue demo_state = 1" "demo_progs 0 = [Increase]"
    by (simp_all add: demo_state_def demo_progs_def)
  then show ?thesis using conjunct1 [OF c] spec [OF conjunct2 [OF c], of 0] demo_reachable by simp
qed

text \<open>Two threads are never both inside a counter operation, and as long as some thread has an
  operation left, some thread can move: the lock never leaves the counter stuck.\<close>

theorem counter_mutex_and_progress:
  assumes "counter_reachable v0 progs s"
  shows "(cpc s i \<noteq> Idle \<and> cpc s j \<noteq> Idle \<longrightarrow> i = j) \<and>
    (cops s k \<noteq> [] \<longrightarrow> (\<exists>t. counter_step s t))"
proof -
  from reachable_invs [OF assms] have inv: "lock_inv s" by simp
  have "\<exists>t. counter_step s t" if ne: "cops s k \<noteq> []"
  proof (cases "cholder s")
    case None
    obtain c cs where "cops s k = c # cs" using ne by (cases "cops s k") auto
    then show ?thesis
      using None lock_inv_free [OF inv] counter_step.lock [of s k c cs "Some k"] by auto
  next
    case (Some m)
    with inv have m: "pc_ok (cpc s m) (cops s m) (cvalue s)" by (simp add: lock_inv_def)
    then obtain c cs where c: "cops s m = c # cs" by (cases "cops s m"; cases "cpc s m") auto
    show ?thesis
    proof (cases "cpc s m")
      case Entered
      then show ?thesis using c by (cases c) (blast intro: counter_step.intros)+
    next
      case (Loaded v)
      with m c have "c = Increase \<or> c = Decrease" by auto
      then show ?thesis using c Loaded by (blast intro: counter_step.intros)
    qed (use c m in \<open>auto intro: counter_step.intros\<close>)
  qed
  then show ?thesis using lock_inv_holder(1) [OF inv] by (metis option.inject)
qed

lemma counter_mutex_and_progress_witness:
  "cops demo_state 1 \<noteq> [] \<and> (\<exists>t. counter_step demo_state t)"
proof -
  have "cops demo_state 1 \<noteq> []" by (simp add: demo_state_def demo_progs_def)
  then show ?thesis using counter_mutex_and_progress [OF demo_reachable, of 0 0 1] by blast
qed

end
