(* ===== verification/Linked_List.thy ===== *)
theory Linked_List
  imports Members Atomic_Counter
begin

text \<open>
  \<^verbatim>\<open>src/dynamic-subgraph/double-linked-list.{hpp,cpp}\<close>: the list that owns the data store's
  elements. Elements live in a memory of cells addressed by number: \<open>new\<close> takes the next fresh
  cell, \<open>delete\<close> empties it, and following a pointer to an emptied cell is \<open>UseAfterFree\<close>.
  A loop that follows \<open>mNext\<close> carries as fuel one more than the number of cells ever allocated:
  a walk that has not ended by then has met a cell twice and never ends (\<open>Diverges\<close>);
  \<open>find_rep\<close> and \<open>destroy_rep\<close> show that on well-formed lists the fuel suffices.
\<close>

section \<open>Cells and lists\<close>

record 'a element =
  elPrev :: "nat option"
  elNext :: "nat option"
  elInstance :: 'a
  elRequestId :: request_id
  elUseCounter :: size_t

record 'a dll =
  dlMem :: "'a element option list"
  mBegin :: "nat option"
  mEnd :: "nat option"

definition cell :: "'a dll \<Rightarrow> nat \<Rightarrow> 'a element option" where
  "cell d a = (if a < length (dlMem d) then dlMem d ! a else None)"

definition deref :: "'a dll \<Rightarrow> nat option \<Rightarrow> 'a element result" where
  "deref d p = (case p of
       None \<Rightarrow> Inl NullDereference
     | Some a \<Rightarrow> (case cell d a of None \<Rightarrow> Inl UseAfterFree | Some e \<Rightarrow> Inr e))"

definition set_cell :: "nat \<Rightarrow> 'a element option \<Rightarrow> 'a dll \<Rightarrow> 'a dll" where
  "set_cell a c d = d\<lparr>dlMem := (dlMem d)[a := c]\<rparr>"

text \<open>Writing a field through a pointer.\<close>

definition modify :: "nat option \<Rightarrow> ('a element \<Rightarrow> 'a element) \<Rightarrow> 'a dll \<Rightarrow> 'a dll result" where
  "modify p f d = bindR (deref d p) (\<lambda>e. Inr (set_cell (the p) (Some (f e)) d))"

section \<open>The operations\<close>

definition dll_new :: "'a dll" where
  "dll_new = \<lparr>dlMem = [], mBegin = None, mEnd = None\<rparr>"

definition mk_element :: "nat option \<Rightarrow> nat option \<Rightarrow> 'a \<Rightarrow> request_id \<Rightarrow> 'a element" where
  "mk_element prev next inst requestId =
     \<lparr>elPrev = prev, elNext = next, elInstance = inst, elRequestId = requestId, elUseCounter = 1\<rparr>"

definition emplace_back :: "'a \<Rightarrow> request_id \<Rightarrow> 'a dll \<Rightarrow> (nat option \<times> 'a dll) result" where
  "emplace_back inst requestId d =
     (let a = length (dlMem d);
          newElement = mk_element (mEnd d) None inst requestId;
          d1 = d\<lparr>dlMem := dlMem d @ [Some newElement]\<rparr>
      in bindR (case mEnd d1 of
                  Some _ \<Rightarrow> modify (mEnd d1) (\<lambda>e. e\<lparr>elNext := Some a\<rparr>) d1
                | None \<Rightarrow> Inr (d1\<lparr>mBegin := Some a\<rparr>))
           (\<lambda>d2. Inr (Some a, d2\<lparr>mEnd := Some a\<rparr>)))"

definition node_emplace_back ::
  "'w ipc \<Rightarrow> node_response \<Rightarrow> request_id \<Rightarrow> node dll \<Rightarrow> (nat option \<times> node dll) result" where
  "node_emplace_back ipc response requestId d = emplace_back (node_of_response ipc response) requestId d"

definition topic_emplace_back ::
  "'w ipc \<Rightarrow> topic_response \<Rightarrow> request_id \<Rightarrow> topic dll \<Rightarrow> (nat option \<times> topic dll) result" where
  "topic_emplace_back ipc response requestId d = emplace_back (topic_of_response ipc response) requestId d"

text \<open>\<open>erase\<close> relinks the neighbours and deletes; it does not touch \<open>mBegin\<close> or \<open>mEnd\<close>.\<close>

definition dll_erase :: "nat option \<Rightarrow> 'a dll \<Rightarrow> (nat option \<times> 'a dll) result" where
  "dll_erase it d = bindR (deref d it) (\<lambda>curr.
     let prev = elPrev curr; next = elNext curr in
     bindR (case prev of Some _ \<Rightarrow> modify prev (\<lambda>e. e\<lparr>elNext := next\<rparr>) d | None \<Rightarrow> Inr d) (\<lambda>d1.
     bindR (case next of Some _ \<Rightarrow> modify next (\<lambda>e. e\<lparr>elPrev := prev\<rparr>) d1 | None \<Rightarrow> Inr d1) (\<lambda>d2.
     Inr (next, set_cell (the it) None d2))))"

text \<open>The iterator's increments: the prefix forms return the old position, the postfix forms the
  new one.\<close>

definition iter_preinc :: "'a dll \<Rightarrow> nat option \<Rightarrow> (nat option \<times> nat option) result" where
  "iter_preinc d it = bindR (assertR (it \<noteq> None)) (\<lambda>_.
     bindR (deref d it) (\<lambda>e. Inr (it, elNext e)))"

definition iter_postinc :: "'a dll \<Rightarrow> nat option \<Rightarrow> (nat option \<times> nat option) result" where
  "iter_postinc d it = bindR (assertR (it \<noteq> None)) (\<lambda>_.
     bindR (deref d it) (\<lambda>e. Inr (elNext e, elNext e)))"

definition iter_predec :: "'a dll \<Rightarrow> nat option \<Rightarrow> (nat option \<times> nat option) result" where
  "iter_predec d it = bindR (assertR (it \<noteq> None)) (\<lambda>_.
     bindR (deref d it) (\<lambda>e. Inr (it, elPrev e)))"

definition iter_postdec :: "'a dll \<Rightarrow> nat option \<Rightarrow> (nat option \<times> nat option) result" where
  "iter_postdec d it = bindR (assertR (it \<noteq> None)) (\<lambda>_.
     bindR (deref d it) (\<lambda>e. Inr (elPrev e, elPrev e)))"

text \<open>An iterator is a position: copying and assigning it copies the position, \<open>*\<close> and \<open>->\<close> read the element.\<close>

definition dll_begin :: "'a dll \<Rightarrow> nat option" where [simp]:
  "dll_begin d = mBegin d"

definition dll_end :: "nat option" where [simp]:
  "dll_end = None"

definition iter_assign :: "nat option \<Rightarrow> nat option \<Rightarrow> nat option" where [simp]:
  "iter_assign this other = other"

definition iter_get :: "'a dll \<Rightarrow> nat option \<Rightarrow> 'a element result" where [simp]:
  "iter_get d it = deref d it"

definition iter_eq :: "nat option \<Rightarrow> nat option \<Rightarrow> bool" where [simp]:
  "iter_eq this other \<longleftrightarrow> this = other"

definition iter_ne :: "nat option \<Rightarrow> nat option \<Rightarrow> bool" where [simp]:
  "iter_ne this other \<longleftrightarrow> this \<noteq> other"

definition iter_bool :: "nat option \<Rightarrow> bool" where [simp]:
  "iter_bool this \<longleftrightarrow> this \<noteq> None"

text \<open>The search loop shared by \<open>find\<close> and the two \<open>findName\<close>s: null is \<open>end()\<close>.\<close>

fun find_from :: "nat \<Rightarrow> ('a \<Rightarrow> bool) \<Rightarrow> 'a dll \<Rightarrow> nat option \<Rightarrow> nat option result" where
  "find_from 0 P d it = Inl Diverges"
| "find_from (Suc n) P d it =
     (if \<not> iter_ne it dll_end then Inr dll_end
      else bindR (iter_get d it) (\<lambda>e.
        if P (elInstance e) then Inr it
        else bindR (iter_preinc d it) (\<lambda>(_, it'). find_from n P d it')))"

definition find_where :: "('a \<Rightarrow> bool) \<Rightarrow> 'a dll \<Rightarrow> nat option result" where
  "find_where P d = find_from (Suc (length (dlMem d))) P d (dll_begin d)"

definition dll_find :: "string \<Rightarrow> 'a member_scheme dll \<Rightarrow> nat option result" where
  "dll_find primary d = find_where (\<lambda>x. mPrimaryKey x = primary) d"

definition node_findName :: "string \<Rightarrow> node dll \<Rightarrow> nat option result" where
  "node_findName name d = find_where (\<lambda>x. mNodeName x = name) d"

definition topic_findName :: "string \<Rightarrow> topic dll \<Rightarrow> nat option result" where
  "topic_findName name d = find_where (\<lambda>x. mTopicName x = name) d"

text \<open>The destructor, with its assertions about the links.\<close>

fun destroy_from :: "nat \<Rightarrow> 'a dll \<Rightarrow> nat option \<Rightarrow> 'a dll result" where
  "destroy_from 0 d current = Inl Diverges"
| "destroy_from (Suc n) d current =
     (if current = None then Inr d
      else bindR (deref d current) (\<lambda>e.
        let next = elNext e in
        bindR (if next \<noteq> None then bindR (deref d next) (\<lambda>e'. assertR (elPrev e' = current))
               else assertR (current = mEnd d)) (\<lambda>_.
        destroy_from n (set_cell (the current) None d) next)))"

definition dll_destroy :: "'a dll \<Rightarrow> 'a dll result" where
  "dll_destroy d =
     (if mBegin d = None then bindR (assertR (mEnd d = None)) (\<lambda>_. Inr d)
      else destroy_from (Suc (length (dlMem d))) d (mBegin d))"

section \<open>What a list represents\<close>

text \<open>
  \<open>seg d p as nx\<close>: the addresses \<open>as\<close> are a run of allocated, doubly linked cells, entered from
  \<open>p\<close> and leaving to \<open>nx\<close>. A well-formed list is such a run from null to null between \<open>mBegin\<close>
  and \<open>mEnd\<close>.
\<close>

fun fst_or :: "nat option \<Rightarrow> nat list \<Rightarrow> nat option" where
  "fst_or nx [] = nx"
| "fst_or nx (a # as) = Some a"

definition last_or :: "nat option \<Rightarrow> nat list \<Rightarrow> nat option" where
  "last_or p as = (if as = [] then p else Some (last as))"

fun seg :: "'a dll \<Rightarrow> nat option \<Rightarrow> nat list \<Rightarrow> nat option \<Rightarrow> bool" where
  "seg d p [] nx = True"
| "seg d p (a # as) nx = (\<exists>e. cell d a = Some e \<and> elPrev e = p \<and> elNext e = fst_or nx as
     \<and> seg d (Some a) as nx)"

definition rep :: "'a dll \<Rightarrow> nat list \<Rightarrow> bool" where
  "rep d as \<longleftrightarrow> distinct as \<and> mBegin d = fst_or None as \<and> mEnd d = last_or None as \<and> seg d None as None"

definition item :: "'a dll \<Rightarrow> nat \<Rightarrow> 'a" where
  "item d a = elInstance (the (cell d a))"

definition contents :: "'a dll \<Rightarrow> nat list \<Rightarrow> 'a list" where
  "contents d as = map (item d) as"

lemma last_or_simps [simp]:
  "last_or p [] = p" "last_or p (as @ [a]) = Some a" "as \<noteq> [] \<Longrightarrow> last_or p as = Some (last as)"
  by (simp_all add: last_or_def)

lemma last_or_Cons: "last_or p (a # as) = last_or (Some a) as"
  by (simp add: last_or_def)

lemma fst_or_append: "fst_or nx (as @ bs) = fst_or (fst_or nx bs) as"
  by (cases as) auto

lemma seg_append:
  "seg d p (as @ bs) nx \<longleftrightarrow> seg d p as (fst_or nx bs) \<and> seg d (last_or p as) bs nx"
  by (induction as arbitrary: p) (auto simp: fst_or_append last_or_Cons)

lemma seg_frame: "(\<And>a. a \<in> set as \<Longrightarrow> cell d' a = cell d a) \<Longrightarrow> seg d' p as nx = seg d p as nx"
  by (induction as arbitrary: p) auto

lemma seg_allocated: "seg d p as nx \<Longrightarrow> a \<in> set as \<Longrightarrow> \<exists>e. cell d a = Some e"
  by (induction as arbitrary: p) auto

lemma cell_Some_less: "cell d a = Some e \<Longrightarrow> a < length (dlMem d)"
  by (auto simp: cell_def split: if_splits)

lemma seg_bound: "seg d p as nx \<Longrightarrow> set as \<subseteq> {..<length (dlMem d)}"
  using seg_allocated cell_Some_less by fastforce

lemma seg_length:
  assumes "seg d p as nx" "distinct as"
  shows "length as \<le> length (dlMem d)"
proof -
  have "card (set as) \<le> card {..<length (dlMem d)}"
    using seg_bound [OF assms(1)] by (intro card_mono) auto
  then show ?thesis using assms(2) by (simp add: distinct_card)
qed

lemma cell_set_cell [simp]:
  "cell (set_cell a c d) b = (if a = b \<and> a < length (dlMem d) then c else cell d b)"
  by (simp add: cell_def set_cell_def)

lemma set_cell_fields [simp]:
  "mBegin (set_cell a c d) = mBegin d" "mEnd (set_cell a c d) = mEnd d"
  "length (dlMem (set_cell a c d)) = length (dlMem d)"
  by (simp_all add: set_cell_def)

lemma cell_update_ends [simp]:
  "cell (d\<lparr>mBegin := b\<rparr>) a = cell d a" "cell (d\<lparr>mEnd := b\<rparr>) a = cell d a"
  by (simp_all add: cell_def)

lemma cell_snoc [simp]:
  "cell (d\<lparr>dlMem := dlMem d @ [c]\<rparr>) b = (if b = length (dlMem d) then c else cell d b)"
  by (auto simp: cell_def nth_append)

lemma deref_simps [simp, result_simps]:
  "deref d None = Inl NullDereference"
  "cell d a = Some e \<Longrightarrow> deref d (Some a) = Inr e"
  "cell d a = None \<Longrightarrow> deref d (Some a) = Inl UseAfterFree"
  by (simp_all add: deref_def)

lemma deref_Inr: "deref d p = Inr e \<longleftrightarrow> (\<exists>a. p = Some a \<and> cell d a = Some e)"
  by (auto simp: deref_def split: option.splits)

lemma seg_set_outside:
  "a \<notin> set as \<Longrightarrow> seg (set_cell a c d) p as nx = seg d p as nx"
  by (rule seg_frame) auto

text \<open>Changing the links at either end of a run.\<close>

lemma seg_relink_last:
  assumes "seg d p (as @ [a]) nx" "distinct (as @ [a])" "cell d a = Some e"
  shows "seg (set_cell a (Some (e\<lparr>elNext := nx'\<rparr>)) d) p (as @ [a]) nx'"
  using assms by (auto simp: seg_append seg_set_outside dest: cell_Some_less)

lemma seg_relink_first:
  assumes "seg d p (a # as) nx" "distinct (a # as)" "cell d a = Some e"
  shows "seg (set_cell a (Some (e\<lparr>elPrev := p'\<rparr>)) d) p' (a # as) nx"
  using assms by (auto simp: seg_set_outside dest: cell_Some_less)

lemma rep_new: "rep dll_new []"
  by (simp add: rep_def dll_new_def)

lemma rep_begin_cell:
  "rep d (a # as) \<Longrightarrow> \<exists>e. cell d a = Some e \<and> elPrev e = None \<and> elNext e = fst_or None as"
  by (auto simp: rep_def)

section \<open>Lemmas about the operations\<close>

lemma contents_frame: "(\<And>a. a \<in> set as \<Longrightarrow> item d' a = item d a) \<Longrightarrow> contents d' as = contents d as"
  by (simp add: contents_def)

text \<open>The link from the old last element \<open>b\<close> to the new one, in a memory that has the new one already.\<close>

lemma link_new_last:
  assumes "seg d1 None (bs @ [b]) None" "distinct (bs @ [b])" "n \<notin> set (bs @ [b])"
    and "cell d1 n = Some (mk_element (Some b) None x rid)"
  obtains d2 where "modify (Some b) (\<lambda>e. e\<lparr>elNext := Some n\<rparr>) d1 = Inr d2"
    "seg d2 None (bs @ [b, n]) None" "cell d2 n = cell d1 n" "mBegin d2 = mBegin d1"
    "\<And>c. c \<in> set (bs @ [b]) \<Longrightarrow> item d2 c = item d1 c"
proof -
  obtain f where f: "cell d1 b = Some f" using seg_allocated [OF assms(1), of b] by auto
  let ?d2 = "set_cell b (Some (f\<lparr>elNext := Some n\<rparr>)) d1"
  have lt: "b < length (dlMem d1)" using f by (rule cell_Some_less)
  have c: "cell ?d2 n = cell d1 n" using assms(3) by simp
  have "seg ?d2 None (bs @ [b]) (Some n)"
    using seg_relink_last [of d1 None bs b None f "Some n"] assms(1,2) f by simp
  then have "seg ?d2 None (bs @ [b, n]) None" using c assms(4) by (simp add: seg_append mk_element_def)
  moreover have "item ?d2 c = item d1 c" for c using f lt by (cases "c = b") (simp_all add: item_def)
  moreover have "modify (Some b) (\<lambda>e. e\<lparr>elNext := Some n\<rparr>) d1 = Inr ?d2" using f by (simp add: modify_def)
  ultimately show thesis using that [of ?d2] c by simp
qed

lemma emplace_back_rep:
  assumes r: "rep d as"
  shows "\<exists>d'. emplace_back x rid d = Inr (Some (length (dlMem d)), d') \<and>
    rep d' (as @ [length (dlMem d)]) \<and> contents d' (as @ [length (dlMem d)]) = contents d as @ [x] \<and>
    (\<exists>e. cell d' (length (dlMem d)) = Some e \<and> elUseCounter e = 1 \<and> elRequestId e = rid \<and> elInstance e = x)"
proof (cases as rule: rev_cases)
  case Nil
  then have "mEnd d = None" using r by (simp add: rep_def)
  then show ?thesis using Nil
    by (auto simp: emplace_back_def Let_def rep_def mk_element_def contents_def item_def)
next
  case (snoc bs b)
  let ?a = "length (dlMem d)" and ?n = "mk_element (mEnd d) None x rid"
  let ?d1 = "d\<lparr>dlMem := dlMem d @ [Some ?n]\<rparr>"
  have seg: "seg d None as None" "distinct as" "?a \<notin> set as"
    using r seg_bound [of d None as None] by (auto simp: rep_def)
  have e: "mEnd d = Some b" and bg: "mBegin d = fst_or (Some b) bs"
    using r snoc by (auto simp: rep_def fst_or_append)
  have seg1: "seg ?d1 None as None" using seg by (subst seg_frame) auto
  have n1: "cell ?d1 ?a = Some ?n" by simp
  from link_new_last [of ?d1 bs b ?a x rid] seg seg1 n1 snoc e obtain d2 where
    d2: "modify (Some b) (\<lambda>e. e\<lparr>elNext := Some ?a\<rparr>) ?d1 = Inr d2" "seg d2 None (as @ [?a]) None"
      "cell d2 ?a = Some ?n" "mBegin d2 = mBegin d" "\<And>c. c \<in> set as \<Longrightarrow> item d2 c = item ?d1 c"
    by auto
  let ?d3 = "d2\<lparr>mEnd := Some ?a\<rparr>"
  have "rep ?d3 (as @ [?a])"
    using seg bg snoc d2(2,4) by (subst rep_def, subst seg_frame [of _ _ d2]) (auto simp: fst_or_append)
  moreover have "item ?d3 c = item d c" if "c \<in> set as" for c
    using d2(5) [OF that] that seg(3) by (auto simp: item_def)
  then have "contents ?d3 as = contents d as" by (rule contents_frame)
  then have "contents ?d3 (as @ [?a]) = contents d as @ [x]"
    using d2(3) by (simp add: contents_def item_def mk_element_def)
  moreover have "emplace_back x rid d = Inr (Some ?a, ?d3)" using d2(1) e by (simp add: emplace_back_def Let_def)
  ultimately show ?thesis using d2(3) by (auto simp: mk_element_def)
qed

text \<open>What of a cell is not a link.\<close>

definition payload :: "'a dll \<Rightarrow> nat \<Rightarrow> ('a \<times> request_id \<times> size_t) option" where
  "payload d a = map_option (\<lambda>e. (elInstance e, elRequestId e, elUseCounter e)) (cell d a)"

definition same_ends :: "'a dll \<Rightarrow> 'a dll \<Rightarrow> bool" where
  "same_ends d d' \<longleftrightarrow> mBegin d' = mBegin d \<and> mEnd d' = mEnd d \<and> length (dlMem d') = length (dlMem d)"

lemma payload_set_link [simp]:
  assumes "cell d a = Some e"
    and "elInstance f = elInstance e" "elRequestId f = elRequestId e" "elUseCounter f = elUseCounter e"
  shows "payload (set_cell a (Some f) d) b = payload d b"
  using assms by (auto simp: payload_def dest: cell_Some_less)

lemma contents_payload:
  assumes "\<And>a. a \<in> set as \<Longrightarrow> payload d' a = payload d a" "seg d p as nx"
  shows "contents d' as = contents d as"
proof (rule contents_frame)
  fix a assume a: "a \<in> set as"
  then obtain e where e: "cell d a = Some e" using seg_allocated [OF assms(2)] by auto
  then show "item d' a = item d a"
    using assms(1) [OF a] by (auto simp: item_def payload_def)
qed

lemma relink_prev:
  assumes "seg d None xs nx" "distinct xs"
  shows "\<exists>d1. (case last_or None xs of
        Some _ \<Rightarrow> modify (last_or None xs) (\<lambda>e. e\<lparr>elNext := nx'\<rparr>) d | None \<Rightarrow> Inr d) = Inr d1
    \<and> seg d1 None xs nx' \<and> (\<forall>b. b \<notin> set xs \<longrightarrow> cell d1 b = cell d b)
    \<and> (\<forall>b. payload d1 b = payload d b) \<and> same_ends d d1"
proof (cases xs rule: rev_cases)
  case Nil
  then show ?thesis by (simp add: same_ends_def)
next
  case (snoc bs b)
  then obtain f where f: "cell d b = Some f" using seg_allocated [OF assms(1)] by auto
  let ?d1 = "set_cell b (Some (f\<lparr>elNext := nx'\<rparr>)) d"
  have "modify (Some b) (\<lambda>e. e\<lparr>elNext := nx'\<rparr>) d = Inr ?d1" using f by (simp add: modify_def)
  moreover have "seg ?d1 None xs nx'"
    using seg_relink_last [of d None bs b nx f nx'] assms f snoc by simp
  moreover have "\<forall>c. payload ?d1 c = payload d c" using f by simp
  ultimately show ?thesis using snoc by (auto simp: same_ends_def)
qed

lemma relink_next:
  assumes "seg d p ys None" "distinct ys"
  shows "\<exists>d1. (case fst_or None ys of
        Some _ \<Rightarrow> modify (fst_or None ys) (\<lambda>e. e\<lparr>elPrev := p'\<rparr>) d | None \<Rightarrow> Inr d) = Inr d1
    \<and> seg d1 p' ys None \<and> (\<forall>b. b \<notin> set ys \<longrightarrow> cell d1 b = cell d b)
    \<and> (\<forall>b. payload d1 b = payload d b) \<and> same_ends d d1"
proof (cases ys)
  case Nil
  then show ?thesis by (simp add: same_ends_def)
next
  case (Cons b bs)
  then obtain f where f: "cell d b = Some f" using seg_allocated [OF assms(1)] by auto
  let ?d1 = "set_cell b (Some (f\<lparr>elPrev := p'\<rparr>)) d"
  have "modify (Some b) (\<lambda>e. e\<lparr>elPrev := p'\<rparr>) d = Inr ?d1" using f by (simp add: modify_def)
  moreover have "seg ?d1 p' ys None"
    using seg_relink_first [of d p b bs None f p'] assms f Cons by simp
  moreover have "\<forall>c. payload ?d1 c = payload d c" using f by simp
  ultimately show ?thesis using Cons by (auto simp: same_ends_def)
qed

text \<open>Erasing any element of a chain: the chain loses it, the ends of the list do not notice.\<close>

lemma erase_chain:
  assumes s: "seg d None (xs @ a # ys) None" and dist: "distinct (xs @ a # ys)"
  shows "\<exists>d'. dll_erase (Some a) d = Inr (fst_or None ys, d') \<and> seg d' None (xs @ ys) None
    \<and> same_ends d d' \<and> cell d' a = None \<and> (\<forall>b. b \<noteq> a \<longrightarrow> payload d' b = payload d b)"
proof -
  have sx: "seg d None xs (Some a)" and sa: "seg d (last_or None xs) (a # ys) None"
    using s by (simp_all add: seg_append)
  then obtain e where e: "cell d a = Some e" "elPrev e = last_or None xs" "elNext e = fst_or None ys"
    and sy: "seg d (Some a) ys None" by auto
  have lt: "a < length (dlMem d)" using e(1) by (rule cell_Some_less)
  have dx: "distinct xs" "distinct ys" "a \<notin> set xs" "a \<notin> set ys" "set xs \<inter> set ys = {}"
    using dist by auto
  obtain d1 where d1: "(case last_or None xs of
        Some _ \<Rightarrow> modify (last_or None xs) (\<lambda>e. e\<lparr>elNext := fst_or None ys\<rparr>) d | None \<Rightarrow> Inr d) = Inr d1"
      "seg d1 None xs (fst_or None ys)" "\<forall>b. b \<notin> set xs \<longrightarrow> cell d1 b = cell d b"
      "\<forall>b. payload d1 b = payload d b" "same_ends d d1"
    using relink_prev [OF sx dx(1)] by blast
  have sy1: "seg d1 (Some a) ys None"
    using sy d1(3) dx(5) by (subst seg_frame) auto
  obtain d2 where d2: "(case fst_or None ys of
        Some _ \<Rightarrow> modify (fst_or None ys) (\<lambda>e. e\<lparr>elPrev := last_or None xs\<rparr>) d1 | None \<Rightarrow> Inr d1) = Inr d2"
      "seg d2 (last_or None xs) ys None" "\<forall>b. b \<notin> set ys \<longrightarrow> cell d2 b = cell d1 b"
      "\<forall>b. payload d2 b = payload d1 b" "same_ends d1 d2"
    using relink_next [OF sy1 dx(2)] by blast
  have "seg d2 None xs (fst_or None ys)" using d1(2) d2(3) dx(5) by (subst seg_frame) auto
  then have "seg d2 None (xs @ ys) None" using d2(2) by (simp add: seg_append)
  then have "seg (set_cell a None d2) None (xs @ ys) None"
    using dx by (subst seg_set_outside) auto
  moreover have "dll_erase (Some a) d = Inr (fst_or None ys, set_cell a None d2)"
    unfolding dll_erase_def deref_simps(2) [OF e(1)] bindR_Inr Let_def e(2,3) d1(1) d2(1) by simp
  moreover have "same_ends d (set_cell a None d2)" using d1(5) d2(5) by (simp add: same_ends_def)
  moreover have "cell (set_cell a None d2) a = None" using lt d1(5) d2(5) by (simp add: same_ends_def)
  moreover have "\<forall>b. b \<noteq> a \<longrightarrow> payload (set_cell a None d2) b = payload d b"
    using d1(4) d2(4) by (simp add: payload_def)
  ultimately show ?thesis by blast
qed

lemma erase_rep_inner:
  assumes "rep d (xs @ a # ys)" "xs \<noteq> []" "ys \<noteq> []"
  shows "\<exists>d'. dll_erase (Some a) d = Inr (Some (hd ys), d') \<and> rep d' (xs @ ys)
    \<and> contents d' (xs @ ys) = contents d (xs @ ys) \<and> (\<forall>b. b \<noteq> a \<longrightarrow> payload d' b = payload d b)"
proof -
  have s: "seg d None (xs @ a # ys) None" "distinct (xs @ a # ys)" using assms(1) by (auto simp: rep_def)
  from erase_chain [OF s] obtain d' where d': "dll_erase (Some a) d = Inr (fst_or None ys, d')"
    "seg d' None (xs @ ys) None" "same_ends d d'" "\<forall>b. b \<noteq> a \<longrightarrow> payload d' b = payload d b" by blast
  have "rep d' (xs @ ys)"
    using assms d'(2,3) by (auto simp: rep_def same_ends_def fst_or_append last_or_def neq_Nil_conv)
  moreover have "contents d' (xs @ ys) = contents d (xs @ ys)"
  proof -
    have "item d' b = item d b" if b: "b \<in> set (xs @ ys)" for b
    proof -
      have "b \<noteq> a" using b s(2) by auto
      then have "payload d' b = payload d b" using d'(4) by blast
      moreover obtain e where "cell d b = Some e" using seg_allocated [OF s(1)] b by auto
      ultimately show ?thesis by (auto simp: item_def payload_def)
    qed
    then show ?thesis by (rule contents_frame)
  qed
  moreover have "fst_or None ys = Some (hd ys)" using assms(3) by (cases ys) auto
  ultimately show ?thesis using d' by auto
qed

lemma find_from_seg:
  "seg d p as None \<Longrightarrow> length as < n \<Longrightarrow>
    find_from n P d (fst_or None as) = Inr (List.find (\<lambda>a. P (item d a)) as)"
proof (induction as arbitrary: p n)
  case Nil
  then show ?case by (cases n) auto
next
  case (Cons a as)
  then obtain m where n: "n = Suc m" "length as < m" by (cases n) auto
  from Cons.prems(1) obtain e where e: "cell d a = Some e" "elNext e = fst_or None as" "seg d (Some a) as None"
    by auto
  then show ?case using Cons.IH [OF e(3) n(2)] n by (simp add: iter_preinc_def item_def)
qed

lemma find_rep: "rep d as \<Longrightarrow> find_where P d = Inr (List.find (\<lambda>a. P (item d a)) as)"
  using find_from_seg [of d None as "Suc (length (dlMem d))" P] seg_length [of d None as None]
  by (auto simp: find_where_def rep_def)

lemma destroy_from_seg:
  assumes "seg d p as None" "distinct as" "length as < n" "as \<noteq> [] \<Longrightarrow> mEnd d = Some (last as)"
  shows "\<exists>d'. destroy_from n d (fst_or None as) = Inr d' \<and> (\<forall>b. cell d' b = (if b \<in> set as then None else cell d b))"
  using assms
proof (induction as arbitrary: p n d)
  case Nil
  then show ?case by (cases n) auto
next
  case (Cons a as)
  then obtain m where n: "n = Suc m" "length as < m" by (cases n) auto
  from Cons.prems(1) obtain e where e: "cell d a = Some e" "elNext e = fst_or None as" "seg d (Some a) as None"
    by auto
  let ?d1 = "set_cell a None d"
  have "seg ?d1 (Some a) as None" using e(3) Cons.prems(2) by (subst seg_set_outside) auto
  moreover have "as \<noteq> [] \<Longrightarrow> mEnd ?d1 = Some (last as)" using Cons.prems(4) by simp
  ultimately obtain d' where d': "destroy_from m ?d1 (fst_or None as) = Inr d'"
    "\<forall>b. cell d' b = (if b \<in> set as then None else cell ?d1 b)"
    using Cons.IH [of ?d1 "Some a" m] Cons.prems(2) n(2) by auto
  have "destroy_from n d (Some a) = destroy_from m ?d1 (fst_or None as)"
  proof (cases as)
    case Nil
    then show ?thesis using n e Cons.prems(4) by simp
  next
    case (Cons b bs)
    then obtain f where "cell d b = Some f" "elPrev f = Some a" using e(3) by auto
    then show ?thesis using n e Cons by simp
  qed
  then show ?case using d' e(1) by (auto dest: cell_Some_less)
qed

lemma destroy_rep:
  assumes "rep d as"
  shows "\<exists>d'. dll_destroy d = Inr d' \<and> (\<forall>b. cell d' b = (if b \<in> set as then None else cell d b))"
proof (cases as)
  case Nil
  then show ?thesis using assms by (simp add: dll_destroy_def rep_def)
next
  case (Cons a bs)
  have "length as < Suc (length (dlMem d))"
    using seg_length [of d None as None] assms by (auto simp: rep_def)
  then show ?thesis
    using destroy_from_seg [of d None as "Suc (length (dlMem d))"] assms Cons
    by (auto simp: dll_destroy_def rep_def)
qed

lemma emplace_back_payload:
  assumes "emplace_back x rid d = Inr (p, d')"
  shows "p = Some (length (dlMem d))" "\<And>b. b \<noteq> length (dlMem d) \<Longrightarrow> payload d' b = payload d b"
proof -
  let ?n = "mk_element (mEnd d) None x rid"
  let ?d1 = "d\<lparr>dlMem := dlMem d @ [Some ?n]\<rparr>"
  show "p = Some (length (dlMem d))" using assms by (auto simp: emplace_back_def Let_def)
  fix b assume b: "b \<noteq> length (dlMem d)"
  show "payload d' b = payload d b"
  proof (cases "mEnd d")
    case None
    then show ?thesis using assms b by (auto simp: emplace_back_def Let_def payload_def)
  next
    case (Some e)
    then obtain f where f: "cell ?d1 e = Some f"
      and d': "d' = (set_cell e (Some (f\<lparr>elNext := Some (length (dlMem d))\<rparr>)) ?d1)\<lparr>mEnd := Some (length (dlMem d))\<rparr>"
      using assms by (auto simp: emplace_back_def Let_def modify_def deref_Inr)
    have "payload d' b = payload (set_cell e (Some (f\<lparr>elNext := Some (length (dlMem d))\<rparr>)) ?d1) b"
      unfolding d' by (simp add: payload_def del: cell_set_cell)
    also have "\<dots> = payload ?d1 b" using f by (rule payload_set_link) simp_all
    also have "\<dots> = payload d b" using b by (simp add: payload_def)
    finally show ?thesis .
  qed
qed

text \<open>Runs depend on the links only.\<close>

definition links :: "'a dll \<Rightarrow> nat \<Rightarrow> (nat option \<times> nat option) option" where
  "links d a = map_option (\<lambda>e. (elPrev e, elNext e)) (cell d a)"

lemma seg_links: "(\<And>a. links d' a = links d a) \<Longrightarrow> seg d p as nx \<Longrightarrow> seg d' p as nx"
proof (induction as arbitrary: p)
  case (Cons a as)
  from Cons.prems(1) [of a] Cons.prems(2) have "\<exists>e. cell d' a = Some e \<and> elPrev e = p \<and> elNext e = fst_or nx as"
    by (auto simp: links_def)
  with Cons show ?case by auto
qed simp

lemma rep_links:
  assumes "\<And>a. links d' a = links d a" "same_ends d d'" "rep d as"
  shows "rep d' as"
  using assms seg_links [of d' d None as None] by (auto simp: rep_def same_ends_def)

section \<open>The list as a container of keyed elements\<close>

text \<open>The addresses in order, by walking the links.\<close>

fun addrs_from :: "nat \<Rightarrow> 'a dll \<Rightarrow> nat option \<Rightarrow> nat list" where
  "addrs_from 0 d it = []"
| "addrs_from (Suc n) d it = (case it of None \<Rightarrow> [] | Some a \<Rightarrow>
     (case cell d a of None \<Rightarrow> [] | Some e \<Rightarrow> a # addrs_from n d (elNext e)))"

definition dll_addrs :: "'a dll \<Rightarrow> nat list" where
  "dll_addrs d = addrs_from (Suc (length (dlMem d))) d (mBegin d)"

definition dll_ok :: "'a dll \<Rightarrow> bool" where
  "dll_ok d \<longleftrightarrow> rep d (dll_addrs d)"

definition dll_items :: "'a dll \<Rightarrow> 'a list" where
  "dll_items d = contents d (dll_addrs d)"

lemma addrs_from_seg:
  "seg d p as None \<Longrightarrow> length as < n \<Longrightarrow> addrs_from n d (fst_or None as) = as"
proof (induction as arbitrary: p n)
  case Nil
  then show ?case by (cases n) auto
next
  case (Cons a as)
  then show ?case by (cases n) auto
qed

lemma rep_addrs: "rep d as \<Longrightarrow> dll_addrs d = as"
  using addrs_from_seg [of d None as "Suc (length (dlMem d))"] seg_length [of d None as None]
  by (auto simp: dll_addrs_def rep_def)

lemma rep_ok: "rep d as \<Longrightarrow> dll_ok d \<and> dll_items d = contents d as"
  using rep_addrs [of d as] by (simp add: dll_ok_def dll_items_def)

lemma dll_new_ok [simp]: "dll_ok dll_new" "dll_items dll_new = []"
  using rep_ok [OF rep_new] by (auto simp: contents_def)

locale element_store =
  fixes inv :: "'s \<Rightarrow> bool"
    and items :: "'s \<Rightarrow> 'x list"
    and lookup :: "'k \<Rightarrow> 's \<Rightarrow> nat option result"
    and add :: "'x \<Rightarrow> request_id \<Rightarrow> 's \<Rightarrow> (nat option \<times> 's) result"
    and key :: "'x \<Rightarrow> 'k"
    and elem_at :: "'s \<Rightarrow> nat \<Rightarrow> 'x"
  assumes lookup_total: "inv s \<Longrightarrow> \<exists>r. lookup k s = Inr r"
    and lookup_hit: "inv s \<Longrightarrow> lookup k s = Inr (Some a) \<Longrightarrow> elem_at s a \<in> set (items s) \<and> key (elem_at s a) = k"
    and lookup_miss: "inv s \<Longrightarrow> lookup k s = Inr None \<Longrightarrow> k \<notin> key ` set (items s)"
    and add_appends: "inv s \<Longrightarrow>
      \<exists>a s'. add x r s = Inr (Some a, s') \<and> inv s' \<and> items s' = items s @ [x] \<and> elem_at s' a = x"
begin

lemma lookup_None_iff: "inv s \<Longrightarrow> lookup k s = Inr None \<longleftrightarrow> k \<notin> key ` set (items s)"
  using lookup_total [of s k] lookup_hit [of s k] lookup_miss [of s k]
  by (metis image_eqI option.exhaust)

lemma lookup_after_add:
  assumes "inv s" "key x \<notin> key ` set (items s)" "add x r s = Inr (Some a, s')"
  shows "\<exists>b. lookup (key x) s' = Inr (Some b) \<and> elem_at s' b = x"
proof -
  from add_appends [OF assms(1), of x r] assms(3)
  have s': "inv s'" "items s' = items s @ [x]" by auto
  then have "lookup (key x) s' \<noteq> Inr None" by (simp add: lookup_None_iff)
  then obtain b where b: "lookup (key x) s' = Inr (Some b)"
    using lookup_total [OF s'(1)] by (metis option.exhaust)
  from lookup_hit [OF s'(1) b] s'(2) have "elem_at s' b \<in> set (items s) \<or> elem_at s' b = x"
    "key (elem_at s' b) = key x" by auto
  with assms(2) b show ?thesis by (metis image_eqI)
qed

lemma distinct_keys_add:
  assumes "inv s" "lookup (key x) s = Inr None" "distinct (map key (items s))"
    and "add x r s = Inr (p, s')"
  shows "inv s' \<and> distinct (map key (items s'))"
  using add_appends [OF assms(1), of x r] assms by (auto simp: lookup_None_iff)

end

lemma find_Some_set: "List.find P xs = Some x \<Longrightarrow> x \<in> set xs \<and> P x"
  by (auto simp: find_Some_iff)

interpretation memberstore: element_store dll_ok dll_items dll_find emplace_back mPrimaryKey item
proof (unfold_locales, goal_cases)
  case (1 s k)
  then show ?case by (auto simp: dll_ok_def dll_find_def find_rep)
next
  case (2 s k a)
  then show ?case
    by (auto simp: dll_ok_def dll_find_def find_rep dll_items_def contents_def dest!: find_Some_set)
next
  case (3 s k)
  then show ?case
    by (auto simp: dll_ok_def dll_find_def find_rep dll_items_def contents_def find_None_iff)
next
  case (4 s x r)
  then have "rep s (dll_addrs s)" by (simp add: dll_ok_def)
  from emplace_back_rep [OF this, of x r] show ?case
    using rep_ok by (fastforce simp: dll_items_def item_def)
qed

section \<open>Properties\<close>

text \<open>\<open>emplace_back\<close> on a well-formed list appends exactly the new element, with use counter 1
  and the given request id, and keeps the list well-formed.\<close>

theorem emplace_back_appends:
  assumes "rep d as"
  shows "\<exists>a d' e. emplace_back x rid d = Inr (Some a, d') \<and> a \<notin> set as \<and> rep d' (as @ [a])
    \<and> contents d' (as @ [a]) = contents d as @ [x]
    \<and> cell d' a = Some e \<and> elUseCounter e = 1 \<and> elRequestId e = rid"
proof -
  have "length (dlMem d) \<notin> set as" using assms seg_bound by (force simp: rep_def)
  with emplace_back_rep [OF assms, of x rid] show ?thesis by blast
qed

lemma emplace_back_appends_witness:
  "\<exists>a d' e. emplace_back ''x'' 7 dll_new = Inr (Some a, d') \<and> a \<notin> set [] \<and> rep d' ([] @ [a])
    \<and> contents d' ([] @ [a]) = contents dll_new [] @ [''x'']
    \<and> cell d' a = Some e \<and> elUseCounter e = 1 \<and> elRequestId e = 7"
  by (rule emplace_back_appends [OF rep_new])

text \<open>On a well-formed list the search by primary key ends, and returns the first element with
  the key, or \<open>end()\<close> if there is none.\<close>

theorem find_first_match:
  assumes "rep d as"
  shows "dll_find k d = Inr (List.find (\<lambda>a. mPrimaryKey (item d a) = k) as)"
  using assms by (simp add: dll_find_def find_rep)

definition demo_topic :: "string \<Rightarrow> topic" where
  "demo_topic k = topic_of_response demo_ipc \<lparr>trPrimaryKey = k, trName = k, trType = []\<rparr>"

definition demo_el :: "nat option \<Rightarrow> nat option \<Rightarrow> string \<Rightarrow> topic element" where
  "demo_el p n k = \<lparr>elPrev = p, elNext = n, elInstance = demo_topic k, elRequestId = 0, elUseCounter = 1\<rparr>"

definition demo_list :: "topic dll" where
  "demo_list = \<lparr>dlMem = [Some (demo_el None (Some 1) ''a''), Some (demo_el (Some 0) (Some 2) ''b''),
      Some (demo_el (Some 1) None ''c'')], mBegin = Some 0, mEnd = Some 2\<rparr>"

lemma demo_list_rep: "rep demo_list [0, 1, 2]"
  by (simp add: rep_def demo_list_def demo_el_def cell_def last_or_def)

lemma demo_list_items [simp]:
  "item demo_list 0 = demo_topic ''a''" "item demo_list (Suc 0) = demo_topic ''b''"
  "item demo_list 2 = demo_topic ''c''"
  by (simp_all add: item_def demo_list_def cell_def demo_el_def)

lemma demo_topic_key [simp]: "mPrimaryKey (demo_topic k) = c_str k"
  by (simp add: demo_topic_def topic_of_response_def)

lemma find_first_match_witness: "dll_find ''b'' demo_list = Inr (Some 1)"
  by (subst find_first_match [OF demo_list_rep]) (simp add: c_str_def)

text \<open>C24: Erasing an element that is neither the first nor the last removes exactly it from the
  sequence, returns the position of its successor and keeps the list well-formed and every other
  element as it was.\<close>

theorem erase_inner:
  assumes "rep d (xs @ a # ys)" "xs \<noteq> []" "ys \<noteq> []"
  shows "\<exists>d'. dll_erase (Some a) d = Inr (Some (hd ys), d') \<and> rep d' (xs @ ys)
    \<and> contents d' (xs @ ys) = contents d (xs @ ys) \<and> (\<forall>b. b \<noteq> a \<longrightarrow> payload d' b = payload d b)"
  using assms by (rule erase_rep_inner)

lemma erase_inner_witness:
  "\<exists>d'. dll_erase (Some 1) demo_list = Inr (Some 2, d') \<and> rep d' [0, 2]"
  using erase_inner [of demo_list "[0]" 1 "[2]"] demo_list_rep by auto

text \<open>Erasing the first element leaves \<open>mBegin\<close> pointing at the deleted element: every later
  search from the beginning reads freed memory, whatever it looks for.\<close>

theorem erase_first_dangles:
  assumes "rep d (a # ys)"
  shows "\<exists>d'. dll_erase (Some a) d = Inr (fst_or None ys, d') \<and> mBegin d' = Some a
    \<and> find_where P d' = Inl UseAfterFree"
proof -
  have "seg d None ([] @ a # ys) None" "distinct ([] @ a # ys)" using assms by (auto simp: rep_def)
  from erase_chain [OF this] obtain d' where d': "dll_erase (Some a) d = Inr (fst_or None ys, d')"
    "same_ends d d'" "cell d' a = None" by blast
  moreover have "mBegin d' = Some a" using assms d'(2) by (simp add: rep_def same_ends_def)
  ultimately show ?thesis by (simp add: find_where_def)
qed

lemma erase_first_dangles_witness:
  "\<exists>d'. dll_erase (Some 0) demo_list = Inr (Some 1, d') \<and> find_where (\<lambda>_. True) d' = Inl UseAfterFree"
  using erase_first_dangles [OF demo_list_rep, of "\<lambda>_. True"] by auto

text \<open>Erasing the last element leaves \<open>mEnd\<close> pointing at the deleted element: the next
  \<open>emplace_back\<close> writes to freed memory.\<close>

theorem erase_last_dangles:
  assumes "rep d (xs @ [a])"
  shows "\<exists>d'. dll_erase (Some a) d = Inr (None, d') \<and> emplace_back x rid d' = Inl UseAfterFree"
proof -
  have s: "seg d None (xs @ a # []) None" "distinct (xs @ a # [])" using assms by (auto simp: rep_def)
  from erase_chain [OF s] obtain d' where d': "dll_erase (Some a) d = Inr (None, d')"
    "same_ends d d'" "cell d' a = None" by auto
  have "mEnd d' = Some a" using assms d'(2) by (simp add: rep_def same_ends_def)
  moreover have "a < length (dlMem d')"
    using seg_bound [OF s(1)] d'(2) by (auto simp: same_ends_def)
  ultimately have "emplace_back x rid d' = Inl UseAfterFree"
    using d'(3) by (simp add: emplace_back_def Let_def modify_def)
  with d' show ?thesis by blast
qed

lemma erase_last_dangles_witness:
  "\<exists>d'. dll_erase (Some 2) demo_list = Inr (None, d') \<and> emplace_back (demo_topic ''x'') 1 d' = Inl UseAfterFree"
  using erase_last_dangles [of demo_list "[0, 1]" 2 "demo_topic ''x''" 1] demo_list_rep by simp

text \<open>The destructor of a well-formed list passes all its assertions, ends, and frees exactly the
  list's elements.\<close>

theorem destructor_frees_all:
  assumes "rep d as"
  shows "\<exists>d'. dll_destroy d = Inr d' \<and> (\<forall>b. cell d' b = (if b \<in> set as then None else cell d b))"
  using assms by (rule destroy_rep)

lemma destructor_frees_all_witness: "\<exists>d'. dll_destroy demo_list = Inr d' \<and> cell d' 1 = None"
  using destructor_frees_all [OF demo_list_rep] by auto

end
