(* ===== verification/Member_Ptr.thy ===== *)
theory Member_Ptr
  imports Linked_List
begin

text \<open>
  \<open>MemberPtr\<close> of \<^verbatim>\<open>src/dynamic-subgraph/member-base.{hpp,cpp}\<close>: a counted pointer to an element of
  the data store. It points at the element's instance and at the element's use counter; copying
  increases the counter, destroying decreases it, moving passes the share on. The store is the
  pair of element lists the data store owns. The theory also holds the cast functions
  \<open>asNode\<close> and \<open>asTopic\<close>, and the order by which \<open>std::map\<close> sorts pointers.
\<close>

section \<open>The store and the pointers into it\<close>

record store =
  stNodes :: "node dll"
  stTopics :: "topic dll"

datatype member_ref = NodeRef nat | TopicRef nat

record member_ptr =
  mpMember :: "member_ref option"
  mpUseCounter :: "member_ref option"

definition store_new :: store where
  "store_new = \<lparr>stNodes = dll_new, stTopics = dll_new\<rparr>"

text \<open>Applying a counter operation through \<open>mpUseCounter\<close>.\<close>

definition counter_at :: "(size_t \<Rightarrow> size_t) \<Rightarrow> member_ref option \<Rightarrow> ('z store_scheme, unit) op" where
  "counter_at f p st = (case p of
       None \<Rightarrow> Inl NullDereference
     | Some (NodeRef a) \<Rightarrow> bindR (modify (Some a) (\<lambda>e. e\<lparr>elUseCounter := f (elUseCounter e)\<rparr>) (stNodes st))
         (\<lambda>d. Inr ((), st\<lparr>stNodes := d\<rparr>))
     | Some (TopicRef a) \<Rightarrow> bindR (modify (Some a) (\<lambda>e. e\<lparr>elUseCounter := f (elUseCounter e)\<rparr>) (stTopics st))
         (\<lambda>d. Inr ((), st\<lparr>stTopics := d\<rparr>)))"

definition ptr_null :: member_ptr where
  "ptr_null = \<lparr>mpMember = None, mpUseCounter = None\<rparr>"

definition ptr_valid :: "member_ptr \<Rightarrow> bool" where
  "ptr_valid p \<longleftrightarrow> mpMember p \<noteq> None"

definition ptr_eq :: "member_ptr \<Rightarrow> member_ptr \<Rightarrow> bool" where
  "ptr_eq p q \<longleftrightarrow> mpMember p = mpMember q"

text \<open>\<open>MAKE_MEMBER_PTR\<close>: the constructor leaves the counter to the data store.\<close>

definition make_member_ptr :: "member_ref \<Rightarrow> member_ptr" where
  "make_member_ptr r = \<lparr>mpMember = Some r, mpUseCounter = Some r\<rparr>"

definition ptr_copy :: "member_ptr \<Rightarrow> ('z store_scheme, member_ptr) op" where
  "ptr_copy other =
     (if mpMember other = None then returnS ptr_null
      else bindS (counter_at counter_increase (mpUseCounter other)) (\<lambda>_.
        returnS \<lparr>mpMember = mpMember other, mpUseCounter = mpUseCounter other\<rparr>))"

definition ptr_assign :: "member_ptr \<Rightarrow> member_ptr \<Rightarrow> ('z store_scheme, member_ptr) op" where
  "ptr_assign this other =
     (if mpMember other = None then returnS (this\<lparr>mpMember := None\<rparr>)
      else bindS (counter_at counter_increase (mpUseCounter other)) (\<lambda>_.
        returnS (this\<lparr>mpMember := mpMember other, mpUseCounter := mpUseCounter other\<rparr>)))"

text \<open>Moves give the new pointer and what is left of the other.\<close>

definition ptr_move :: "member_ptr \<Rightarrow> member_ptr \<times> member_ptr" where
  "ptr_move other =
     (if mpMember other = None then (ptr_null, other)
      else (\<lparr>mpMember = mpMember other, mpUseCounter = mpUseCounter other\<rparr>, other\<lparr>mpMember := None\<rparr>))"

definition ptr_move_assign :: "member_ptr \<Rightarrow> member_ptr \<Rightarrow> member_ptr \<times> member_ptr" where
  "ptr_move_assign this other =
     (if mpMember other = None then (this\<lparr>mpMember := None\<rparr>, other)
      else (this\<lparr>mpMember := mpMember other, mpUseCounter := mpUseCounter other\<rparr>, other\<lparr>mpMember := None\<rparr>))"

definition ptr_destroy :: "member_ptr \<Rightarrow> ('z store_scheme, unit) op" where
  "ptr_destroy p =
     (if mpMember p = None then returnS ()
      else counter_at counter_decrease (mpUseCounter p))"

text \<open>Reading the base class through the pointer, and the two checked downcasts.\<close>

definition ptr_isTopic :: "member_ptr \<Rightarrow> 'z store_scheme \<Rightarrow> bool result" where
  "ptr_isTopic p st = (case mpMember p of
       None \<Rightarrow> Inl NullDereference
     | Some (NodeRef a) \<Rightarrow> bindR (deref (stNodes st) (Some a)) (\<lambda>e. Inr (mIsTopic (elInstance e)))
     | Some (TopicRef a) \<Rightarrow> bindR (deref (stTopics st) (Some a)) (\<lambda>e. Inr (mIsTopic (elInstance e))))"

definition ptr_key :: "member_ptr \<Rightarrow> 'z store_scheme \<Rightarrow> string result" where
  "ptr_key p st = (case mpMember p of
       None \<Rightarrow> Inl NullDereference
     | Some (NodeRef a) \<Rightarrow> bindR (deref (stNodes st) (Some a)) (\<lambda>e. Inr (mPrimaryKey (elInstance e)))
     | Some (TopicRef a) \<Rightarrow> bindR (deref (stTopics st) (Some a)) (\<lambda>e. Inr (mPrimaryKey (elInstance e))))"

definition asNode :: "member_ptr \<Rightarrow> 'z store_scheme \<Rightarrow> node result" where
  "asNode p st = bindR (ptr_isTopic p st) (\<lambda>t. bindR (assertR (\<not> t)) (\<lambda>_.
     case mpMember p of
       Some (NodeRef a) \<Rightarrow> bindR (deref (stNodes st) (Some a)) (\<lambda>e. Inr (elInstance e))
     | _ \<Rightarrow> Inl BadCast))"

definition asTopic :: "member_ptr \<Rightarrow> 'z store_scheme \<Rightarrow> topic result" where
  "asTopic p st = bindR (ptr_isTopic p st) (\<lambda>t. bindR (assertR t) (\<lambda>_.
     case mpMember p of
       Some (TopicRef a) \<Rightarrow> bindR (deref (stTopics st) (Some a)) (\<lambda>e. Inr (elInstance e))
     | _ \<Rightarrow> Inl BadCast))"

text \<open>Printing a pointer reads the member and the counter.\<close>

definition counter_read :: "member_ref option \<Rightarrow> 'z store_scheme \<Rightarrow> size_t result" where
  "counter_read r st = (case r of
       None \<Rightarrow> Inl NullDereference
     | Some (NodeRef a) \<Rightarrow> bindR (deref (stNodes st) (Some a)) (\<lambda>e. Inr (elUseCounter e))
     | Some (TopicRef a) \<Rightarrow> bindR (deref (stTopics st) (Some a)) (\<lambda>e. Inr (elUseCounter e)))"

definition show_member_ptr :: "(member_ref \<Rightarrow> string) \<Rightarrow> member_ptr \<Rightarrow> 'z store_scheme \<Rightarrow> string result" where
  "show_member_ptr address member st = (case mpMember member of
       None \<Rightarrow> Inr ''Ptr()''
     | Some r \<Rightarrow> bindR (ptr_isTopic member st) (\<lambda>isTopic. bindR (ptr_key member st) (\<lambda>key.
         bindR (counter_read (mpUseCounter member) st) (\<lambda>counter.
         Inr (''Ptr('' @ show_member (address r) isTopic key @ '' with counter: '' @ show_counter counter @ '')'')))))"

section \<open>The order of pointers\<close>

text \<open>
  \<open>std::map\<close> compares keys by \<open>operator<\<close>. The class defines none, so \<open>a < b\<close> converts both
  sides by \<open>operator bool\<close>: a null pointer is less than a valid one, and any two valid pointers
  are equivalent.
\<close>

definition ptr_less :: "member_ptr \<Rightarrow> member_ptr \<Rightarrow> bool" where
  "ptr_less a b \<longleftrightarrow> \<not> ptr_valid a \<and> ptr_valid b"

interpretation ptrmap: strict_weak_order ptr_less
  by unfold_locales (auto simp: ptr_less_def)

lemma ptr_equiv [simp]: "key_equiv ptr_less a b \<longleftrightarrow> ptr_valid a = ptr_valid b"
  by (auto simp: key_equiv_def ptr_less_def)

section \<open>Counting\<close>

definition counter_of :: "member_ref \<Rightarrow> 'z store_scheme \<Rightarrow> size_t option" where
  "counter_of r st = (case r of
       NodeRef a \<Rightarrow> map_option elUseCounter (cell (stNodes st) a)
     | TopicRef a \<Rightarrow> map_option elUseCounter (cell (stTopics st) a))"

definition live_count :: "member_ref \<Rightarrow> member_ptr list \<Rightarrow> nat" where
  "live_count r live = length (filter (\<lambda>p. mpMember p = Some r) live)"

text \<open>Every live pointer's target exists, and every element's counter is the number of live
  pointers to it.\<close>

definition balanced :: "member_ptr list \<Rightarrow> 'z store_scheme \<Rightarrow> bool" where
  "balanced live st \<longleftrightarrow>
     (\<forall>p\<in>set live. \<forall>r. mpMember p = Some r \<longrightarrow> mpUseCounter p = Some r \<and> counter_of r st \<noteq> None)
     \<and> (\<forall>r c. counter_of r st = Some c \<longrightarrow> unat c = live_count r live)"

lemma modify_Inr:
  "cell d a = Some e \<Longrightarrow> modify (Some a) f d = Inr (set_cell a (Some (f e)) d)"
  by (simp add: modify_def)

lemma counter_at_spec:
  assumes "counter_of r st = Some c"
  shows "\<exists>st'. counter_at f (Some r) st = Inr ((), st')
    \<and> (\<forall>r'. counter_of r' st' = (if r' = r then Some (f c) else counter_of r' st))"
proof (cases r)
  case (NodeRef a)
  then obtain e where "cell (stNodes st) a = Some e" "elUseCounter e = c"
    using assms by (auto simp: counter_of_def)
  then show ?thesis using NodeRef
    by (auto simp: counter_at_def counter_of_def modify_Inr dest: cell_Some_less split: member_ref.splits)
next
  case (TopicRef a)
  then obtain e where "cell (stTopics st) a = Some e" "elUseCounter e = c"
    using assms by (auto simp: counter_of_def)
  then show ?thesis using TopicRef
    by (auto simp: counter_at_def counter_of_def modify_Inr dest: cell_Some_less split: member_ref.splits)
qed

lemma counter_at_fails: "counter_of r st = None \<Longrightarrow> counter_at f (Some r) st = Inl UseAfterFree"
  by (auto simp: counter_at_def counter_of_def modify_def split: member_ref.splits)

lemma live_count_simps [simp]:
  "live_count r [] = 0"
  "live_count r (p # live) = (if mpMember p = Some r then 1 else 0) + live_count r live"
  "live_count r (live @ live') = live_count r live + live_count r live'"
  by (simp_all add: live_count_def)

lemma live_count_erase:
  assumes "i < length live"
  shows "live_count r live = (if mpMember (live ! i) = Some r then 1 else 0) + live_count r (erase_at i live)"
proof -
  have "live_count r live = live_count r (take i live @ live ! i # drop (Suc i) live)"
    using assms by (simp add: id_take_nth_drop [symmetric])
  then show ?thesis by (simp add: erase_at_def)
qed

lemma live_count_update:
  assumes "i < length live"
  shows "live_count r (live[i := q]) = (if mpMember q = Some r then 1 else 0) + live_count r (erase_at i live)"
  using assms by (simp add: upd_conv_take_nth_drop erase_at_def)

lemma live_count_le: "live_count r live \<le> length live"
  by (simp add: live_count_def)

lemma live_count_0: "live_count r live = 0 \<longleftrightarrow> (\<forall>p\<in>set live. mpMember p \<noteq> Some r)"
  by (auto simp: live_count_def filter_empty_conv)

lemma balanced_new: "balanced [] store_new"
  by (auto simp: balanced_def store_new_def counter_of_def cell_def dll_new_def split: member_ref.splits)

lemma copy_balanced:
  assumes b: "balanced live st" and p: "p \<in> set live" and bound: "length live < 2 ^ 64 - 1"
  shows "\<exists>q st'. ptr_copy p st = Inr (q, st') \<and> mpMember q = mpMember p \<and> balanced (live @ [q]) st'"
proof (cases "mpMember p")
  case None
  then show ?thesis using b by (auto simp: ptr_copy_def ptr_null_def balanced_def)
next
  case (Some r)
  with b p obtain c where c: "mpUseCounter p = Some r" "counter_of r st = Some c" "unat c = live_count r live"
    by (fastforce simp: balanced_def)
  obtain st' where st': "counter_at counter_increase (Some r) st = Inr ((), st')"
    "\<forall>r'. counter_of r' st' = (if r' = r then Some (counter_increase c) else counter_of r' st)"
    using counter_at_spec [OF c(2)] by blast
  let ?q = "\<lparr>mpMember = Some r, mpUseCounter = Some r\<rparr> :: member_ptr"
  have "ptr_copy p st = Inr (?q, st')" using Some c(1) st'(1) by (simp add: ptr_copy_def)
  moreover have "unat c + 1 < 2 ^ 64" using c(3) live_count_le [of r live] bound by simp
  then have "balanced (live @ [?q]) st'"
    using b st'(2) c unat_counter_increase [of c] by (auto simp: balanced_def)
  ultimately show ?thesis using Some by auto
qed

lemma destroy_balanced:
  assumes b: "balanced live st" and i: "i < length live"
  shows "\<exists>st'. ptr_destroy (live ! i) st = Inr ((), st') \<and> balanced (erase_at i live) st'"
proof (cases "mpMember (live ! i)")
  case None
  then show ?thesis
    using b live_count_erase [OF i] set_erase_at_subset [of i live]
    by (auto simp: ptr_destroy_def balanced_def)
next
  case (Some r)
  have in_live: "live ! i \<in> set live" using i by simp
  with b Some obtain c where c: "mpUseCounter (live ! i) = Some r" "counter_of r st = Some c" "unat c = live_count r live"
    by (fastforce simp: balanced_def)
  obtain st' where st': "counter_at counter_decrease (Some r) st = Inr ((), st')"
    "\<forall>r'. counter_of r' st' = (if r' = r then Some (counter_decrease c) else counter_of r' st)"
    using counter_at_spec [OF c(2)] by blast
  have "ptr_destroy (live ! i) st = Inr ((), st')" using Some c(1) st'(1) by (simp add: ptr_destroy_def)
  moreover have "balanced (erase_at i live) st'"
    using b st'(2) c Some unat_counter_decrease [of c] live_count_erase [OF i] set_erase_at_subset [of i live]
    by (auto simp: balanced_def)
  ultimately show ?thesis by blast
qed

lemma move_balanced:
  assumes b: "balanced live st" and i: "i < length live" and m: "ptr_move (live ! i) = (q, p')"
  shows "balanced (live[i := p'] @ [q]) st"
proof -
  have q: "mpMember p' = None" "mpMember q = mpMember (live ! i)"
    "mpMember q \<noteq> None \<Longrightarrow> mpUseCounter q = mpUseCounter (live ! i)"
    using m by (auto simp: ptr_move_def ptr_null_def split: if_splits)
  have "live_count r (live[i := p'] @ [q]) = live_count r live" for r
    using q live_count_erase [OF i, of r] live_count_update [OF i, of r p'] by simp
  moreover have "\<forall>x\<in>set (live[i := p'] @ [q]). \<forall>r. mpMember x = Some r \<longrightarrow>
      mpUseCounter x = Some r \<and> counter_of r st \<noteq> None"
  proof (intro ballI allI impI)
    fix x r assume x: "x \<in> set (live[i := p'] @ [q])" "mpMember x = Some r"
    have "x \<in> set live \<or> x = p' \<or> x = q" using x(1) set_update_subset_insert [of live i p'] by auto
    then show "mpUseCounter x = Some r \<and> counter_of r st \<noteq> None"
      using x(2) q b i nth_mem [OF i] unfolding balanced_def by (metis option.distinct(1))
  qed
  ultimately show ?thesis using b unfolding balanced_def by metis
qed

section \<open>Pools of pointers\<close>

definition store_ok :: "'z store_scheme \<Rightarrow> bool" where
  "store_ok st \<longleftrightarrow> dll_ok (stNodes st) \<and> dll_ok (stTopics st)"

lemma modify_counter_ok:
  assumes "dll_ok d" "modify (Some a) (\<lambda>e. e\<lparr>elUseCounter := f (elUseCounter e)\<rparr>) d = Inr d'"
  shows "dll_ok d'"
proof -
  obtain e where e: "cell d a = Some e" "d' = set_cell a (Some (e\<lparr>elUseCounter := f (elUseCounter e)\<rparr>)) d"
    using assms(2) by (auto simp: modify_def deref_Inr)
  have "rep d' (dll_addrs d)"
    using assms(1) e by (intro rep_links [of d' d]) (auto simp: dll_ok_def links_def same_ends_def)
  then show ?thesis using rep_ok by blast
qed

lemma counter_at_ok: "store_ok st \<Longrightarrow> counter_at f p st = Inr (u, st') \<Longrightarrow> store_ok st'"
  by (auto simp: counter_at_def store_ok_def split: option.splits member_ref.splits
      dest: modify_counter_ok)

lemma ptr_copy_ok: "store_ok st \<Longrightarrow> ptr_copy p st = Inr (q, st') \<Longrightarrow> store_ok st'"
  by (auto simp: ptr_copy_def split: if_splits dest: counter_at_ok)

lemma ptr_destroy_ok: "store_ok st \<Longrightarrow> ptr_destroy p st = Inr (u, st') \<Longrightarrow> store_ok st'"
  by (auto simp: ptr_destroy_def split: if_splits dest: counter_at_ok)

text \<open>
  One step of the code that owns pointers: the store creates an element and hands out the first
  pointer to it, or a live pointer is copied, moved from, or destroyed. Copy and move assignment
  over a null pointer are a copy or move followed by forgetting the null pointer.
\<close>

inductive pool_step :: "member_ptr list \<Rightarrow> store \<Rightarrow> member_ptr list \<Rightarrow> store \<Rightarrow> bool" where
  create_node: "emplace_back n rid (stNodes st) = Inr (Some a, d) \<Longrightarrow>
    pool_step live st (live @ [make_member_ptr (NodeRef a)]) (st\<lparr>stNodes := d\<rparr>)"
| create_topic: "emplace_back t rid (stTopics st) = Inr (Some a, d) \<Longrightarrow>
    pool_step live st (live @ [make_member_ptr (TopicRef a)]) (st\<lparr>stTopics := d\<rparr>)"
| copy: "p \<in> set live \<Longrightarrow> length live < 2 ^ 64 - 1 \<Longrightarrow> ptr_copy p st = Inr (q, st') \<Longrightarrow>
    pool_step live st (live @ [q]) st'"
| move: "i < length live \<Longrightarrow> ptr_move (live ! i) = (q, p') \<Longrightarrow>
    pool_step live st (live[i := p'] @ [q]) st"
| destroy: "i < length live \<Longrightarrow> ptr_destroy (live ! i) st = Inr (u, st') \<Longrightarrow>
    pool_step live st (erase_at i live) st'"

inductive pool_reachable :: "member_ptr list \<Rightarrow> store \<Rightarrow> bool" where
  start: "pool_reachable [] store_new"
| step: "pool_reachable live st \<Longrightarrow> pool_step live st live' st' \<Longrightarrow> pool_reachable live' st'"

lemma counter_of_payload:
  "counter_of (NodeRef a) st = map_option (snd \<circ> snd) (payload (stNodes st) a)"
  "counter_of (TopicRef a) st = map_option (snd \<circ> snd) (payload (stTopics st) a)"
  by (simp_all add: counter_of_def payload_def option.map_comp comp_def)

lemma counter_of_fresh:
  "counter_of (NodeRef (length (dlMem (stNodes st)))) st = None"
  "counter_of (TopicRef (length (dlMem (stTopics st)))) st = None"
  by (simp_all add: counter_of_def cell_def)

lemma balanced_add:
  assumes b: "balanced live st" and new: "counter_of r st = None" "counter_of r st' = Some 1"
    and old: "\<And>r'. r' \<noteq> r \<Longrightarrow> counter_of r' st' = counter_of r' st"
  shows "balanced (live @ [make_member_ptr r]) st'"
proof -
  have "live_count r live = 0" using b new(1) by (auto simp: balanced_def live_count_0)
  then have "unat c = live_count r' (live @ [make_member_ptr r])" if "counter_of r' st' = Some c" for r' c
    using that b new old [of r'] by (cases "r' = r") (auto simp: balanced_def make_member_ptr_def)
  moreover have "mpUseCounter p = Some r' \<and> counter_of r' st' \<noteq> None"
    if "p \<in> set (live @ [make_member_ptr r])" "mpMember p = Some r'" for p r'
    using that b new old [of r'] unfolding balanced_def
    by (cases "r' = r") (auto simp: make_member_ptr_def)
  ultimately show ?thesis by (simp add: balanced_def)
qed

lemma create_node_balanced:
  assumes "balanced live st" "store_ok st" "emplace_back n rid (stNodes st) = Inr (Some a, d)"
  shows "balanced (live @ [make_member_ptr (NodeRef a)]) (st\<lparr>stNodes := d\<rparr>) \<and> store_ok (st\<lparr>stNodes := d\<rparr>)"
proof -
  have a: "a = length (dlMem (stNodes st))" using emplace_back_payload(1) [OF assms(3)] by simp
  have "rep (stNodes st) (dll_addrs (stNodes st))" using assms(2) by (simp add: store_ok_def dll_ok_def)
  from emplace_back_rep [OF this, of n rid] assms(3) obtain as e where d: "rep d as" "cell d a = Some e" "elUseCounter e = 1"
    using a by auto
  have "balanced (live @ [make_member_ptr (NodeRef a)]) (st\<lparr>stNodes := d\<rparr>)"
  proof (rule balanced_add [OF assms(1)])
    show "counter_of (NodeRef a) st = None" using a counter_of_fresh by simp
    show "counter_of (NodeRef a) (st\<lparr>stNodes := d\<rparr>) = Some 1" using d by (simp add: counter_of_def)
    fix r' assume "r' \<noteq> NodeRef a"
    then show "counter_of r' (st\<lparr>stNodes := d\<rparr>) = counter_of r' st"
      using emplace_back_payload(2) [OF assms(3)] a by (cases r') (auto simp: counter_of_payload)
  qed
  then show ?thesis using assms(2) rep_ok [OF d(1)] by (simp add: store_ok_def)
qed

lemma create_topic_balanced:
  assumes "balanced live st" "store_ok st" "emplace_back t rid (stTopics st) = Inr (Some a, d)"
  shows "balanced (live @ [make_member_ptr (TopicRef a)]) (st\<lparr>stTopics := d\<rparr>) \<and> store_ok (st\<lparr>stTopics := d\<rparr>)"
proof -
  have a: "a = length (dlMem (stTopics st))" using emplace_back_payload(1) [OF assms(3)] by simp
  have "rep (stTopics st) (dll_addrs (stTopics st))" using assms(2) by (simp add: store_ok_def dll_ok_def)
  from emplace_back_rep [OF this, of t rid] assms(3) obtain as e where d: "rep d as" "cell d a = Some e" "elUseCounter e = 1"
    using a by auto
  have "balanced (live @ [make_member_ptr (TopicRef a)]) (st\<lparr>stTopics := d\<rparr>)"
  proof (rule balanced_add [OF assms(1)])
    show "counter_of (TopicRef a) st = None" using a counter_of_fresh by simp
    show "counter_of (TopicRef a) (st\<lparr>stTopics := d\<rparr>) = Some 1" using d by (simp add: counter_of_def)
    fix r' assume "r' \<noteq> TopicRef a"
    then show "counter_of r' (st\<lparr>stTopics := d\<rparr>) = counter_of r' st"
      using emplace_back_payload(2) [OF assms(3)] a by (cases r') (auto simp: counter_of_payload)
  qed
  then show ?thesis using assms(2) rep_ok [OF d(1)] by (simp add: store_ok_def)
qed

lemma pool_step_inv:
  assumes "pool_step live st live' st'" "balanced live st" "store_ok st"
  shows "balanced live' st' \<and> store_ok st'"
  using assms
proof (induction rule: pool_step.induct)
  case (create_node n rid st a d live)
  then show ?case by (intro create_node_balanced)
next
  case (create_topic t rid st a d live)
  then show ?case by (intro create_topic_balanced)
next
  case (copy p live st q st')
  then show ?case using copy_balanced [of live st p] ptr_copy_ok by auto
next
  case (move i live q p' st)
  then show ?case using move_balanced by blast
next
  case (destroy i live st u st')
  then show ?case using destroy_balanced [of live st i] ptr_destroy_ok by auto
qed

lemma pool_inv: "pool_reachable live st \<Longrightarrow> balanced live st \<and> store_ok st"
proof (induction rule: pool_reachable.induct)
  case start
  then show ?case by (simp add: balanced_new) (simp add: store_ok_def store_new_def)
next
  case (step live st live' st')
  then show ?case using pool_step_inv by blast
qed

lemma ptr_key_live:
  assumes "balanced live st" "p \<in> set live" "ptr_valid p"
  shows "\<exists>k. ptr_key p st = Inr k"
proof -
  obtain r where r: "mpMember p = Some r" "counter_of r st \<noteq> None"
    using assms by (auto simp: balanced_def ptr_valid_def)
  then show ?thesis by (cases r) (auto simp: ptr_key_def counter_of_def)
qed

section \<open>Properties\<close>


definition demo_topics :: "topic dll" where
  "demo_topics = \<lparr>dlMem = [Some (demo_el None None ''a'')], mBegin = Some 0, mEnd = Some 0\<rparr>"

definition demo_store :: store where
  "demo_store = \<lparr>stNodes = dll_new, stTopics = demo_topics\<rparr>"

lemma demo_pool: "pool_reachable [make_member_ptr (TopicRef 0)] demo_store"
proof -
  have "emplace_back (demo_topic ''a'') 0 (stTopics store_new) = Inr (Some 0, demo_topics)"
    by (simp add: emplace_back_def store_new_def dll_new_def demo_topics_def mk_element_def demo_el_def)
  from pool_step.create_topic [OF this, of "[]"]
  have "pool_step [] store_new [make_member_ptr (TopicRef 0)] demo_store"
    by (simp add: demo_store_def store_new_def)
  with pool_reachable.start show ?thesis by (rule pool_reachable.step)
qed


text \<open>A pointer made for an element that is already in the store takes no share of the counter:
  when it is destroyed, the counter is one less than the number of pointers still alive.\<close>

theorem lookup_pointer_undercounts:
  assumes "balanced live st" "mpMember p = Some r" "p \<in> set live"
  shows "\<exists>st' c. ptr_destroy (make_member_ptr r) st = Inr ((), st') \<and> counter_of r st' = Some c
    \<and> unat c + 1 = live_count r live"
proof -
  obtain c where c: "counter_of r st = Some c" "unat c = live_count r live"
    using assms by (fastforce simp: balanced_def)
  obtain st' where "counter_at counter_decrease (Some r) st = Inr ((), st')"
    "counter_of r st' = Some (counter_decrease c)"
    using counter_at_spec [OF c(1), of counter_decrease] by auto
  moreover have "0 < live_count r live" using assms(2,3) live_count_0 [of r live] by auto
  ultimately show ?thesis
    using c(2) unat_counter_decrease [of c] by (simp add: ptr_destroy_def make_member_ptr_def)
qed

lemma lookup_pointer_undercounts_witness:
  "\<exists>st' c. ptr_destroy (make_member_ptr (TopicRef 0)) demo_store = Inr ((), st')
    \<and> counter_of (TopicRef 0) st' = Some c \<and> unat c + 1 = live_count (TopicRef 0) [make_member_ptr (TopicRef 0)]"
  by (rule lookup_pointer_undercounts [OF conjunct1 [OF pool_inv [OF demo_pool]]])
    (simp_all add: make_member_ptr_def)

text \<open>Copy assignment over a pointer that already points somewhere increases the new target's
  counter but never gives back the old target's share, so the old target's counter stays above
  the number of pointers to it.\<close>

theorem assignment_leaks_old_target:
  assumes b: "balanced live st" and i: "i < length live" and old: "mpMember (live ! i) = Some r"
    and new: "q \<in> set live" "mpMember q = Some r'" "r' \<noteq> r"
  shows "\<exists>t st' c. ptr_assign (live ! i) q st = Inr (t, st') \<and> mpMember t = Some r'
    \<and> counter_of r st' = Some c \<and> unat c = live_count r (live[i := t]) + 1"
proof -
  obtain c where c: "counter_of r st = Some c" "unat c = live_count r live"
    using b i old nth_mem [OF i] by (fastforce simp: balanced_def)
  obtain c' where c': "counter_of r' st = Some c'" "mpUseCounter q = Some r'"
    using b new by (fastforce simp: balanced_def)
  obtain st' where st': "counter_at counter_increase (Some r') st = Inr ((), st')"
    "counter_of r st' = counter_of r st"
    using counter_at_spec [OF c'(1), of counter_increase] new(3) by auto
  let ?t = "(live ! i)\<lparr>mpMember := Some r', mpUseCounter := Some r'\<rparr>"
  have "ptr_assign (live ! i) q st = Inr (?t, st')" using new c'(2) st'(1) by (simp add: ptr_assign_def)
  moreover have "live_count r live = live_count r (live[i := ?t]) + 1"
    using old new(3) live_count_erase [OF i, of r] live_count_update [OF i, of r ?t] by simp
  ultimately show ?thesis using c st'(2) by auto
qed

definition demo_pair :: store where
  "demo_pair = \<lparr>stNodes = dll_new, stTopics =
     \<lparr>dlMem = [Some (demo_el None (Some 1) ''a''), Some (demo_el (Some 0) None ''b'')],
      mBegin = Some 0, mEnd = Some 1\<rparr>\<rparr>"

lemma demo_pair_balanced: "balanced [make_member_ptr (TopicRef 0), make_member_ptr (TopicRef 1)] demo_pair"
  by (auto simp: balanced_def make_member_ptr_def counter_of_def demo_pair_def cell_def dll_new_def
      demo_el_def nth_Cons split: member_ref.splits nat.splits if_splits)

lemma assignment_leaks_old_target_witness:
  "\<exists>t st' c. ptr_assign (make_member_ptr (TopicRef 0)) (make_member_ptr (TopicRef 1)) demo_pair = Inr (t, st')
    \<and> counter_of (TopicRef 0) st' = Some c \<and> unat c = 1"
  using assignment_leaks_old_target [OF demo_pair_balanced, of 0 "TopicRef 0"
      "make_member_ptr (TopicRef 1)" "TopicRef 1"]
  by (fastforce simp: make_member_ptr_def)

text \<open>A \<open>std::map\<close> keyed by these pointers can hold at most one valid pointer and at most one null
  pointer, however many different members are inserted.\<close>

theorem pointer_map_one_entry:
  assumes "map_ok ptr_less m"
  shows "length (filter (\<lambda>e. ptr_valid (fst e)) m) \<le> 1 \<and> length m \<le> 2"
proof (cases m)
  case (Cons a m1)
  show ?thesis
  proof (cases m1)
    case Nil
    then show ?thesis using Cons by simp
  next
    case (Cons b m2)
    have ab: "ptr_less (fst a) (fst b)" "\<forall>x\<in>set m2. ptr_less (fst b) (fst x)"
      using assms \<open>m = a # m1\<close> Cons by (cases a; cases b; simp)+
    then have "m2 = []" by (cases m2) (auto simp: ptr_less_def)
    then show ?thesis using ab \<open>m = a # m1\<close> Cons by (auto simp: ptr_less_def)
  qed
qed simp

lemma pointer_map_one_entry_witness:
  "length (fst (map_emplace ptr_less (make_member_ptr (NodeRef 2)) ()
     (fst (map_emplace ptr_less (make_member_ptr (NodeRef 1)) () [])))) \<le> 2"
  by (rule conjunct2 [OF pointer_map_one_entry]) (intro ptrmap.emplace_ok map_ok_Nil)

end
