(* ===== verification/Graph.thy ===== *)
theory Graph
  imports Member_Ptr
begin

text \<open>
  \<^verbatim>\<open>src/dynamic-subgraph/graph.{hpp,cpp}\<close>: the subgraph of members with alerts. Its vertices are
  counted pointers, its edges are read from the members themselves. Of \<open>visualise\<close> this theory holds
  the part that reads the graph (\<open>graph_draw\<close>); its loop is in the theory \<open>Visualisation\<close>.
\<close>

record graph =
  mVertices :: "member_ptr list"
  mUpdateVisualisation :: bool

definition graph_new :: graph where
  "graph_new = \<lparr>mVertices = [], mUpdateVisualisation = False\<rparr>"

text \<open>Copying the graph copies the vector of pointers; moving it takes the vector as it is.\<close>

definition graph_copy :: "graph \<Rightarrow> ('z store_scheme, graph) op" where
  "graph_copy other = bindS (mapS ptr_copy (mVertices other))
     (\<lambda>vs. returnS \<lparr>mVertices = vs, mUpdateVisualisation = False\<rparr>)"

definition graph_move :: "graph \<Rightarrow> graph \<times> graph" where
  "graph_move other = (\<lparr>mVertices = mVertices other, mUpdateVisualisation = False\<rparr>, other\<lparr>mVertices := []\<rparr>)"

definition graph_add :: "member_ptr \<Rightarrow> graph \<Rightarrow> ('z store_scheme, bool \<times> graph) op" where
  "graph_add member g =
     (let it = find_if (\<lambda>existingMember. ptr_eq existingMember member) (mVertices g)
      in if it \<noteq> length (mVertices g) then returnS (False, g)
         else bindS (ptr_copy member) (\<lambda>p. returnS (True, g\<lparr>mVertices := mVertices g @ [p]\<rparr>)))"

text \<open>\<open>find_if\<close> over the vertices reads each vertex's key until one matches.\<close>

fun vertex_with_key :: "member_ptr list \<Rightarrow> string \<Rightarrow> 'z store_scheme \<Rightarrow> bool result" where
  "vertex_with_key [] k st = Inr False"
| "vertex_with_key (v # vs) k st = bindR (ptr_key v st) (\<lambda>vk.
     if vk = k then Inr True else vertex_with_key vs k st)"

definition graph_contains :: "graph \<Rightarrow> member_proxy \<Rightarrow> 'z store_scheme \<Rightarrow> bool result" where
  "graph_contains g member st = vertex_with_key (mVertices g) (pxPrimaryKey member) st"

definition graph_reset :: "graph \<Rightarrow> ('z store_scheme, graph) op" where
  "graph_reset g = bindS (forS (mVertices g) ptr_destroy) (\<lambda>_. returnS (g\<lparr>mVertices := []\<rparr>))"

definition graph_updateVisualisation :: "graph \<Rightarrow> graph" where
  "graph_updateVisualisation g = g\<lparr>mUpdateVisualisation := True\<rparr>"

text \<open>The loop \<open>if (!contains(x)) continue; out.push_back(x)\<close>, run over each source of edges in turn.\<close>

fun push_contained :: "graph \<Rightarrow> 'z store_scheme \<Rightarrow> member_proxies \<Rightarrow> member_proxies \<Rightarrow> member_proxies result" where
  "push_contained g st [] out = Inr out"
| "push_contained g st (x # xs) out = bindR (graph_contains g x st) (\<lambda>c.
     push_contained g st xs (if \<not> c then out else out @ [x]))"

definition graph_getOutgoing :: "graph \<Rightarrow> member_ptr \<Rightarrow> 'z store_scheme \<Rightarrow> member_proxies result" where
  "graph_getOutgoing g member st = bindR (ptr_isTopic member st) (\<lambda>isTopic.
     if isTopic then
       bindR (asTopic member st) (\<lambda>topic.
         push_contained g st (map edAssociatedNode (mSubscribers topic)) [])
     else
       bindR (asNode member st) (\<lambda>node.
         bindR (push_contained g st (concat (map snd (mClients node))) []) (\<lambda>out1.
         bindR (push_contained g st (concat (map snd (mActionClients node))) out1) (\<lambda>out2.
         push_contained g st (mPublishesTo node) out2))))"

text \<open>The last loop of \<open>getIncoming\<close> runs over \<open>mPublishesTo\<close>, as the code does.\<close>

definition graph_getIncoming :: "graph \<Rightarrow> member_ptr \<Rightarrow> 'z store_scheme \<Rightarrow> member_proxies result" where
  "graph_getIncoming g member st = bindR (ptr_isTopic member st) (\<lambda>isTopic.
     if isTopic then
       bindR (asTopic member st) (\<lambda>topic.
         push_contained g st (map edAssociatedNode (mPublishers topic)) [])
     else
       bindR (asNode member st) (\<lambda>node.
         bindR (push_contained g st (map snd (mServers node)) []) (\<lambda>in1.
         bindR (push_contained g st (map snd (mActionServers node)) in1) (\<lambda>in2.
         push_contained g st (mPublishesTo node) in2))))"

text \<open>
  The part of \<open>visualise\<close> that reads the graph, as the calls it makes to build the drawing: a node per
  vertex and per outgoing neighbour, an edge to each of these. Every key is copied by \<open>strcpy\<close> into a
  \<open>char[37]\<close>, which a key of more than 36 characters overruns.
\<close>

datatype draw_call = DrawNode string | DrawEdge string string

definition strcpy37 :: "string \<Rightarrow> string result" where
  "strcpy37 s = (if length s \<le> 36 then Inr s else Inl OutOfRange)"

fun draw_targets :: "string \<Rightarrow> member_proxies \<Rightarrow> draw_call list result" where
  "draw_targets fromNode [] = Inr []"
| "draw_targets fromNode (to # ts) = bindR (strcpy37 (pxPrimaryKey to)) (\<lambda>toNode.
     bindR (draw_targets fromNode ts) (\<lambda>cs. Inr (DrawNode toNode # DrawEdge fromNode toNode # cs)))"

fun draw_vertices :: "graph \<Rightarrow> 'z store_scheme \<Rightarrow> member_ptr list \<Rightarrow> draw_call list result" where
  "draw_vertices g st [] = Inr []"
| "draw_vertices g st (vertex # vs) = bindR (ptr_key vertex st) (\<lambda>vk. bindR (strcpy37 vk) (\<lambda>fromNode.
     bindR (graph_getOutgoing g vertex st) (\<lambda>out. bindR (draw_targets fromNode out) (\<lambda>cs.
     bindR (draw_vertices g st vs) (\<lambda>cs'. Inr (DrawNode fromNode # cs @ cs'))))))"

definition graph_draw :: "graph \<Rightarrow> 'z store_scheme \<Rightarrow> draw_call list result" where
  "graph_draw g st = draw_vertices g st (mVertices g)"

section \<open>Lemmas\<close>

definition key_of :: "'z store_scheme \<Rightarrow> member_ptr \<Rightarrow> string" where
  "key_of st p = (case ptr_key p st of Inr k \<Rightarrow> k | Inl _ \<Rightarrow> '''')"

text \<open>Every vertex is a live pointer to an existing element.\<close>

definition readable :: "'z store_scheme \<Rightarrow> member_ptr list \<Rightarrow> bool" where
  "readable st ps \<longleftrightarrow> (\<forall>p\<in>set ps. \<exists>k. ptr_key p st = Inr k)"

definition graph_keys :: "'z store_scheme \<Rightarrow> graph \<Rightarrow> string set" where
  "graph_keys st g = key_of st ` set (mVertices g)"

lemma vertex_with_key_eq: "readable st vs \<Longrightarrow> vertex_with_key vs k st = Inr (k \<in> key_of st ` set vs)"
  by (induction vs) (auto simp: readable_def key_of_def)

lemma graph_contains_eq:
  "readable st (mVertices g) \<Longrightarrow> graph_contains g m st = Inr (pxPrimaryKey m \<in> graph_keys st g)"
  by (simp add: graph_contains_def vertex_with_key_eq graph_keys_def)

lemma push_contained_eq:
  "readable st (mVertices g) \<Longrightarrow>
    push_contained g st xs out = Inr (out @ filter (\<lambda>x. pxPrimaryKey x \<in> graph_keys st g) xs)"
  by (induction xs arbitrary: out) (auto simp: graph_contains_eq)

definition node_at :: "member_ptr \<Rightarrow> 'z store_scheme \<Rightarrow> node \<Rightarrow> bool" where
  "node_at p st n \<longleftrightarrow> (\<exists>a e. mpMember p = Some (NodeRef a) \<and> cell (stNodes st) a = Some e
     \<and> elInstance e = n \<and> \<not> mIsTopic n)"

definition topic_at :: "member_ptr \<Rightarrow> 'z store_scheme \<Rightarrow> topic \<Rightarrow> bool" where
  "topic_at p st t \<longleftrightarrow> (\<exists>a e. mpMember p = Some (TopicRef a) \<and> cell (stTopics st) a = Some e
     \<and> elInstance e = t \<and> mIsTopic t)"

lemma node_at_reads [simp]:
  "node_at p st n \<Longrightarrow> ptr_isTopic p st = Inr False" "node_at p st n \<Longrightarrow> asNode p st = Inr n"
  "node_at p st n \<Longrightarrow> ptr_key p st = Inr (mPrimaryKey n)"
  by (auto simp: node_at_def ptr_isTopic_def asNode_def ptr_key_def)

lemma topic_at_reads [simp]:
  "topic_at p st t \<Longrightarrow> ptr_isTopic p st = Inr True" "topic_at p st t \<Longrightarrow> asTopic p st = Inr t"
  "topic_at p st t \<Longrightarrow> ptr_key p st = Inr (mPrimaryKey t)"
  by (auto simp: topic_at_def ptr_isTopic_def asTopic_def ptr_key_def)

lemma balanced_readable:
  assumes "balanced live st" "set ps \<subseteq> set live" "\<forall>p\<in>set ps. ptr_valid p"
  shows "readable st ps"
  using assms ptr_key_live [OF assms(1)] by (auto simp: readable_def)

lemma destroy_all_balanced:
  "balanced (ps @ rest) st \<Longrightarrow> \<exists>st'. forS ps ptr_destroy st = Inr ((), st') \<and> balanced rest st'"
proof (induction ps arbitrary: st)
  case Nil
  then show ?case by simp
next
  case (Cons p ps)
  then obtain st1 where "ptr_destroy p st = Inr ((), st1)" "balanced (ps @ rest) st1"
    using destroy_balanced [of "(p # ps) @ rest" st 0] by auto
  then show ?case using Cons.IH by auto
qed

lemma graph_add_balanced:
  assumes b: "balanced (rest @ mVertices g) st" and m: "member \<in> set rest"
    and bound: "length (rest @ mVertices g) < 2 ^ 64 - 1"
  shows "\<exists>added g' st'. graph_add member g st = Inr ((added, g'), st')
    \<and> (added \<longleftrightarrow> (\<forall>v\<in>set (mVertices g). \<not> ptr_eq v member))
    \<and> map mpMember (mVertices g') = map mpMember (mVertices g) @ (if added then [mpMember member] else [])
    \<and> balanced (rest @ mVertices g') st'"
proof (cases "\<forall>v\<in>set (mVertices g). \<not> ptr_eq v member")
  case False
  then have "find_if (\<lambda>e. ptr_eq e member) (mVertices g) \<noteq> length (mVertices g)"
    by (auto simp: find_if_end_iff)
  then show ?thesis using False b by (auto simp: graph_add_def)
next
  case True
  then have it: "find_if (\<lambda>e. ptr_eq e member) (mVertices g) = length (mVertices g)"
    by (auto simp: find_if_end_iff)
  have "member \<in> set (rest @ mVertices g)" using m by simp
  from copy_balanced [OF b this bound] obtain q st' where
    "ptr_copy member st = Inr (q, st')" "mpMember q = mpMember member" "balanced ((rest @ mVertices g) @ [q]) st'"
    by blast
  then show ?thesis using True it by (auto simp: graph_add_def)
qed

section \<open>Properties\<close>

text \<open>\<open>add\<close> inserts a member exactly if no vertex is that member already, reports whether it did,
  never makes a vertex twice, and keeps every use counter equal to the number of pointers.\<close>

theorem add_once_and_counted:
  assumes "balanced (rest @ mVertices g) st" "member \<in> set rest"
    and "length (rest @ mVertices g) < 2 ^ 64 - 1" "distinct (map mpMember (mVertices g))"
  shows "\<exists>added g' st'. graph_add member g st = Inr ((added, g'), st')
    \<and> (added \<longleftrightarrow> (\<forall>v\<in>set (mVertices g). \<not> ptr_eq v member))
    \<and> mpMember ` set (mVertices g') = insert (mpMember member) (mpMember ` set (mVertices g))
    \<and> distinct (map mpMember (mVertices g')) \<and> balanced (rest @ mVertices g') st'"
proof -
  from graph_add_balanced [OF assms(1-3)] obtain added g' st' where
    r: "graph_add member g st = Inr ((added, g'), st')"
      "added \<longleftrightarrow> (\<forall>v\<in>set (mVertices g). \<not> ptr_eq v member)"
      "map mpMember (mVertices g') = map mpMember (mVertices g) @ (if added then [mpMember member] else [])"
      "balanced (rest @ mVertices g') st'" by blast
  have eq: "ptr_eq v member \<longleftrightarrow> mpMember v = mpMember member" for v by (simp add: ptr_eq_def)
  have "mpMember ` set (mVertices g') = insert (mpMember member) (mpMember ` set (mVertices g))"
  proof (cases added)
    case True
    then show ?thesis using arg_cong [OF r(3), of set] by simp
  next
    case False
    with r(2) eq have "mpMember member \<in> mpMember ` set (mVertices g)" by (metis image_eqI)
    then show ?thesis using False arg_cong [OF r(3), of set] by (simp add: insert_absorb)
  qed
  moreover have "distinct (map mpMember (mVertices g'))"
    using r(2,3) assms(4) by (cases added) (auto simp: eq)
  ultimately show ?thesis using r by blast
qed

lemma add_once_and_counted_witness:
  "\<exists>added g' st'. graph_add (make_member_ptr (TopicRef 0)) graph_new demo_store = Inr ((added, g'), st')
    \<and> mpMember ` set (mVertices g') = {Some (TopicRef 0)}"
proof -
  have "balanced ([make_member_ptr (TopicRef 0)] @ mVertices graph_new) demo_store"
    using pool_inv [OF demo_pool] by (simp add: graph_new_def)
  from add_once_and_counted [OF this, of "make_member_ptr (TopicRef 0)"] show ?thesis
    by (fastforce simp: graph_new_def make_member_ptr_def)
qed

text \<open>For readable vertices the outgoing neighbours of a member are those of its recorded
  subscribers (topic), or clients, action clients and published topics (node), that are vertices of
  the graph, in that order.\<close>

theorem outgoing_neighbours:
  assumes "readable st (mVertices g)"
  shows "(topic_at p st t \<longrightarrow> graph_getOutgoing g p st =
      Inr (filter (\<lambda>x. pxPrimaryKey x \<in> graph_keys st g) (map edAssociatedNode (mSubscribers t))))
    \<and> (node_at p st n \<longrightarrow> graph_getOutgoing g p st =
      Inr (filter (\<lambda>x. pxPrimaryKey x \<in> graph_keys st g)
        (concat (map snd (mClients n)) @ concat (map snd (mActionClients n)) @ mPublishesTo n)))"
  using push_contained_eq [OF assms] by (auto simp: graph_getOutgoing_def)

lemma demo_store_topic: "topic_at (make_member_ptr (TopicRef 0)) demo_store (demo_topic ''a'')"
  by (simp add: topic_at_def make_member_ptr_def demo_store_def demo_topics_def cell_def demo_el_def
      demo_topic_def topic_of_response_def)

text \<open>The incoming neighbours of a node include the topics it publishes, and leave out every topic
  it subscribes to that it does not also publish or name as a server, even when that topic is in the
  graph.\<close>

theorem incoming_uses_published:
  assumes "readable st (mVertices g)" "node_at p st n"
    and "x \<in> set (mSubscribesTo n)" "x \<notin> set (mPublishesTo n)"
    and "x \<notin> snd ` set (mServers n)" "x \<notin> snd ` set (mActionServers n)"
  shows "\<exists>ins. graph_getIncoming g p st = Inr ins \<and> x \<notin> set ins
    \<and> (\<forall>y\<in>set (mPublishesTo n). pxPrimaryKey y \<in> graph_keys st g \<longrightarrow> y \<in> set ins)"
  using push_contained_eq [OF assms(1)] assms(2-) by (auto simp: graph_getIncoming_def)

definition demo_node :: node where
  "demo_node = (node_of_response demo_ipc \<lparr>nrPrimaryKey = ''n'', nrName = ''n'', nrPkgName = [],
      nrState = ACTIVE, nrStateChangeTime = 0, nrBootCount = 0, nrPid = 0\<rparr>)
     \<lparr>mSubscribesTo := [proxy_of_key ''a'' True], mPublishesTo := [proxy_of_key ''b'' True]\<rparr>"

definition demo_graph_store :: store where
  "demo_graph_store = demo_store\<lparr>stNodes :=
     \<lparr>dlMem = [Some \<lparr>elPrev = None, elNext = None, elInstance = demo_node, elRequestId = 0, elUseCounter = 1\<rparr>],
      mBegin = Some 0, mEnd = Some 0\<rparr>\<rparr>"

definition demo_graph :: graph where
  "demo_graph = graph_new\<lparr>mVertices := [make_member_ptr (TopicRef 0)]\<rparr>"

lemma demo_graph_node: "node_at (make_member_ptr (NodeRef 0)) demo_graph_store demo_node"
  by (simp add: node_at_def make_member_ptr_def demo_graph_store_def cell_def demo_node_def
      node_of_response_def)

lemma incoming_uses_published_witness:
  "graph_contains demo_graph (proxy_of_key ''a'' True) demo_graph_store = Inr True
   \<and> (\<exists>ins. graph_getIncoming demo_graph (make_member_ptr (NodeRef 0)) demo_graph_store = Inr ins
        \<and> proxy_of_key ''a'' True \<notin> set ins)"
proof -
  have k: "ptr_key (make_member_ptr (TopicRef 0)) demo_graph_store = Inr ''a''"
    by (simp add: ptr_key_def make_member_ptr_def demo_graph_store_def demo_store_def demo_topics_def
        cell_def demo_el_def c_str_def)
  then have r: "readable demo_graph_store (mVertices demo_graph)"
    by (simp add: readable_def demo_graph_def)
  have "graph_contains demo_graph (proxy_of_key ''a'' True) demo_graph_store = Inr True"
    using k by (simp add: graph_contains_def demo_graph_def proxy_of_key_def)
  moreover have "\<exists>ins. graph_getIncoming demo_graph (make_member_ptr (NodeRef 0)) demo_graph_store = Inr ins
        \<and> proxy_of_key ''a'' True \<notin> set ins"
    using incoming_uses_published [OF r demo_graph_node, of "proxy_of_key ''a'' True"]
    by (auto simp: demo_node_def proxy_of_key_def node_of_response_def)
  ultimately show ?thesis by blast
qed

definition demo_out_store :: store where
  "demo_out_store = demo_graph_store\<lparr>stNodes :=
     \<lparr>dlMem = [Some \<lparr>elPrev = None, elNext = None,
        elInstance = demo_node\<lparr>mPublishesTo := [proxy_of_key ''b'' True, proxy_of_key ''a'' True]\<rparr>,
        elRequestId = 0, elUseCounter = 1\<rparr>], mBegin = Some 0, mEnd = Some 0\<rparr>\<rparr>"

lemma outgoing_neighbours_witness:
  "graph_getOutgoing demo_graph (make_member_ptr (NodeRef 0)) demo_out_store = Inr [proxy_of_key ''a'' True]"
proof -
  let ?n = "demo_node\<lparr>mPublishesTo := [proxy_of_key ''b'' True, proxy_of_key ''a'' True]\<rparr>"
  have k: "ptr_key (make_member_ptr (TopicRef 0)) demo_out_store = Inr ''a''"
    by (simp add: ptr_key_def make_member_ptr_def demo_out_store_def demo_graph_store_def demo_store_def
        demo_topics_def cell_def demo_el_def c_str_def)
  then have "readable demo_out_store (mVertices demo_graph)" by (simp add: readable_def demo_graph_def)
  moreover have "node_at (make_member_ptr (NodeRef 0)) demo_out_store ?n"
    by (simp add: node_at_def make_member_ptr_def demo_out_store_def cell_def demo_node_def node_of_response_def)
  moreover have "graph_keys demo_out_store demo_graph = {''a''}"
    using k by (simp add: graph_keys_def demo_graph_def key_of_def)
  ultimately show ?thesis using outgoing_neighbours [of demo_out_store demo_graph "make_member_ptr (NodeRef 0)" _ ?n]
    by (auto simp: demo_node_def node_of_response_def proxy_of_key_def)
qed

text \<open>Resetting the graph gives back exactly the shares its vertices held.\<close>

theorem reset_gives_back:
  assumes "balanced (mVertices g @ rest) st"
  shows "\<exists>g' st'. graph_reset g st = Inr (g', st') \<and> mVertices g' = [] \<and> balanced rest st'"
  using destroy_all_balanced [OF assms] by (auto simp: graph_reset_def)

lemma reset_gives_back_witness:
  "\<exists>g' st'. graph_reset demo_graph demo_store = Inr (g', st') \<and> balanced [] st'"
  using reset_gives_back [of demo_graph "[]" demo_store] pool_inv [OF demo_pool]
  by (auto simp: demo_graph_def)

end
