(* ===== verification/Blind_Spots.thy ===== *)
theory Blind_Spots
  imports Members "HOL-Library.Multiset"
begin

text \<open>
  The search for blind spots in \<^verbatim>\<open>src/dynamic-subgraph/dynamic-subgraph.cpp\<close>
  (\<open>getBlindspotsInternal\<close>, \<open>getBlindspots\<close>) over the data store's graph view
  (\<open>MemberConnections\<close>, \<open>GraphView\<close> of \<^verbatim>\<open>data-store.hpp\<close>). The graph is passed by reference and
  loses every visited vertex, the path is passed by value, the blind spots are appended to.
\<close>

record member_connections =
  mcMember :: member_proxy
  mcConnections :: member_proxies

type_synonym graph_view = "member_connections list"

section \<open>The search\<close>

function (sequential)
  getBlindspotsInternal :: "graph_view \<Rightarrow> member_connections \<Rightarrow> member_proxies \<Rightarrow> member_proxies \<Rightarrow>
    graph_view \<times> member_proxies" and
  visit_edges :: "graph_view \<Rightarrow> member_proxies \<Rightarrow> member_proxies \<Rightarrow> member_proxies \<Rightarrow>
    graph_view \<times> member_proxies" where
  "getBlindspotsInternal graph current path blind =
     (if mcConnections current = [] \<or>
         (length (mcConnections current) = 1 \<and>
          find_if (\<lambda>p. proxy_eq p (hd (mcConnections current))) path \<noteq> length path)
      then (graph, blind @ [mcMember current])
      else visit_edges graph (mcConnections current) (path @ [mcMember current]) blind)"
| "visit_edges graph [] path blind = (graph, blind)"
| "visit_edges graph (e # es) path blind =
     (let it = find_if (\<lambda>m. proxy_eq (mcMember m) e) graph in
      if it = length graph then visit_edges graph es path blind
      else let (graph', blind') = getBlindspotsInternal (erase_at it graph) (graph ! it) path blind
           in visit_edges graph' es path blind')"
  by pat_completeness auto

text \<open>The call inside the loop passes on the graph the recursive call left: no larger than before.\<close>

lemma search_shrinks:
  "getBlindspotsInternal_visit_edges_dom (Inl (graph, current, path, blind)) \<Longrightarrow>
     length (fst (getBlindspotsInternal graph current path blind)) \<le> length graph"
  "getBlindspotsInternal_visit_edges_dom (Inr (graph', es, path', blind')) \<Longrightarrow>
     length (fst (visit_edges graph' es path' blind')) \<le> length graph'"
proof (induction graph current path blind and graph' es path' blind'
    rule: getBlindspotsInternal_visit_edges.pinduct)
  case (1 graph current path blind)
  then show ?case by (simp add: getBlindspotsInternal.psimps)
next
  case (2 graph path blind)
  then show ?case by (simp add: visit_edges.psimps)
next
  case (3 graph e es path blind)
  let ?it = "find_if (\<lambda>m. proxy_eq (mcMember m) e) graph"
  show ?case
  proof (cases "?it = length graph")
    case True
    then show ?thesis using 3 by (simp add: visit_edges.psimps)
  next
    case False
    then have lt: "?it < length graph" by (rule find_if_found)
    obtain g b where gb: "getBlindspotsInternal (erase_at ?it graph) (graph ! ?it) path blind = (g, b)"
      by force
    have "length g \<le> length (erase_at ?it graph)" using 3 False gb by fastforce
    moreover have "length (fst (visit_edges g es path b)) \<le> length g" using 3 False gb by fastforce
    ultimately show ?thesis using 3(1) False lt gb by (simp add: visit_edges.psimps Let_def)
  qed
qed

termination getBlindspotsInternal
proof (relation "inv_image (less_than <*lex*> less_than)
    (\<lambda>x. case x of Inl (g, c, p, b) \<Rightarrow> (length g, Suc (length (mcConnections c)))
                 | Inr (g, es, p, b) \<Rightarrow> (length g, length es))", goal_cases)
  case 1
  then show ?case by (intro wf_inv_image) auto
next
  case (2 graph current path blind)
  then show ?case by simp
next
  case (3 graph e es path blind it)
  then show ?case by simp
next
  case (4 graph e es path blind it)
  have "it < length graph" using 4 find_if_found [of "\<lambda>m. proxy_eq (mcMember m) e" graph] by simp
  from length_erase_at_less [OF this] show ?case by (simp del: length_erase_at)
next
  case (5 graph e es path blind it x g b)
  have lt: "it < length graph" using 5 find_if_found [of "\<lambda>m. proxy_eq (mcMember m) e" graph] by simp
  have "length g \<le> length (erase_at it graph)"
  proof -
    have "getBlindspotsInternal (erase_at it graph) (graph ! it) path blind = (g, b)"
      using 5(3,4) by metis
    then show ?thesis using search_shrinks(1) [OF 5(5)] by simp
  qed
  from this length_erase_at_less [OF lt] have "length g < length graph" by (rule le_less_trans)
  then show ?case by simp
qed

declare getBlindspotsInternal.simps [simp del] visit_edges.simps(2) [simp del]

lemma blindspots_length_aux:
  "length (fst (getBlindspotsInternal graph current path blind)) \<le> length graph"
  "length (fst (visit_edges graph' es path' blind')) \<le> length graph'"
proof (induction graph current path blind and graph' es path' blind'
    rule: getBlindspotsInternal_visit_edges.induct)
  case (3 graph e es path blind)
  let ?it = "find_if (\<lambda>m. proxy_eq (mcMember m) e) graph"
  show ?case
  proof (cases "?it = length graph")
    case True
    then show ?thesis using 3(1) by (simp add: visit_edges.simps)
  next
    case False
    obtain g b where gb: "getBlindspotsInternal (erase_at ?it graph) (graph ! ?it) path blind = (g, b)"
      by force
    have "length g \<le> length (erase_at ?it graph)" using 3(2) False gb by fastforce
    moreover have "length (fst (visit_edges g es path b)) \<le> length g" using 3(3) False gb by fastforce
    ultimately show ?thesis
      using False gb length_erase_at_less [OF find_if_found [OF False]]
      by (simp add: visit_edges.simps Let_def)
  qed
qed (simp_all add: getBlindspotsInternal.simps)

lemma blindspots_length:
  "getBlindspotsInternal graph current path blind = (graph', blind') \<Longrightarrow> length graph' \<le> length graph"
  using blindspots_length_aux(1) [of graph current path blind] by simp

text \<open>\<open>getBlindspots\<close> starts a search at the last vertex until no vertex is left.\<close>

function getBlindspots_loop :: "graph_view \<Rightarrow> member_proxies \<Rightarrow> member_proxies" where
  "getBlindspots_loop graph blindspots =
     (if graph = [] then blindspots
      else let (graph', blindspots') = getBlindspotsInternal (butlast graph) (last graph) [] blindspots
           in getBlindspots_loop graph' blindspots')"
  by pat_completeness auto
termination
proof (relation "measure (\<lambda>(graph, _). length graph)", goal_cases)
  case 1
  then show ?case by simp
next
  case (2 graph blindspots x g b)
  then have "length g \<le> length (butlast graph)"
    using blindspots_length [of "butlast graph" "last graph" "[]" blindspots g b] by simp
  moreover have "0 < length graph" using 2(1) by simp
  ultimately have "length g < length graph" unfolding length_butlast by linarith
  then show ?case by simp
qed

declare getBlindspots_loop.simps [simp del]

definition getBlindspots :: "graph_view \<Rightarrow> member_proxies" where
  "getBlindspots graph = getBlindspots_loop graph []"

section \<open>What is visited\<close>

text \<open>
  A call takes vertices out of the graph and appends some of them: each vertex taken at most once,
  and every one without outgoing edges.
\<close>

definition sinks :: "member_connections list \<Rightarrow> member_proxy set" where
  "sinks cs = mcMember ` {c \<in> set cs. mcConnections c = []}"

definition visits :: "graph_view \<Rightarrow> graph_view \<Rightarrow> member_connections list \<Rightarrow>
    member_proxies \<Rightarrow> member_proxies \<Rightarrow> bool" where
  "visits graph graph' extra blind blind' \<longleftrightarrow> (\<exists>vis new. mset graph = mset graph' + mset vis
     \<and> blind' = blind @ new \<and> sinks (extra @ vis) \<subseteq> set new
     \<and> mset new \<subseteq># mset (map mcMember (extra @ vis)))"

lemma visits_refl: "visits graph graph [] blind blind"
  by (auto simp: visits_def sinks_def)

lemma visits_report: "visits graph graph [c] blind (blind @ [mcMember c])"
  by (auto simp: visits_def sinks_def intro!: exI [of _ "[]"])

lemma visits_skip:
  "visits graph graph' [] blind blind' \<Longrightarrow> mcConnections c \<noteq> [] \<Longrightarrow> visits graph graph' [c] blind blind'"
  unfolding visits_def sinks_def
  by (elim exE conjE) (rule exI, rule exI, intro conjI, assumption, assumption,
      auto intro: subset_mset.order_trans)

lemma mset_erase_at: "i < length xs \<Longrightarrow> mset xs = add_mset (xs ! i) (mset (erase_at i xs))"
proof -
  assume "i < length xs"
  then have "mset xs = mset (take i xs @ xs ! i # drop (Suc i) xs)"
    by (simp add: id_take_nth_drop [symmetric])
  then show ?thesis by (simp add: erase_at_def)
qed

lemma visits_trans:
  assumes "mset graph = add_mset c (mset graph1)" "visits graph1 graph2 [c] blind blind1"
    and "visits graph2 graph3 [] blind1 blind2"
  shows "visits graph graph3 [] blind blind2"
proof -
  obtain v1 n1 v2 n2 where v: "mset graph1 = mset graph2 + mset v1" "blind1 = blind @ n1"
      "sinks ([c] @ v1) \<subseteq> set n1" "mset n1 \<subseteq># mset (map mcMember ([c] @ v1))"
      "mset graph2 = mset graph3 + mset v2" "blind2 = blind1 @ n2"
      "sinks v2 \<subseteq> set n2" "mset n2 \<subseteq># mset (map mcMember v2)"
    using assms(2,3) by (auto simp: visits_def)
  show ?thesis unfolding visits_def
  proof (intro exI conjI)
    show "mset graph = mset graph3 + mset ([c] @ v1 @ v2)" using assms(1) v(1,5) by simp
    show "blind2 = blind @ (n1 @ n2)" using v(2,6) by simp
    show "sinks ([] @ [c] @ v1 @ v2) \<subseteq> set (n1 @ n2)" using v(3,7) by (auto simp: sinks_def)
    have "mset n1 + mset n2 \<subseteq># mset (map mcMember ([c] @ v1)) + mset (map mcMember v2)"
      using v(4,8) by (rule subset_mset.add_mono)
    then show "mset (n1 @ n2) \<subseteq># mset (map mcMember ([] @ [c] @ v1 @ v2))" by simp
  qed
qed

lemma search_visits:
  "visits graph (fst (getBlindspotsInternal graph current path blind)) [current] blind
     (snd (getBlindspotsInternal graph current path blind))"
  "visits graph' (fst (visit_edges graph' es path' blind')) [] blind'
     (snd (visit_edges graph' es path' blind'))"
proof (induction graph current path blind and graph' es path' blind'
    rule: getBlindspotsInternal_visit_edges.induct)
  case (1 graph current path blind)
  then show ?case
    by (subst (1 2) getBlindspotsInternal.simps) (auto simp: visits_report visits_skip)
next
  case (2 graph path blind)
  then show ?case by (simp add: visits_refl)
next
  case (3 graph e es path blind)
  let ?it = "find_if (\<lambda>m. proxy_eq (mcMember m) e) graph"
  show ?case
  proof (cases "?it = length graph")
    case True
    then show ?thesis using 3(1) by (simp add: visit_edges.simps)
  next
    case False
    obtain g b where gb: "getBlindspotsInternal (erase_at ?it graph) (graph ! ?it) path blind = (g, b)"
      by force
    have "visits (erase_at ?it graph) g [graph ! ?it] blind b" using 3(2) False gb by fastforce
    moreover have "visits g (fst (visit_edges g es path b)) [] b (snd (visit_edges g es path b))"
      using 3(3) False gb by fastforce
    ultimately show ?thesis
      using visits_trans [OF mset_erase_at [OF find_if_found [OF False]]] False gb
      by (simp add: visit_edges.simps Let_def)
  qed
qed

lemma loop_visits:
  "\<exists>new. getBlindspots_loop graph blind = blind @ new \<and> sinks graph \<subseteq> set new
     \<and> mset new \<subseteq># mset (map mcMember graph)"
proof (induction graph blind rule: getBlindspots_loop.induct)
  case (1 graph blind)
  show ?case
  proof (cases "graph = []")
    case True
    then show ?thesis by (simp add: getBlindspots_loop.simps sinks_def)
  next
    case False
    obtain g b where gb: "getBlindspotsInternal (butlast graph) (last graph) [] blind = (g, b)" by force
    obtain v n where v: "mset (butlast graph) = mset g + mset v" "b = blind @ n"
      "sinks ([last graph] @ v) \<subseteq> set n" "mset n \<subseteq># mset (map mcMember ([last graph] @ v))"
      using search_visits(1) [of "butlast graph" "last graph" "[]" blind] gb by (auto simp: visits_def)
    obtain n' where n': "getBlindspots_loop g b = b @ n'" "sinks g \<subseteq> set n'"
      "mset n' \<subseteq># mset (map mcMember g)" using 1 False gb by fastforce
    have "mset graph = mset (butlast graph @ [last graph])" using False by simp
    then have m: "mset graph = mset ([last graph] @ v @ g)" using v(1) by simp
    have "set graph = set ([last graph] @ v @ g)" using m by (metis set_mset_mset)
    then have s: "sinks graph = sinks ([last graph] @ v) \<union> sinks g" by (auto simp: sinks_def)
    have "mset n + mset n' \<subseteq># mset (map mcMember ([last graph] @ v)) + mset (map mcMember g)"
      using v(4) n'(3) by (rule subset_mset.add_mono)
    also have "\<dots> = mset (map mcMember graph)" using m by simp
    finally have "mset (n @ n') \<subseteq># mset (map mcMember graph)" by simp
    moreover have "getBlindspots_loop graph blind = blind @ (n @ n')"
      using False gb v(2) n'(1) by (simp add: getBlindspots_loop.simps [of graph])
    ultimately show ?thesis using s v(3) n'(2) by auto
  qed
qed

section \<open>Why a vertex is reported\<close>

text \<open>The edges of a view, between primary keys.\<close>

definition view_edges :: "graph_view \<Rightarrow> (string \<times> string) set" where
  "view_edges G = {(pxPrimaryKey (mcMember c), pxPrimaryKey e) | c e. c \<in> set G \<and> e \<in> set (mcConnections c)}"

text \<open>A dead end: no outgoing edge, or a single one on a cycle through the vertex.\<close>

definition dead_end :: "graph_view \<Rightarrow> member_proxy \<Rightarrow> bool" where
  "dead_end G m \<longleftrightarrow> (\<exists>c\<in>set G. mcMember c = m \<and> (mcConnections c = [] \<or>
     (\<exists>e. mcConnections c = [e] \<and> (pxPrimaryKey m, pxPrimaryKey m) \<in> (view_edges G)\<^sup>+)))"

definition path_leads :: "graph_view \<Rightarrow> member_proxies \<Rightarrow> member_proxy \<Rightarrow> bool" where
  "path_leads G path x \<longleftrightarrow> (\<forall>p\<in>set path. (pxPrimaryKey p, pxPrimaryKey x) \<in> (view_edges G)\<^sup>+)"

lemma view_edge: "c \<in> set G \<Longrightarrow> e \<in> set (mcConnections c) \<Longrightarrow>
    (pxPrimaryKey (mcMember c), pxPrimaryKey e) \<in> view_edges G"
  by (auto simp: view_edges_def)

lemma path_leads_extend:
  assumes "c \<in> set G" "e \<in> set (mcConnections c)" "path_leads G path (mcMember c)"
  shows "path_leads G (path @ [mcMember c]) e"
  using assms view_edge [OF assms(1,2)]
  by (auto simp: path_leads_def intro: trancl_into_trancl)

lemma reported_dead_end:
  assumes "c \<in> set G" "path_leads G path (mcMember c)"
    and "mcConnections c = [] \<or> (length (mcConnections c) = 1 \<and>
          find_if (\<lambda>p. proxy_eq p (hd (mcConnections c))) path \<noteq> length path)"
  shows "dead_end G (mcMember c)"
  using assms(3)
proof
  assume "mcConnections c = []"
  then show ?thesis using assms(1) by (auto simp: dead_end_def)
next
  assume a: "length (mcConnections c) = 1 \<and> find_if (\<lambda>p. proxy_eq p (hd (mcConnections c))) path \<noteq> length path"
  then obtain e where e: "mcConnections c = [e]" by (cases "mcConnections c") auto
  with a obtain p where p: "p \<in> set path" "pxPrimaryKey p = pxPrimaryKey e"
    by (auto simp: find_if_end_iff proxy_eq_def)
  have "(pxPrimaryKey (mcMember c), pxPrimaryKey e) \<in> view_edges G"
    using e by (intro view_edge [OF assms(1)]) simp
  moreover have "(pxPrimaryKey e, pxPrimaryKey (mcMember c)) \<in> (view_edges G)\<^sup>+"
    using assms(2) p by (auto simp: path_leads_def)
  ultimately have "(pxPrimaryKey (mcMember c), pxPrimaryKey (mcMember c)) \<in> (view_edges G)\<^sup>+"
    by (rule trancl_into_trancl2)
  then show ?thesis using assms(1) e by (auto simp: dead_end_def)
qed

text \<open>The vertex an edge leads to, where it has not been visited.\<close>

lemma edge_to_unvisited:
  assumes "find_if (\<lambda>m. proxy_eq (mcMember m) e) graph \<noteq> length graph" "set graph \<subseteq> set G" "path_leads G path e"
    and "it = find_if (\<lambda>m. proxy_eq (mcMember m) e) graph"
  shows "graph ! it \<in> set G" "set (erase_at it graph) \<subseteq> set G" "path_leads G path (mcMember (graph ! it))"
proof -
  note lt = find_if_found [OF assms(1)]
  show "graph ! it \<in> set G" using assms(2,4) lt nth_mem by blast
  show "set (erase_at it graph) \<subseteq> set G" using set_erase_at_subset [of it graph] assms(2) by blast
  have "pxPrimaryKey (mcMember (graph ! it)) = pxPrimaryKey e"
    using find_if_nth [OF lt] assms(4) by (simp add: proxy_eq_def)
  then show "path_leads G path (mcMember (graph ! it))" using assms(3) by (simp add: path_leads_def)
qed

lemma search_sound:
  "current \<in> set G \<Longrightarrow> set graph \<subseteq> set G \<Longrightarrow> path_leads G path (mcMember current) \<Longrightarrow>
    getBlindspotsInternal graph current path blind = (g, b) \<Longrightarrow>
    set g \<subseteq> set G \<and> (\<forall>m\<in>set b. m \<in> set blind \<or> dead_end G m)"
  "set graph' \<subseteq> set G \<Longrightarrow> \<forall>e\<in>set es. path_leads G path' e \<Longrightarrow>
    visit_edges graph' es path' blind' = (g, b) \<Longrightarrow>
    set g \<subseteq> set G \<and> (\<forall>m\<in>set b. m \<in> set blind' \<or> dead_end G m)"
proof (induction graph current path blind and graph' es path' blind' arbitrary: g b and g b
    rule: getBlindspotsInternal_visit_edges.induct)
  case (1 graph current path blind)
  show ?case
  proof (cases "mcConnections current = [] \<or> (length (mcConnections current) = 1 \<and>
          find_if (\<lambda>p. proxy_eq p (hd (mcConnections current))) path \<noteq> length path)")
    case True
    then have "dead_end G (mcMember current)" using 1(2,4) by (intro reported_dead_end)
    then show ?thesis using True 1(3,5) by (subst (asm) getBlindspotsInternal.simps) auto
  next
    case False
    have "\<forall>e\<in>set (mcConnections current). path_leads G (path @ [mcMember current]) e"
      using path_leads_extend [OF 1(2) _ 1(4)] by blast
    moreover have "visit_edges graph (mcConnections current) (path @ [mcMember current]) blind = (g, b)"
      using 1(5) unfolding getBlindspotsInternal.simps [of graph current] if_not_P [OF False] .
    ultimately show ?thesis using 1(1) [OF False 1(3)] by blast
  qed
next
  case (2 graph path blind)
  then show ?case by simp
next
  case (3 graph e es path blind)
  let ?it = "find_if (\<lambda>m. proxy_eq (mcMember m) e) graph"
  show ?case
  proof (cases "?it = length graph")
    case True
    then show ?thesis using 3 by (simp add: visit_edges.simps)
  next
    case False
    obtain g1 b1 where gb: "getBlindspotsInternal (erase_at ?it graph) (graph ! ?it) path blind = (g1, b1)"
      by force
    note u = edge_to_unvisited [OF False 3(4) _ refl, of path]
    from 3(2) [OF refl False u(1,2,3) gb] 3(5)
    have g1: "set g1 \<subseteq> set G" "\<forall>m\<in>set b1. m \<in> set blind \<or> dead_end G m" by auto
    have "visit_edges g1 es path b1 = (g, b)" using 3(6) False gb by (simp add: visit_edges.simps Let_def)
    with 3(3) [OF refl False gb [symmetric] refl g1(1)] 3(5) g1(2) show ?thesis by auto
  qed
qed

lemma loop_sound:
  "set graph \<subseteq> set G \<Longrightarrow> m \<in> set (getBlindspots_loop graph blind) \<Longrightarrow> m \<in> set blind \<or> dead_end G m"
proof (induction graph blind rule: getBlindspots_loop.induct)
  case (1 graph blind)
  show ?case
  proof (cases "graph = []")
    case True
    then show ?thesis using 1 by (simp add: getBlindspots_loop.simps)
  next
    case False
    obtain g b where gb: "getBlindspotsInternal (butlast graph) (last graph) [] blind = (g, b)" by force
    have "last graph \<in> set G" "set (butlast graph) \<subseteq> set G"
      using 1(2) False last_in_set [OF False] by (auto dest: in_set_butlastD)
    from search_sound(1) [OF this _ gb]
    have g: "set g \<subseteq> set G" "\<forall>m\<in>set b. m \<in> set blind \<or> dead_end G m" by (auto simp: path_leads_def)
    have "m \<in> set (getBlindspots_loop g b)"
      using 1(3) False gb by (simp add: getBlindspots_loop.simps [of graph])
    from 1(1) [OF False gb [symmetric] refl g(1) this] g(2) show ?thesis by auto
  qed
qed

section \<open>Properties\<close>

text \<open>C38: The search ends on every graph, and reports every vertex without outgoing edges.\<close>

theorem every_sink_reported:
  assumes "c \<in> set graph" "mcConnections c = []"
  shows "mcMember c \<in> set (getBlindspots graph)"
  using loop_visits [of graph "[]"] assms by (auto simp: getBlindspots_def sinks_def)

definition vtx :: "string \<Rightarrow> string list \<Rightarrow> member_connections" where
  "vtx k es = \<lparr>mcMember = proxy_of_key k False, mcConnections = map (\<lambda>e. proxy_of_key e False) es\<rparr>"

lemma every_sink_reported_witness:
  "proxy_of_key ''b'' False \<in> set (getBlindspots [vtx ''a'' [''b''], vtx ''b'' []])"
  using every_sink_reported [of "vtx ''b'' []" "[vtx ''a'' [''b''], vtx ''b'' []]"]
  by (simp add: vtx_def)

text \<open>No vertex is reported more often than it occurs in the graph, and nothing else is
  reported.\<close>

theorem reported_at_most_once:
  "mset (getBlindspots graph) \<subseteq># mset (map mcMember graph)"
  using loop_visits [of graph "[]"] by (auto simp: getBlindspots_def)

text \<open>Every reported member is a dead end of the graph: it has no outgoing edge, or exactly one and
  lies on a cycle. In particular no vertex with two or more outgoing edges is ever reported.\<close>

theorem reported_are_dead_ends:
  assumes "m \<in> set (getBlindspots graph)"
  shows "dead_end graph m"
  using loop_sound [of graph graph m "[]"] assms by (simp add: getBlindspots_def)

lemma demo_cycle: "getBlindspots [vtx ''a'' [''b''], vtx ''b'' [''a'']] = [proxy_of_key ''a'' False]"
  by (simp add: getBlindspots_def getBlindspots_loop.simps getBlindspotsInternal.simps
      visit_edges.simps vtx_def proxy_eq_def proxy_of_key_def)

lemma reported_are_dead_ends_witness:
  "dead_end [vtx ''a'' [''b''], vtx ''b'' [''a'']] (proxy_of_key ''a'' False)"
  using reported_are_dead_ends [of "proxy_of_key ''a'' False" "[vtx ''a'' [''b''], vtx ''b'' [''a'']]"]
  by (simp add: demo_cycle)



end
