(* ===== verification/Data_Store.thy ===== *)
theory Data_Store
  imports Graph Blind_Spots
begin

text \<open>
  \<^verbatim>\<open>src/dynamic-subgraph/data-store.{hpp,cpp}\<close> without the graph view (theory \<open>Graph_View\<close>): the
  store of nodes and topics, filled by requests to the monitor and kept up to date by its update
  messages. The object's state extends the pair of element lists, so that every operation on
  pointers and lists applies to it. The two last fields are not in the code: they log which
  mutexes are held whenever a mutex is locked or a shared container is touched.
\<close>

section \<open>State, mutexes and the world\<close>

datatype mutex = MembersMutex | NodesMutex | TopicsMutex | UpdatesMutex | AlertMutex | VerticesMutex

datatype shared = NodeList | TopicList | UpdateList | WatchedMembers | AlertList | MovingWindow | Vertices

datatype event =
    Locked mutex "mutex list"
  | Touched shared "mutex list"

record 'w data_store = store +
  dsUpdates :: graph_view
  dsTopicParameterEventsKey :: string
  dsTopicRosoutKey :: string
  dsWorld :: 'w
  dsHeld :: "mutex list"
  dsTrace :: "event list"

definition touch :: "shared \<Rightarrow> (('w, 'z) data_store_scheme, unit) op" where
  "touch c s = Inr ((), s\<lparr>dsTrace := dsTrace s @ [Touched c (dsHeld s)]\<rparr>)"

text \<open>A block guarded by a \<open>ScopeLock\<close>; a thread that locks a mutex it holds never goes on.\<close>

definition locked ::
  "mutex \<Rightarrow> (('w, 'z) data_store_scheme, 'a) op \<Rightarrow> (('w, 'z) data_store_scheme, 'a) op" where
  "locked m body s =
     (if m \<in> set (dsHeld s) then Inl Diverges
      else bindR (body (s\<lparr>dsTrace := dsTrace s @ [Locked m (dsHeld s)], dsHeld := m # dsHeld s\<rparr>))
             (\<lambda>(x, t). Inr (x, t\<lparr>dsHeld := remove1 m (dsHeld t)\<rparr>)))"

definition world :: "('w \<Rightarrow> 'a \<times> 'w) \<Rightarrow> (('w, 'z) data_store_scheme, 'a) op" where
  "world f s = (case f (dsWorld s) of (x, w) \<Rightarrow> Inr (x, s\<lparr>dsWorld := w\<rparr>))"

definition receive_value :: "('w \<Rightarrow> 'a option \<times> 'w) \<Rightarrow> (('w, 'z) data_store_scheme, 'a) op" where
  "receive_value f = bindS (world f) (\<lambda>x. liftR (optional_value x))"

text \<open>Operations on one of the two lists: \<open>get\<close> and \<open>put\<close> are its field.\<close>

definition list_op :: "('s \<Rightarrow> 'd) \<Rightarrow> ('d \<Rightarrow> 's \<Rightarrow> 's) \<Rightarrow> ('d \<Rightarrow> ('a \<times> 'd) result) \<Rightarrow> ('s, 'a) op" where
  "list_op get put f s = bindR (f (get s)) (\<lambda>(x, d). Inr (x, put d s))"

definition put_nodes :: "node dll \<Rightarrow> 'z store_scheme \<Rightarrow> 'z store_scheme" where
  "put_nodes d s = s\<lparr>stNodes := d\<rparr>"

definition put_topics :: "topic dll \<Rightarrow> 'z store_scheme \<Rightarrow> 'z store_scheme" where
  "put_topics d s = s\<lparr>stTopics := d\<rparr>"

text \<open>Calling a member function on the instance behind an iterator.\<close>

definition on_instance :: "nat option \<Rightarrow> ('a \<Rightarrow> 'a) \<Rightarrow> 'a dll \<Rightarrow> (unit \<times> 'a dll) result" where
  "on_instance it f d = bindR (modify it (\<lambda>e. e\<lparr>elInstance := f (elInstance e)\<rparr>) d) (\<lambda>d'. Inr ((), d'))"

definition add_source ::
  "'w ipc \<Rightarrow> (('w, 'z) data_store_scheme \<Rightarrow> 'm member_scheme dll) \<Rightarrow>
   ('m member_scheme dll \<Rightarrow> ('w, 'z) data_store_scheme \<Rightarrow> ('w, 'z) data_store_scheme) \<Rightarrow>
   nat option \<Rightarrow> attributes_response \<Rightarrow> (('w, 'z) data_store_scheme, unit) op" where
  "add_source ipc get put it response s =
     bindR (deref (get s) it) (\<lambda>e.
     bindR (addAttributeSource ipc (cpuUtilization ipc) response (elInstance e) (dsWorld s)) (\<lambda>(m, w).
     bindR (on_instance it (\<lambda>_. m) (get s)) (\<lambda>(u, d). Inr ((), put d (s\<lparr>dsWorld := w\<rparr>)))))"

section \<open>Requests\<close>

text \<open>Both requests end alike: ask for the new element's CPU utilisation and attach the channel.\<close>

definition request_cpu ::
  "'w ipc \<Rightarrow> (('w, 'z) data_store_scheme \<Rightarrow> 'm member_scheme dll) \<Rightarrow>
   ('m member_scheme dll \<Rightarrow> ('w, 'z) data_store_scheme \<Rightarrow> ('w, 'z) data_store_scheme) \<Rightarrow>
   nat option \<Rightarrow> (('w, 'z) data_store_scheme, unit) op" where
  "request_cpu ipc get put it =
     bindS (getsR (\<lambda>s. deref (get s) it)) (\<lambda>e.
     bindS (world (sendAttributesRequest ipc (storeString ipc (mPrimaryKey (elInstance e))))) (\<lambda>requestId.
     bindS (receive_value (receiveAttributesResponse ipc)) (\<lambda>response.
     bindS (liftR (assertR (requestId = arRequestId response))) (\<lambda>_.
     add_source ipc get put it response))))"

text \<open>\<open>requestNode\<close> inserts into \<open>mNodes\<close> under \<open>mTopicsMutex\<close>, as the code does.\<close>

definition requestNode :: "'w ipc \<Rightarrow> string \<Rightarrow> bool \<Rightarrow> (('w, 'z) data_store_scheme, member_ptr) op" where
  "requestNode ipc primary updates =
     bindS (locked TopicsMutex
       (bindS (world (sendNodeRequest ipc (storeString ipc primary) updates)) (\<lambda>requestId.
        bindS (receive_value (receiveNodeResponse ipc)) (\<lambda>nodeResponse.
        bindS (touch NodeList) (\<lambda>_.
        list_op stNodes put_nodes (node_emplace_back ipc nodeResponse requestId)))))) (\<lambda>node.
     bindS (request_cpu ipc stNodes put_nodes node) (\<lambda>_.
     returnS (make_member_ptr (NodeRef (the node)))))"

definition requestTopic :: "'w ipc \<Rightarrow> string \<Rightarrow> bool \<Rightarrow> (('w, 'z) data_store_scheme, member_ptr) op" where
  "requestTopic ipc primary updates =
     bindS (locked TopicsMutex
       (bindS (world (sendTopicRequest ipc (storeString ipc primary) updates)) (\<lambda>requestId.
        bindS (receive_value (receiveTopicResponse ipc)) (\<lambda>topicResponse.
        bindS (touch TopicList) (\<lambda>_.
        list_op stTopics put_topics (topic_emplace_back ipc topicResponse requestId)))))) (\<lambda>topic.
     bindS (request_cpu ipc stTopics put_topics topic) (\<lambda>_.
     returnS (make_member_ptr (TopicRef (the topic)))))"

section \<open>Lookups\<close>

definition getNode :: "'w ipc \<Rightarrow> string \<Rightarrow> (('w, 'z) data_store_scheme, member_ptr) op" where
  "getNode ipc primary =
     bindS (touch NodeList) (\<lambda>_. bindS (getsR (\<lambda>s. dll_find primary (stNodes s))) (\<lambda>it.
     if it \<noteq> None then returnS (make_member_ptr (NodeRef (the it)))
     else requestNode ipc primary True))"

definition getTopic :: "'w ipc \<Rightarrow> string \<Rightarrow> (('w, 'z) data_store_scheme, member_ptr) op" where
  "getTopic ipc primary =
     bindS (touch TopicList) (\<lambda>_. bindS (getsR (\<lambda>s. dll_find primary (stTopics s))) (\<lambda>it.
     if it \<noteq> None then returnS (make_member_ptr (TopicRef (the it)))
     else requestTopic ipc primary True))"

definition search_key ::
  "'w ipc \<Rightarrow> search_type \<Rightarrow> string \<Rightarrow> (('w, 'z) data_store_scheme, string) op" where
  "search_key ipc type name =
     bindS (world (sendSearchRequest ipc type (storeString ipc name))) (\<lambda>_.
     bindS (receive_value (receiveSearchResponse ipc)) (\<lambda>response.
     returnS (parseString ipc response)))"

definition getNodeByName :: "'w ipc \<Rightarrow> string \<Rightarrow> (('w, 'z) data_store_scheme, member_ptr) op" where
  "getNodeByName ipc name =
     bindS (touch NodeList) (\<lambda>_. bindS (getsR (\<lambda>s. node_findName name (stNodes s))) (\<lambda>it.
     if it \<noteq> None then returnS (make_member_ptr (NodeRef (the it)))
     else bindS (search_key ipc SearchNode name) (\<lambda>primaryKey.
       if primaryKey = [] then returnS ptr_null else requestNode ipc primaryKey True)))"

definition getTopicByName :: "'w ipc \<Rightarrow> string \<Rightarrow> (('w, 'z) data_store_scheme, member_ptr) op" where
  "getTopicByName ipc name =
     bindS (touch TopicList) (\<lambda>_. bindS (getsR (\<lambda>s. topic_findName name (stTopics s))) (\<lambda>it.
     if it \<noteq> None then returnS (make_member_ptr (TopicRef (the it)))
     else bindS (search_key ipc SearchTopic name) (\<lambda>primaryKey.
       if primaryKey = [] then returnS ptr_null else requestTopic ipc primaryKey True)))"

definition ds_get :: "'w ipc \<Rightarrow> member_proxy \<Rightarrow> (('w, 'z) data_store_scheme, member_ptr) op" where
  "ds_get ipc proxy = (if pxIsTopic proxy then getTopic ipc (pxPrimaryKey proxy) else getNode ipc (pxPrimaryKey proxy))"

definition checkTopicNameIgnored :: "string \<Rightarrow> bool" where
  "checkTopicNameIgnored memberName \<longleftrightarrow> memberName = ''/rosout'' \<or> memberName = ''/parameter_events''"

definition checkTopicPrimaryIgnored :: "string \<Rightarrow> ('w, 'z) data_store_scheme \<Rightarrow> bool" where
  "checkTopicPrimaryIgnored member s \<longleftrightarrow>
     member = dsTopicParameterEventsKey s \<or> member = dsTopicRosoutKey s"

text \<open>The host's own utilisation channel: the address the monitor answers with.\<close>

definition getCpuUtilisationMemory :: "'w ipc \<Rightarrow> (('w, 'z) data_store_scheme, string) op" where
  "getCpuUtilisationMemory ipc =
     bindS (world (sendSearchRequest ipc SearchTopic (hostName ipc))) (\<lambda>_.
     bindS (receive_value (receiveSearchResponse ipc)) (\<lambda>searchResp.
     bindS (world (sendAttributesRequest ipc searchResp)) (\<lambda>requestId.
     bindS (receive_value (receiveAttributesResponse ipc)) (\<lambda>singleAttrResp.
     bindS (liftR (assertR (arRequestId singleAttrResp = requestId))) (\<lambda>_.
     returnS (parseString ipc (arMemAddress singleAttrResp)))))))"

section \<open>The log of graph updates\<close>

definition add_connection :: "member_proxy \<Rightarrow> member_proxy \<Rightarrow> graph_view \<Rightarrow> graph_view" where
  "add_connection member other view =
     (let it = find_if (\<lambda>element. pxPrimaryKey (mcMember element) = pxPrimaryKey member) view
      in if it = length view then view @ [\<lparr>mcMember = member, mcConnections = [other]\<rparr>]
         else view[it := (view ! it)\<lparr>mcConnections := mcConnections (view ! it) @ [other]\<rparr>])"

definition add_update :: "(('w, 'z) data_store_scheme \<Rightarrow> 'm member_scheme dll) \<Rightarrow> bool \<Rightarrow> bool \<Rightarrow>
    nat option \<Rightarrow> string \<Rightarrow> (('w, 'z) data_store_scheme, unit) op" where
  "add_update get isTopic otherIsTopic affected other =
     locked UpdatesMutex (bindS (touch UpdateList) (\<lambda>_ s.
       bindR (deref (get s) affected) (\<lambda>e.
         Inr ((), s\<lparr>dsUpdates := add_connection (proxy_of_key (mPrimaryKey (elInstance e)) isTopic)
           (proxy_of_key other otherIsTopic) (dsUpdates s)\<rparr>))))"

definition addSubUpdate :: "nat option \<Rightarrow> string \<Rightarrow> (('w, 'z) data_store_scheme, unit) op" where
  "addSubUpdate = add_update stNodes False True"

definition addSendUpdate :: "nat option \<Rightarrow> string \<Rightarrow> (('w, 'z) data_store_scheme, unit) op" where
  "addSendUpdate = add_update stNodes False False"

definition addPubUpdate :: "nat option \<Rightarrow> string \<Rightarrow> (('w, 'z) data_store_scheme, unit) op" where
  "addPubUpdate = add_update stTopics True False"

definition getUpdates :: "(('w, 'z) data_store_scheme, graph_view) op" where
  "getUpdates = locked UpdatesMutex (bindS (touch UpdateList) (\<lambda>_ s.
     Inr (dsUpdates s, s\<lparr>dsUpdates := []\<rparr>)))"

section \<open>The update loop\<close>

text \<open>
  Removing what nobody uses: the loop over one list. Fuel is one more than the number of cells ever
  allocated; \<open>sweep_removes_unused\<close> shows that it suffices on well-formed lists.
\<close>

fun sweep_list :: "nat \<Rightarrow> (('w, 'z) data_store_scheme \<Rightarrow> 'a dll) \<Rightarrow>
    ('a dll \<Rightarrow> ('w, 'z) data_store_scheme \<Rightarrow> ('w, 'z) data_store_scheme) \<Rightarrow> mutex \<Rightarrow> shared \<Rightarrow>
    'w ipc \<Rightarrow> nat option \<Rightarrow> (('w, 'z) data_store_scheme, unit) op" where
  "sweep_list 0 get put m c ipc it = failS Diverges"
| "sweep_list (Suc n) get put m c ipc it =
     (if it = None then returnS ()
      else bindS (getsR (\<lambda>s. deref (get s) it)) (\<lambda>e.
        if counter_nonZero (elUseCounter e)
        then bindS (getsR (\<lambda>s. iter_preinc (get s) it)) (\<lambda>(_, it').
             sweep_list n get put m c ipc it')
        else bindS (locked m
               (bindS (world (sendUnsubscribeRequest ipc (elRequestId e))) (\<lambda>_.
                bindS (touch c) (\<lambda>_. list_op get put (dll_erase it))))) (\<lambda>it'.
             sweep_list n get put m c ipc it')))"

definition sweep_nodes :: "'w ipc \<Rightarrow> (('w, 'z) data_store_scheme, unit) op" where
  "sweep_nodes ipc s = sweep_list (Suc (length (dlMem (stNodes s)))) stNodes put_nodes NodesMutex NodeList ipc
     (mBegin (stNodes s)) s"

definition sweep_topics :: "'w ipc \<Rightarrow> (('w, 'z) data_store_scheme, unit) op" where
  "sweep_topics ipc s = sweep_list (Suc (length (dlMem (stTopics s)))) stTopics put_topics TopicsMutex TopicList ipc
     (mBegin (stTopics s)) s"

text \<open>An update for a member that is not in the store is ignored (the code logs an error).\<close>

definition handle_node ::
  "'w ipc \<Rightarrow> node_update \<Rightarrow> (nat option \<Rightarrow> (('w, 'z) data_store_scheme, unit) op) \<Rightarrow>
   (('w, 'z) data_store_scheme, unit) op" where
  "handle_node ipc u after = locked NodesMutex
     (bindS (touch NodeList) (\<lambda>_.
      bindS (getsR (\<lambda>s. dll_find (parseString ipc (nuKey u)) (stNodes s))) (\<lambda>it.
      if it \<noteq> None
      then bindS (list_op stNodes put_nodes (on_instance it (node_apply ipc u))) (\<lambda>_. after it)
      else returnS ())))"

definition handle_topic ::
  "'w ipc \<Rightarrow> topic_update \<Rightarrow> (nat option \<Rightarrow> (('w, 'z) data_store_scheme, unit) op) \<Rightarrow>
   (('w, 'z) data_store_scheme, unit) op" where
  "handle_topic ipc u after = locked TopicsMutex
     (bindS (touch TopicList) (\<lambda>_.
      bindS (getsR (\<lambda>s. dll_find (parseString ipc (tuKey u)) (stTopics s))) (\<lambda>it.
      if it \<noteq> None
      then bindS (list_op stTopics put_topics (on_instance it (topic_apply u))) (\<lambda>_. after it)
      else returnS ())))"

definition on_message :: "('w \<Rightarrow> 'm option \<times> 'w) \<Rightarrow> ('m \<Rightarrow> (('w, 'z) data_store_scheme, unit) op) \<Rightarrow>
    (('w, 'z) data_store_scheme, unit) op" where
  "on_message receive handle = bindS (world receive) (\<lambda>message.
     case message of None \<Rightarrow> returnS () | Some v \<Rightarrow> handle v)"

definition update_publishersTo :: "'w ipc \<Rightarrow> (('w, 'z) data_store_scheme, unit) op" where
  "update_publishersTo ipc = on_message (receivePublishersTo ipc)
     (\<lambda>(k, t). handle_node ipc (NodePublishersTo k t) (\<lambda>_. returnS ()))"

definition update_subscribersTo :: "'w ipc \<Rightarrow> (('w, 'z) data_store_scheme, unit) op" where
  "update_subscribersTo ipc = on_message (receiveSubscribersTo ipc)
     (\<lambda>(k, t). handle_node ipc (NodeSubscribersTo k t) (\<lambda>it. addSubUpdate it (parseString ipc t)))"

definition update_isServerFor :: "'w ipc \<Rightarrow> (('w, 'z) data_store_scheme, unit) op" where
  "update_isServerFor ipc = on_message (receiveIsServerFor ipc)
     (\<lambda>(k, v, c). handle_node ipc (NodeIsServerFor k v c) (\<lambda>_. returnS ()))"

definition update_isClientOf :: "'w ipc \<Rightarrow> (('w, 'z) data_store_scheme, unit) op" where
  "update_isClientOf ipc = on_message (receiveIsClientOf ipc)
     (\<lambda>(k, v, c). handle_node ipc (NodeIsClientOf k v c) (\<lambda>it. addSendUpdate it (parseString ipc c)))"

definition update_isActionServerFor :: "'w ipc \<Rightarrow> (('w, 'z) data_store_scheme, unit) op" where
  "update_isActionServerFor ipc = on_message (receiveIsActionServerFor ipc)
     (\<lambda>(k, v, c). handle_node ipc (NodeIsActionServerFor k v c) (\<lambda>_. returnS ()))"

definition update_isActionClientOf :: "'w ipc \<Rightarrow> (('w, 'z) data_store_scheme, unit) op" where
  "update_isActionClientOf ipc = on_message (receiveIsActionClientOf ipc)
     (\<lambda>(k, v, c). handle_node ipc (NodeIsActionClientOf k v c) (\<lambda>it. addSendUpdate it (parseString ipc c)))"

definition update_state :: "'w ipc \<Rightarrow> (('w, 'z) data_store_scheme, unit) op" where
  "update_state ipc = on_message (receiveState ipc)
     (\<lambda>(k, v, t). handle_node ipc (NodeState k v t) (\<lambda>_. returnS ()))"

definition update_publishers :: "'w ipc \<Rightarrow> (('w, 'z) data_store_scheme, unit) op" where
  "update_publishers ipc = on_message (receivePublishers ipc)
     (\<lambda>(k, p, e). handle_topic ipc (TopicPublishers k p e) (\<lambda>it. addPubUpdate it (parseString ipc p)))"

definition update_subscribers :: "'w ipc \<Rightarrow> (('w, 'z) data_store_scheme, unit) op" where
  "update_subscribers ipc = on_message (receiveSubscribers ipc)
     (\<lambda>(k, p, e). handle_topic ipc (TopicSubscribers k p e) (\<lambda>_. returnS ()))"

text \<open>The body of the loop of \<open>run\<close> (without the pause at its end), and the loop for the number of
  times it finds \<open>running\<close> set.\<close>

definition run_body :: "'w ipc \<Rightarrow> (('w, 'z) data_store_scheme, unit) op" where
  "run_body ipc = seqS [sweep_nodes ipc, sweep_topics ipc, update_publishersTo ipc, update_subscribersTo ipc,
     update_isServerFor ipc, update_isClientOf ipc, update_isActionServerFor ipc, update_isActionClientOf ipc,
     update_state ipc, update_publishers ipc, update_subscribers ipc]"

definition ds_run :: "'w ipc \<Rightarrow> nat \<Rightarrow> (('w, 'z) data_store_scheme, unit) op" where
  "ds_run ipc iterations = seqS (replicate iterations (run_body ipc))"

section \<open>Connecting and constructing\<close>

text \<open>
  Connecting to the monitor: \<open>connect\<close> is the constructor of \<open>IpcClient\<close>, which may throw. The
  retry loop may run forever; then it has no value (\<open>None\<close>). The counter is a signed 64-bit
  integer in the code; below zero it would take \<open>2 ^ 63\<close> failed attempts to reach its end.
\<close>

partial_function (option) connect_loop :: "('w \<Rightarrow> bool \<times> 'w) \<Rightarrow> int \<Rightarrow> 'w \<Rightarrow> (unit result \<times> 'w) option" where
  "connect_loop connect nrRetries w =
     (case connect w of (ok, w') \<Rightarrow>
        if ok then Some (Inr (), w')
        else if nrRetries - 1 = 0 then Some (Inl (ProcessExit 1), w')
        else connect_loop connect (nrRetries - 1) w')"

definition tryMakeIpcClient :: "('w \<Rightarrow> bool \<times> 'w) \<Rightarrow> bool \<Rightarrow> int \<Rightarrow> 'w \<Rightarrow> (unit result \<times> 'w) option" where
  "tryMakeIpcClient connect retry attempts w =
     (if \<not> retry then (case connect w of (ok, w') \<Rightarrow>
        Some (if ok then Inr () else Inl (ProcessExit 1), w'))
      else connect_loop connect (attempts - 1) w)"

text \<open>The constructor waits for the keys of the two topics it will ignore.\<close>

partial_function (option) await_topic_key :: "'w ipc \<Rightarrow> string \<Rightarrow> 'w \<Rightarrow> (string \<times> 'w) result option" where
  "await_topic_key ipc name w =
     (case receiveSearchResponse ipc (snd (sendSearchRequest ipc SearchTopic (storeString ipc name) w)) of
        (None, w2) \<Rightarrow> Some (Inl BadOptionalAccess)
      | (Some k, w2) \<Rightarrow>
          if parseString ipc k = [] then await_topic_key ipc name w2
          else Some (Inr (parseString ipc k, w2)))"

definition or_diverges :: "'a result option \<Rightarrow> 'a result" where
  "or_diverges r = (case r of None \<Rightarrow> Inl Diverges | Some x \<Rightarrow> x)"

definition data_store_new ::
  "'w ipc \<Rightarrow> ('w \<Rightarrow> bool \<times> 'w) \<Rightarrow> bool \<Rightarrow> int \<Rightarrow> 'w \<Rightarrow> 'w data_store result" where
  "data_store_new ipc connect retry attempts w =
     (case tryMakeIpcClient connect retry attempts w of
        None \<Rightarrow> Inl Diverges
      | Some (Inl e, _) \<Rightarrow> Inl e
      | Some (Inr _, w1) \<Rightarrow>
          bindR (or_diverges (await_topic_key ipc ''/rosout'' w1)) (\<lambda>(rosout, w2).
          bindR (or_diverges (await_topic_key ipc ''/parameter_events'' w2)) (\<lambda>(params, w3).
          Inr \<lparr>stNodes = dll_new, stTopics = dll_new, dsUpdates = [], dsTopicParameterEventsKey = params,
               dsTopicRosoutKey = rosout, dsWorld = w3, dsHeld = [], dsTrace = []\<rparr>)))"

section \<open>Lemmas about the state\<close>

lemma world_Inr [simp]:
  "world f s = Inr (x, t) \<longleftrightarrow> x = fst (f (dsWorld s)) \<and> t = s\<lparr>dsWorld := snd (f (dsWorld s))\<rparr>"
  by (auto simp: world_def split: prod.splits)

lemma world_apply: "world f s = Inr (fst (f (dsWorld s)), s\<lparr>dsWorld := snd (f (dsWorld s))\<rparr>)"
  by (simp add: world_def split: prod.splits)

lemma touch_Inr [simp]:
  "touch c s = Inr (u, t) \<longleftrightarrow> t = s\<lparr>dsTrace := dsTrace s @ [Touched c (dsHeld s)]\<rparr>"
  by (auto simp: touch_def)

lemma receive_value_Inr [simp]:
  "receive_value f s = Inr (x, t) \<longleftrightarrow>
    fst (f (dsWorld s)) = Some x \<and> t = s\<lparr>dsWorld := snd (f (dsWorld s))\<rparr>"
  by (auto simp: receive_value_def bindS_eq_Inr)

lemma locked_InrE [elim!]:
  assumes "locked m body s = Inr (x, t)"
  obtains t1 where "m \<notin> set (dsHeld s)"
    "body (s\<lparr>dsTrace := dsTrace s @ [Locked m (dsHeld s)], dsHeld := m # dsHeld s\<rparr>) = Inr (x, t1)"
    "t = t1\<lparr>dsHeld := remove1 m (dsHeld t1)\<rparr>"
  using assms by (auto simp: locked_def split: if_splits)

lemma list_op_Inr:
  "list_op get put f s = Inr (x, t) \<longleftrightarrow> (\<exists>d. f (get s) = Inr (x, d) \<and> t = put d s)"
  by (auto simp: list_op_def bindR_eq_Inr)

text \<open>What none of the operations on pointers looks at.\<close>

lemma counter_of_frame [simp]:
  "counter_of r (s\<lparr>dsWorld := w\<rparr>) = counter_of r s" "counter_of r (s\<lparr>dsHeld := h\<rparr>) = counter_of r s"
  "counter_of r (s\<lparr>dsTrace := t\<rparr>) = counter_of r s" "counter_of r (s\<lparr>dsUpdates := v\<rparr>) = counter_of r s"
  by (simp_all add: counter_of_def split: member_ref.splits)

lemma balanced_frame [simp]:
  "balanced live (s\<lparr>dsWorld := w\<rparr>) = balanced live s" "balanced live (s\<lparr>dsHeld := h\<rparr>) = balanced live s"
  "balanced live (s\<lparr>dsTrace := t\<rparr>) = balanced live s" "balanced live (s\<lparr>dsUpdates := v\<rparr>) = balanced live s"
  by (simp_all add: balanced_def)

lemma store_ok_frame [simp]:
  "store_ok (s\<lparr>dsWorld := w\<rparr>) = store_ok s" "store_ok (s\<lparr>dsHeld := h\<rparr>) = store_ok s"
  "store_ok (s\<lparr>dsTrace := t\<rparr>) = store_ok s" "store_ok (s\<lparr>dsUpdates := v\<rparr>) = store_ok s"
  by (simp_all add: store_ok_def)

lemma held_same [simp]: "dsHeld t = h \<Longrightarrow> t\<lparr>dsHeld := h\<rparr> = t"
  by (cases t) simp

definition counts :: "'a dll \<Rightarrow> nat \<Rightarrow> size_t option" where
  "counts d a = map_option elUseCounter (cell d a)"

text \<open>One of the two list fields, as the generic operations see it.\<close>

locale list_field =
  fixes get :: "('w, 'z) data_store_scheme \<Rightarrow> 'a dll"
    and put :: "'a dll \<Rightarrow> ('w, 'z) data_store_scheme \<Rightarrow> ('w, 'z) data_store_scheme"
    and ref :: "nat \<Rightarrow> member_ref"
  assumes get_put [simp]: "get (put d s) = d"
    and put_get [simp]: "put (get s) s = s"
    and put_put [simp]: "put d (put d' s) = put d s"
    and get_frame [simp]: "get (s\<lparr>dsWorld := w\<rparr>) = get s" "get (s\<lparr>dsHeld := h\<rparr>) = get s"
      "get (s\<lparr>dsTrace := t\<rparr>) = get s"
    and put_frame [simp]: "put d (s\<lparr>dsWorld := w\<rparr>) = (put d s)\<lparr>dsWorld := w\<rparr>"
      "put d (s\<lparr>dsHeld := h\<rparr>) = (put d s)\<lparr>dsHeld := h\<rparr>" "put d (s\<lparr>dsTrace := t\<rparr>) = (put d s)\<lparr>dsTrace := t\<rparr>"
    and frame_put [simp]: "dsWorld (put d s) = dsWorld s" "dsHeld (put d s) = dsHeld s"
      "dsTrace (put d s) = dsTrace s"
    and store_ok_put: "store_ok s \<Longrightarrow> store_ok (put d s) \<longleftrightarrow> dll_ok d"
    and counter_ref: "counter_of (ref a) s = counts (get s) a"
    and counter_other: "r \<notin> range ref \<Longrightarrow> counter_of r (put d s) = counter_of r s"
    and ref_inj: "ref a = ref b \<longleftrightarrow> a = b"
begin

lemma store_ok_get: "store_ok s \<Longrightarrow> dll_ok (get s)"
  using store_ok_put [of s "get s"] by simp

lemma counts_same:
  assumes "\<And>a. counts d a = counts (get s) a"
  shows "counter_of r (put d s) = counter_of r s"
  using assms counter_other by (cases "r \<in> range ref") (auto simp: counter_ref)

text \<open>A member function leaves links, request ids and counters alone.\<close>

lemma on_instance_keeps:
  assumes "store_ok s" "balanced live s" "on_instance it f (get s) = Inr (u, d)"
  shows "store_ok (put d s) \<and> balanced live (put d s)"
proof -
  from assms(3) obtain a e where e: "it = Some a" "cell (get s) a = Some e"
    "d = set_cell a (Some (e\<lparr>elInstance := f (elInstance e)\<rparr>)) (get s)"
    by (auto simp: on_instance_def modify_def deref_Inr)
  have rep: "rep (get s) (dll_addrs (get s))" using store_ok_get [OF assms(1)] by (simp add: dll_ok_def)
  have "rep d (dll_addrs (get s))"
    using rep e by (intro rep_links [of d "get s"]) (auto simp: links_def same_ends_def)
  then have "dll_ok d" using rep_ok by blast
  moreover have "counts d b = counts (get s) b" for b
    using e cell_Some_less [OF e(2)] by (auto simp: counts_def)
  ultimately show ?thesis using assms(1,2) store_ok_put counts_same by (simp add: balanced_def)
qed

lemma add_new:
  assumes "store_ok s" "balanced live s" "emplace_back x rid (get s) = Inr (p, d)"
  shows "\<exists>a. p = Some a \<and> store_ok (put d s) \<and> balanced (live @ [make_member_ptr (ref a)]) (put d s)
    \<and> dll_items d = dll_items (get s) @ [x] \<and> dll_addrs d = dll_addrs (get s) @ [a]
    \<and> a \<notin> set (dll_addrs (get s))"
proof -
  let ?a = "length (dlMem (get s))"
  have rep: "rep (get s) (dll_addrs (get s))" using store_ok_get [OF assms(1)] by (simp add: dll_ok_def)
  from emplace_back_rep [OF rep, of x rid] assms(3) obtain e
    where d: "p = Some ?a" "rep d (dll_addrs (get s) @ [?a])" "cell d ?a = Some e" "elUseCounter e = 1"
      "contents d (dll_addrs (get s) @ [?a]) = contents (get s) (dll_addrs (get s)) @ [x]" by auto
  have new: "?a \<notin> set (dll_addrs (get s))"
    using seg_bound [of "get s" None "dll_addrs (get s)" None] rep by (auto simp: rep_def)
  have "balanced (live @ [make_member_ptr (ref ?a)]) (put d s)"
  proof (rule balanced_add [OF assms(2)])
    show "counter_of (ref ?a) s = None" by (simp add: counter_ref counts_def cell_def)
    show "counter_of (ref ?a) (put d s) = Some 1" using d by (simp add: counter_ref counts_def)
    fix r assume r: "r \<noteq> ref ?a"
    show "counter_of r (put d s) = counter_of r s"
    proof (cases "r \<in> range ref")
      case True
      then obtain b where b: "r = ref b" by auto
      have "b \<noteq> ?a" using r b by auto
      then have "payload d b = payload (get s) b" by (rule emplace_back_payload(2) [OF assms(3)])
      then show ?thesis using b
        by (cases "cell d b"; cases "cell (get s) b") (auto simp: counter_ref counts_def payload_def)
    next
      case False
      then show ?thesis by (rule counter_other)
    qed
  qed
  moreover have "dll_ok d \<and> dll_items d = dll_items (get s) @ [x]"
    using rep_ok [OF d(2)] d(5) by (simp add: dll_items_def)
  ultimately show ?thesis using d(1) assms(1) store_ok_put rep_addrs [OF d(2)] new by simp
qed

end

interpretation nodes: list_field stNodes put_nodes NodeRef
  by unfold_locales (auto simp: put_nodes_def store_ok_def counter_of_def counts_def split: member_ref.splits)

interpretation topics: list_field stTopics put_topics TopicRef
  by unfold_locales (auto simp: put_topics_def store_ok_def counter_of_def counts_def split: member_ref.splits)

section \<open>Lemmas about requests\<close>

locale member_list = list_field get put ref
  for get :: "('w, 'z) data_store_scheme \<Rightarrow> 'm member_scheme dll" and put and ref
begin

lemma on_instance_items:
  assumes "dll_ok d" "on_instance it f d = Inr (u, d')"
  shows "\<exists>a. it = Some a \<and> dll_addrs d' = dll_addrs d
    \<and> (\<forall>b. item d' b = (if b = a then f (item d a) else item d b))"
proof -
  from assms(2) obtain a e where e: "it = Some a" "cell d a = Some e"
    "d' = set_cell a (Some (e\<lparr>elInstance := f (elInstance e)\<rparr>)) d"
    by (auto simp: on_instance_def modify_def deref_Inr)
  have "rep d' (dll_addrs d)"
    using assms(1) e by (intro rep_links [of d' d]) (auto simp: links_def same_ends_def dll_ok_def)
  then show ?thesis using e rep_addrs cell_Some_less [OF e(2)] by (auto simp: item_def)
qed

lemma request_cpu_keeps:
  assumes "store_ok s" "balanced live s" "request_cpu ipc get put it s = Inr (u, s')"
  shows "store_ok s' \<and> balanced live s' \<and> (\<exists>d w. s' = put d (s\<lparr>dsWorld := w\<rparr>))
    \<and> dll_addrs (get s') = dll_addrs (get s)
    \<and> (\<exists>a attr. it = Some a \<and> (\<forall>b. item (get s') b = (if b = a
         then (item (get s) a)\<lparr>mmAttributes := mmAttributes (item (get s) a) @ [attr]\<rparr> else item (get s) b)))"
proof -
  from assms(3) obtain response w where
    "add_source ipc get put it response (s\<lparr>dsWorld := w\<rparr>) = Inr (u, s')"
    by (auto simp: request_cpu_def)
  then obtain e m w' d where e: "deref (get s) it = Inr e"
      "addAttributeSource ipc (cpuUtilization ipc) response (elInstance e) w = Inr (m, w')"
      "on_instance it (\<lambda>_. m) (get s) = Inr ((), d)" "s' = put d (s\<lparr>dsWorld := w'\<rparr>)"
    by (auto simp: add_source_def bindR_eq_Inr)
  then obtain attr where m: "m = (elInstance e)\<lparr>mmAttributes := mmAttributes (elInstance e) @ [attr]\<rparr>"
    by (auto simp: addAttributeSource_def Let_def split: prod.splits)
  have ok: "store_ok (s\<lparr>dsWorld := w'\<rparr>)" "balanced live (s\<lparr>dsWorld := w'\<rparr>)" using assms by simp_all
  have keep: "store_ok s' \<and> balanced live s'" unfolding e(4)
    using on_instance_keeps [OF ok, of it "\<lambda>_. m" "()" d] e(3) by simp
  obtain a where a: "it = Some a" "dll_addrs d = dll_addrs (get s)"
    "\<forall>b. item d b = (if b = a then m else item (get s) b)"
    using on_instance_items [OF store_ok_get [OF assms(1)] e(3)] by auto
  have "item (get s) a = elInstance e" using e(1) a(1) by (auto simp: item_def deref_Inr)
  then show ?thesis using keep a m e(4) by auto
qed

lemma new_member:
  assumes ok: "store_ok s" "balanced live s" and e: "emplace_back x rid (get s) = Inr (q, d)"
    and c: "request_cpu ipc get put q (put d s) = Inr (u, s')"
  shows "\<exists>a attr w. q = Some a \<and> store_ok s' \<and> balanced (live @ [make_member_ptr (ref a)]) s'
    \<and> s' = put (get s') (s\<lparr>dsWorld := w\<rparr>) \<and> a \<notin> set (dll_addrs (get s))
    \<and> dll_addrs (get s') = dll_addrs (get s) @ [a]
    \<and> dll_items (get s') = dll_items (get s) @ [x\<lparr>mmAttributes := mmAttributes x @ [attr]\<rparr>]"
proof -
  from add_new [OF ok e] obtain a where
    a: "q = Some a" "store_ok (put d s)" "balanced (live @ [make_member_ptr (ref a)]) (put d s)"
      "dll_items d = dll_items (get s) @ [x]" "dll_addrs d = dll_addrs (get s) @ [a]"
      "a \<notin> set (dll_addrs (get s))"
    by blast
  from request_cpu_keeps [OF a(2,3) c] a(1) obtain d' w attr where
    k: "store_ok s'" "balanced (live @ [make_member_ptr (ref a)]) s'" "s' = put d' (s\<lparr>dsWorld := w\<rparr>)"
      "dll_addrs (get s') = dll_addrs d"
      "\<forall>b. item (get s') b = (if b = a then (item d a)\<lparr>mmAttributes := mmAttributes (item d a) @ [attr]\<rparr> else item d b)"
    by auto
  have it: "map (item d) (dll_addrs (get s)) @ [item d a] = map (item (get s)) (dll_addrs (get s)) @ [x]"
    using a(4,5) by (simp add: dll_items_def contents_def)
  then have "dll_items (get s') = dll_items (get s) @ [x\<lparr>mmAttributes := mmAttributes x @ [attr]\<rparr>]"
    using k(4,5) a(5,6) by (auto simp: dll_items_def contents_def)
  moreover have "s' = put (get s') (s\<lparr>dsWorld := w\<rparr>)" using k(3) by simp
  ultimately show ?thesis using k a by auto
qed

end

interpretation node_list: member_list stNodes put_nodes NodeRef
  by unfold_locales

interpretation topic_list: member_list stTopics put_topics TopicRef
  by unfold_locales

lemma requestNode_spec:
  assumes ok: "store_ok s" "balanced live s" and r: "requestNode ipc k u s = Inr (p, s')"
  shows "\<exists>a n. p = make_member_ptr (NodeRef a) \<and> store_ok s' \<and> balanced (live @ [p]) s'
    \<and> stTopics s' = stTopics s \<and> a \<notin> set (dll_addrs (stNodes s))
    \<and> dll_addrs (stNodes s') = dll_addrs (stNodes s) @ [a] \<and> dll_items (stNodes s') = dll_items (stNodes s) @ [n]
    \<and> dsTrace s' = dsTrace s @ [Locked TopicsMutex (dsHeld s), Touched NodeList (TopicsMutex # dsHeld s)]"
proof -
  let ?t = "dsTrace s @ [Locked TopicsMutex (dsHeld s), Touched NodeList (TopicsMutex # dsHeld s)]"
  from r obtain w resp rid q d where
    e: "emplace_back (node_of_response ipc resp) rid (stNodes s) = Inr (q, d)" and
    c: "request_cpu ipc stNodes put_nodes q (put_nodes d (s\<lparr>dsWorld := w, dsTrace := ?t\<rparr>)) = Inr ((), s')"
      "p = make_member_ptr (NodeRef (the q))"
    by (auto simp: requestNode_def list_op_Inr node_emplace_back_def)
  let ?s = "s\<lparr>dsWorld := w, dsTrace := ?t\<rparr>"
  have "store_ok ?s" "balanced live ?s" "emplace_back (node_of_response ipc resp) rid (stNodes ?s) = Inr (q, d)"
    using ok e by simp_all
  from node_list.new_member [OF this c(1)] obtain a attr v where
    n: "q = Some a" "store_ok s'" "balanced (live @ [make_member_ptr (NodeRef a)]) s'"
      "s' = put_nodes (stNodes s') (?s\<lparr>dsWorld := v\<rparr>)" "a \<notin> set (dll_addrs (stNodes s))"
      "dll_addrs (stNodes s') = dll_addrs (stNodes s) @ [a]"
      "dll_items (stNodes s') = dll_items (stNodes s) @ [(node_of_response ipc resp)
        \<lparr>mmAttributes := mmAttributes (node_of_response ipc resp) @ [attr]\<rparr>]"
    by auto
  have "stTopics s' = stTopics s" "dsTrace s' = ?t" by (subst n(4), simp add: put_nodes_def)+
  then show ?thesis using n c(2) by auto
qed

lemma requestTopic_spec:
  assumes ok: "store_ok s" "balanced live s" and r: "requestTopic ipc k u s = Inr (p, s')"
  shows "\<exists>a n. p = make_member_ptr (TopicRef a) \<and> store_ok s' \<and> balanced (live @ [p]) s'
    \<and> stNodes s' = stNodes s \<and> a \<notin> set (dll_addrs (stTopics s))
    \<and> dll_addrs (stTopics s') = dll_addrs (stTopics s) @ [a] \<and> dll_items (stTopics s') = dll_items (stTopics s) @ [n]
    \<and> dsTrace s' = dsTrace s @ [Locked TopicsMutex (dsHeld s), Touched TopicList (TopicsMutex # dsHeld s)]"
proof -
  let ?t = "dsTrace s @ [Locked TopicsMutex (dsHeld s), Touched TopicList (TopicsMutex # dsHeld s)]"
  from r obtain w resp rid q d where
    e: "emplace_back (topic_of_response ipc resp) rid (stTopics s) = Inr (q, d)" and
    c: "request_cpu ipc stTopics put_topics q (put_topics d (s\<lparr>dsWorld := w, dsTrace := ?t\<rparr>)) = Inr ((), s')"
      "p = make_member_ptr (TopicRef (the q))"
    by (auto simp: requestTopic_def list_op_Inr topic_emplace_back_def)
  let ?s = "s\<lparr>dsWorld := w, dsTrace := ?t\<rparr>"
  have "store_ok ?s" "balanced live ?s" "emplace_back (topic_of_response ipc resp) rid (stTopics ?s) = Inr (q, d)"
    using ok e by simp_all
  from topic_list.new_member [OF this c(1)] obtain a attr v where
    n: "q = Some a" "store_ok s'" "balanced (live @ [make_member_ptr (TopicRef a)]) s'"
      "s' = put_topics (stTopics s') (?s\<lparr>dsWorld := v\<rparr>)" "a \<notin> set (dll_addrs (stTopics s))"
      "dll_addrs (stTopics s') = dll_addrs (stTopics s) @ [a]"
      "dll_items (stTopics s') = dll_items (stTopics s) @ [(topic_of_response ipc resp)
        \<lparr>mmAttributes := mmAttributes (topic_of_response ipc resp) @ [attr]\<rparr>]"
    by auto
  have "stNodes s' = stNodes s" "dsTrace s' = ?t" by (subst n(4), simp add: put_topics_def)+
  then show ?thesis using n c(2) by auto
qed

section \<open>Lemmas about the sweep\<close>

definition used :: "'a dll \<Rightarrow> nat \<Rightarrow> bool" where
  "used d a = (case payload d a of None \<Rightarrow> False | Some (_, _, c) \<Rightarrow> counter_nonZero c)"

definition rid_of :: "'a dll \<Rightarrow> nat \<Rightarrow> request_id" where
  "rid_of d a = fst (snd (the (payload d a)))"

definition unsubscribe_all :: "'w ipc \<Rightarrow> request_id list \<Rightarrow> 'w \<Rightarrow> 'w" where
  "unsubscribe_all ipc rids w = fold (\<lambda>r w. snd (sendUnsubscribeRequest ipc r w)) rids w"

definition removal_trace :: "mutex \<Rightarrow> shared \<Rightarrow> mutex list \<Rightarrow> nat list \<Rightarrow> event list" where
  "removal_trace m c h as = concat (map (\<lambda>_. [Locked m h, Touched c (m # h)]) as)"

lemma used_cell: "cell d a = Some e \<Longrightarrow> used d a = counter_nonZero (elUseCounter e)"
  by (simp add: used_def payload_def)

lemma rid_of_cell: "cell d a = Some e \<Longrightarrow> rid_of d a = elRequestId e"
  by (simp add: rid_of_def payload_def)

lemma used_payload: "payload d' a = payload d a \<Longrightarrow> used d' a = used d a"
  by (simp add: used_def)

lemma rid_of_payload: "payload d' a = payload d a \<Longrightarrow> rid_of d' a = rid_of d a"
  by (simp add: rid_of_def)

context list_field
begin

text \<open>One step of the loop: over an element in use, and over one that is not.\<close>

lemma sweep_step_used:
  assumes "cell (get s) y = Some e" "used (get s) y"
  shows "sweep_list (Suc n) get put m c ipc (Some y) s = sweep_list n get put m c ipc (elNext e) s"
  using assms used_cell [OF assms(1)] by (simp add: iter_preinc_def)

lemma sweep_step_unused:
  assumes "cell (get s) y = Some e" "\<not> used (get s) y" "m \<notin> set (dsHeld s)"
    and "dll_erase (Some y) (get s) = Inr (q, d)"
  shows "sweep_list (Suc n) get put m c ipc (Some y) s = sweep_list n get put m c ipc q
    (put d (s\<lparr>dsWorld := snd (sendUnsubscribeRequest ipc (elRequestId e) (dsWorld s)),
      dsTrace := dsTrace s @ [Locked m (dsHeld s), Touched c (m # dsHeld s)]\<rparr>))"
  using assms used_cell [OF assms(1)]
  by (simp add: locked_def touch_def list_op_def world_apply)

text \<open>Lists that agree on what their elements carry agree on what is swept.\<close>

lemma swept_cong:
  assumes "\<And>b. b \<in> set ys \<Longrightarrow> payload d b = payload d' b"
  shows "filter (used d) ys = filter (used d') ys"
    and "filter (\<lambda>a. \<not> used d a) ys = filter (\<lambda>a. \<not> used d' a) ys"
    and "map (rid_of d) (filter (\<lambda>a. \<not> used d a) ys) = map (rid_of d') (filter (\<lambda>a. \<not> used d' a) ys)"
proof -
  show f: "filter (used d) ys = filter (used d') ys"
    "filter (\<lambda>a. \<not> used d a) ys = filter (\<lambda>a. \<not> used d' a) ys"
    using used_payload [OF assms] by (auto intro!: filter_cong)
  show "map (rid_of d) (filter (\<lambda>a. \<not> used d a) ys) = map (rid_of d') (filter (\<lambda>a. \<not> used d' a) ys)"
    unfolding f by (auto simp: rid_of_payload [OF assms])
qed

text \<open>What is left of the cells when \<open>y\<close> is erased before the rest is swept.\<close>

lemma swept_payload:
  assumes "cell d1 y = None" "\<forall>b. b \<noteq> y \<longrightarrow> payload d1 b = payload d b" "\<not> used d y" "y \<notin> set ys"
    and "\<forall>b. payload d' b = (if b \<in> set ys \<and> \<not> used d1 b then None else payload d1 b)"
  shows "payload d' b = (if b \<in> set (y # ys) \<and> \<not> used d b then None else payload d b)"
proof -
  have "payload d1 c = payload d c" if "c \<in> set ys" for c using that assms(2,4) by auto
  then show ?thesis
    using assms(1-3,5) used_payload [of d1 b d] by (cases "b = y") (auto simp: payload_def)
qed

lemma sweep_end:
  "0 < n \<Longrightarrow> sweep_list n get put m c ipc None s = Inr ((), put (get s) (s\<lparr>dsWorld := dsWorld s, dsTrace := dsTrace s\<rparr>))"
  by (cases n) simp_all

lemma sweep_chain:
  "seg (get s) None (xs @ ys) None \<Longrightarrow> distinct (xs @ ys) \<Longrightarrow> length ys < n \<Longrightarrow> m \<notin> set (dsHeld s) \<Longrightarrow>
   \<exists>d. sweep_list n get put m c ipc (fst_or None ys) s = Inr ((), put d (s\<lparr>dsWorld := unsubscribe_all ipc
        (map (rid_of (get s)) (filter (\<lambda>a. \<not> used (get s) a) ys)) (dsWorld s),
        dsTrace := dsTrace s @ removal_trace m c (dsHeld s) (filter (\<lambda>a. \<not> used (get s) a) ys)\<rparr>))
     \<and> seg d None (xs @ filter (used (get s)) ys) None \<and> same_ends (get s) d
     \<and> (\<forall>b. payload d b = (if b \<in> set ys \<and> \<not> used (get s) b then None else payload (get s) b))"
proof (induction ys arbitrary: xs s n)
  case Nil
  then show ?case using sweep_end [of n m c ipc s]
    by (intro exI [of _ "get s"]) (simp add: unsubscribe_all_def removal_trace_def same_ends_def)
next
  case (Cons y ys)
  then obtain k where n: "n = Suc k" "length ys < k" by (cases n) auto
  from Cons.prems(1) obtain e where e: "cell (get s) y = Some e" "elNext e = fst_or None ys"
    by (auto simp: seg_append)
  show ?case
  proof (cases "used (get s) y")
    case True
    have "seg (get s) None ((xs @ [y]) @ ys) None" "distinct ((xs @ [y]) @ ys)" using Cons.prems by simp_all
    then show ?thesis
      using Cons.IH [of s "xs @ [y]" k] Cons.prems(4) n True e(2) sweep_step_used [OF e(1) True, of k m c ipc] by auto
  next
    case False
    from erase_chain [OF Cons.prems(1,2)] obtain d1 where
      d1: "dll_erase (Some y) (get s) = Inr (fst_or None ys, d1)" "seg d1 None (xs @ ys) None"
        "same_ends (get s) d1" "cell d1 y = None" "\<forall>b. b \<noteq> y \<longrightarrow> payload d1 b = payload (get s) b"
      by blast
    let ?s1 = "put d1 (s\<lparr>dsWorld := snd (sendUnsubscribeRequest ipc (elRequestId e) (dsWorld s)),
      dsTrace := dsTrace s @ [Locked m (dsHeld s), Touched c (m # dsHeld s)]\<rparr>)"
    have same: "payload d1 b = payload (get s) b" if "b \<in> set ys" for b
      using that Cons.prems(2) d1(5) by auto
    have sw: "filter (used d1) ys = filter (used (get s)) ys"
      "filter (\<lambda>a. \<not> used d1 a) ys = filter (\<lambda>a. \<not> used (get s) a) ys"
      "map (rid_of d1) (filter (\<lambda>a. \<not> used d1 a) ys) = map (rid_of (get s)) (filter (\<lambda>a. \<not> used (get s) a) ys)"
      by (rule swept_cong, rule same, assumption)+
    have "seg (get ?s1) None (xs @ ys) None" "distinct (xs @ ys)" "m \<notin> set (dsHeld ?s1)"
      using d1(2) Cons.prems(2,4) by simp_all
    from Cons.IH [OF this(1,2) n(2) this(3)] obtain d where
      d: "sweep_list k get put m c ipc (fst_or None ys) ?s1 = Inr ((), put d (?s1\<lparr>dsWorld := unsubscribe_all ipc
            (map (rid_of d1) (filter (\<lambda>a. \<not> used d1 a) ys)) (dsWorld ?s1),
            dsTrace := dsTrace ?s1 @ removal_trace m c (dsHeld s) (filter (\<lambda>a. \<not> used d1 a) ys)\<rparr>))"
        "seg d None (xs @ filter (used d1) ys) None" "same_ends d1 d"
        "\<forall>b. payload d b = (if b \<in> set ys \<and> \<not> used d1 b then None else payload d1 b)"
      by auto
    have "payload d b = (if b \<in> set (y # ys) \<and> \<not> used (get s) b then None else payload (get s) b)" for b
      using swept_payload [OF d1(4,5) False _ d(4)] Cons.prems(2) by simp
    then show ?thesis
      using d(2,3) d(1) [unfolded sw(3), unfolded sw(2)] False sw(1) d1(3) n(1) rid_of_cell [OF e(1)]
        sweep_step_unused [OF e(1) False Cons.prems(4) d1(1), of k c ipc]
      by (intro exI [of _ d]) (simp add: unsubscribe_all_def removal_trace_def same_ends_def)
  qed
qed

lemma sweep_rep:
  assumes r: "rep (get s) as" and ends: "as = [] \<or> used (get s) (hd as) \<and> used (get s) (last as)"
    and m: "m \<notin> set (dsHeld s)"
  shows "\<exists>d. sweep_list (Suc (length (dlMem (get s)))) get put m c ipc (mBegin (get s)) s
      = Inr ((), put d (s\<lparr>dsWorld := unsubscribe_all ipc
        (map (rid_of (get s)) (filter (\<lambda>a. \<not> used (get s) a) as)) (dsWorld s),
        dsTrace := dsTrace s @ removal_trace m c (dsHeld s) (filter (\<lambda>a. \<not> used (get s) a) as)\<rparr>))
    \<and> rep d (filter (used (get s)) as)
    \<and> (\<forall>b. payload d b = (if b \<in> set as \<and> \<not> used (get s) b then None else payload (get s) b))"
proof -
  have s: "seg (get s) None ([] @ as) None" "distinct ([] @ as)" "mBegin (get s) = fst_or None as"
    "mEnd (get s) = last_or None as"
    using r by (simp_all add: rep_def)
  have "length as < Suc (length (dlMem (get s)))" using seg_length s by fastforce
  from sweep_chain [OF s(1,2) this m, of c ipc] obtain d where
    d: "sweep_list (Suc (length (dlMem (get s)))) get put m c ipc (mBegin (get s)) s
      = Inr ((), put d (s\<lparr>dsWorld := unsubscribe_all ipc
        (map (rid_of (get s)) (filter (\<lambda>a. \<not> used (get s) a) as)) (dsWorld s),
        dsTrace := dsTrace s @ removal_trace m c (dsHeld s) (filter (\<lambda>a. \<not> used (get s) a) as)\<rparr>))"
      "seg d None (filter (used (get s)) as) None" "same_ends (get s) d"
      "\<forall>b. payload d b = (if b \<in> set as \<and> \<not> used (get s) b then None else payload (get s) b)"
    using s(3) by auto
  have "fst_or None (filter (used (get s)) as) = fst_or None as" using ends by (cases as) auto
  moreover have "last_or None (filter (used (get s)) as) = last_or None as"
    using ends by (cases as rule: rev_cases) auto
  ultimately have "rep d (filter (used (get s)) as)"
    using d(2,3) s by (simp add: rep_def same_ends_def)
  then show ?thesis using d(1,4) by blast
qed

end

section \<open>The invariant of the update loop\<close>

text \<open>
  What the loop needs to run safely: exact counters, well-formed lists, the mutexes \<open>h\<close> held, and
  at both ends of both lists an element that is in use.
\<close>

definition ends_used :: "'a dll \<Rightarrow> bool" where
  "ends_used d \<longleftrightarrow> dll_addrs d = [] \<or> used d (hd (dll_addrs d)) \<and> used d (last (dll_addrs d))"

definition loop_inv :: "member_ptr list \<Rightarrow> mutex list \<Rightarrow> ('w, 'z) data_store_scheme \<Rightarrow> bool" where
  "loop_inv live h s \<longleftrightarrow> balanced live s \<and> store_ok s \<and> dsHeld s = h
     \<and> ends_used (stNodes s) \<and> ends_used (stTopics s)"

lemma ends_used_cong:
  "dll_addrs d' = dll_addrs d \<Longrightarrow> (\<And>a. used d' a = used d a) \<Longrightarrow> ends_used d' = ends_used d"
  by (simp add: ends_used_def)

lemma used_live:
  "balanced live s \<Longrightarrow> counter_of r s = Some c \<Longrightarrow> counter_nonZero c \<longleftrightarrow> 0 < live_count r live"
  by (auto simp: balanced_def counter_nonZero_unat)

context list_field
begin

lemma used_counter: "used (get s) a \<longleftrightarrow> (\<exists>c. counter_of (ref a) s = Some c \<and> counter_nonZero c)"
  by (auto simp: used_def payload_def counter_ref counts_def split: option.splits)

lemma counts_payload: "counts d a = map_option (\<lambda>(x, r, c). c) (payload d a)"
  by (cases "cell d a") (auto simp: counts_def payload_def)

text \<open>Elements that are not in use have no pointers, so removing them keeps the counters exact.\<close>

lemma removal_balanced:
  assumes b: "balanced live s"
    and p: "\<forall>a. payload d a = (if a \<in> set as \<and> \<not> used (get s) a then None else payload (get s) a)"
  shows "balanced live (put d s)"
proof -
  have c: "counter_of r (put d s) = counter_of r s \<or> counter_of r (put d s) = None \<and> live_count r live = 0" for r
  proof (cases "r \<in> range ref")
    case True
    then obtain a where r: "r = ref a" by auto
    show ?thesis
    proof (cases "a \<in> set as \<and> \<not> used (get s) a")
      case True
      then have "live_count r live = 0 \<or> counter_of r s = None"
        using used_counter [of s a] used_live [OF b] r by (cases "counter_of r s") auto
      then show ?thesis using True p r by (auto simp: counter_ref counts_payload)
    next
      case False
      then have "payload d a = payload (get s) a" using p by auto
      then show ?thesis using r by (simp add: counter_ref counts_payload)
    qed
  qed (simp add: counter_other)
  have "counter_of r (put d s) \<noteq> None" if "q \<in> set live" "mpMember q = Some r" for q r
    using c [of r] b that by (auto simp: balanced_def live_count_0)
  then show ?thesis using c b unfolding balanced_def by (metis option.distinct(1))
qed

lemma sweep_keeps:
  assumes ok: "store_ok s" "balanced live s" "ends_used (get s)" and m: "m \<notin> set (dsHeld s)"
  shows "\<exists>d w t. sweep_list (Suc (length (dlMem (get s)))) get put m c ipc (mBegin (get s)) s
      = Inr ((), put d (s\<lparr>dsWorld := w, dsTrace := t\<rparr>))
    \<and> store_ok (put d s) \<and> balanced live (put d s) \<and> ends_used d
    \<and> dll_addrs d = filter (used (get s)) (dll_addrs (get s)) \<and> (\<forall>a\<in>set (dll_addrs d). payload d a = payload (get s) a)"
proof -
  let ?as = "dll_addrs (get s)"
  have "rep (get s) ?as" using store_ok_get [OF ok(1)] by (simp add: dll_ok_def)
  moreover have "?as = [] \<or> used (get s) (hd ?as) \<and> used (get s) (last ?as)"
    using ok(3) by (simp add: ends_used_def)
  ultimately obtain d where d: "sweep_list (Suc (length (dlMem (get s)))) get put m c ipc (mBegin (get s)) s
      = Inr ((), put d (s\<lparr>dsWorld := unsubscribe_all ipc
        (map (rid_of (get s)) (filter (\<lambda>a. \<not> used (get s) a) ?as)) (dsWorld s),
        dsTrace := dsTrace s @ removal_trace m c (dsHeld s) (filter (\<lambda>a. \<not> used (get s) a) ?as)\<rparr>))"
      "rep d (filter (used (get s)) ?as)"
      "\<forall>b. payload d b = (if b \<in> set ?as \<and> \<not> used (get s) b then None else payload (get s) b)"
    using sweep_rep [of s ?as m c ipc] m by metis
  have a: "dll_addrs d = filter (used (get s)) ?as" "dll_ok d" using rep_addrs rep_ok d(2) by blast+
  have p: "\<forall>b\<in>set (dll_addrs d). payload d b = payload (get s) b" using d(3) a(1) by auto
  have "used d b" if "b \<in> set (dll_addrs d)" for b
    using used_payload [of d b "get s"] p that a(1) by auto
  then have "ends_used d" by (auto simp: ends_used_def)
  moreover have "store_ok (put d s)" using store_ok_put ok(1) a(2) by simp
  ultimately show ?thesis using removal_balanced [OF ok(2) d(3)] d(1) a(1) p
    by (intro exI [of _ d] exI conjI) assumption+
qed

lemma on_instance_total:
  assumes "store_ok s" "balanced live s" "ends_used (get s)" "a \<in> set (dll_addrs (get s))"
  shows "\<exists>d. on_instance (Some a) f (get s) = Inr ((), d) \<and> store_ok (put d s) \<and> balanced live (put d s)
    \<and> ends_used d \<and> dll_addrs d = dll_addrs (get s)"
proof -
  have rep: "rep (get s) (dll_addrs (get s))" using store_ok_get [OF assms(1)] by (simp add: dll_ok_def)
  then obtain e where e: "cell (get s) a = Some e"
    using seg_allocated [of "get s" None "dll_addrs (get s)" None] assms(4) by (auto simp: rep_def)
  let ?d = "set_cell a (Some (e\<lparr>elInstance := f (elInstance e)\<rparr>)) (get s)"
  have o: "on_instance (Some a) f (get s) = Inr ((), ?d)" using e by (simp add: on_instance_def modify_def)
  have "rep ?d (dll_addrs (get s))"
    using rep e by (intro rep_links [of ?d "get s"]) (auto simp: links_def same_ends_def dest: cell_Some_less)
  then have ad: "dll_addrs ?d = dll_addrs (get s)" by (rule rep_addrs)
  have "used ?d b = used (get s) b" for b
    using e cell_Some_less [OF e] by (cases "a = b") (simp_all add: used_def payload_def)
  then have "ends_used ?d" using assms(3) ends_used_cong [OF ad] by simp
  then show ?thesis using on_instance_keeps [OF assms(1,2) o] o ad by blast
qed

end

lemma loop_inv_frame [simp]:
  "loop_inv live h (s\<lparr>dsWorld := w\<rparr>) = loop_inv live h s" "loop_inv live h (s\<lparr>dsTrace := t\<rparr>) = loop_inv live h s"
  "loop_inv live h (s\<lparr>dsUpdates := v\<rparr>) = loop_inv live h s"
  "loop_inv live h (s\<lparr>dsHeld := h'\<rparr>) \<longleftrightarrow> loop_inv live (dsHeld s) s \<and> h' = h"
  by (auto simp: loop_inv_def)

lemma total_touch [intro, simp]: "total_on (loop_inv live h) (touch c)"
  by (auto simp: total_on_def touch_def)

lemma total_world [intro, simp]: "total_on (loop_inv live h) (world f)"
  by (auto simp: total_on_def world_def split: prod.splits)

lemma total_locked:
  assumes "m \<notin> set h" "total_on (loop_inv live (m # h)) body"
  shows "total_on (loop_inv live h) (locked m body)"
proof (rule total_onI)
  fix s :: "('a, 'b) data_store_scheme"
  assume i: "loop_inv live h s"
  then have h: "dsHeld s = h" by (simp add: loop_inv_def)
  let ?s = "s\<lparr>dsTrace := dsTrace s @ [Locked m h], dsHeld := m # h\<rparr>"
  have "loop_inv live (m # h) ?s" using i by (auto simp: loop_inv_def)
  then obtain x t where t: "body ?s = Inr (x, t)" "loop_inv live (m # h) t"
    using total_onD [OF assms(2)] by blast
  then have "loop_inv live h (t\<lparr>dsHeld := remove1 m (dsHeld t)\<rparr>)" by (auto simp: loop_inv_def)
  then show "\<exists>x t. locked m body s = Inr (x, t) \<and> loop_inv live h t"
    using t assms(1) h by (simp add: locked_def)
qed

lemma loop_inv_put:
  "loop_inv live h s \<Longrightarrow> store_ok (put_nodes d s) \<Longrightarrow> balanced live (put_nodes d s) \<Longrightarrow> ends_used d \<Longrightarrow>
    loop_inv live h (put_nodes d s)"
  "loop_inv live h s \<Longrightarrow> store_ok (put_topics d' s) \<Longrightarrow> balanced live (put_topics d' s) \<Longrightarrow> ends_used d' \<Longrightarrow>
    loop_inv live h (put_topics d' s)"
  by (auto simp: loop_inv_def put_nodes_def put_topics_def)

lemma total_sweep_nodes:
  assumes "NodesMutex \<notin> set h"
  shows "total_on (loop_inv live h) (sweep_nodes ipc)"
proof (rule total_onI)
  fix s :: "('a, 'b) data_store_scheme" assume i: "loop_inv live h s"
  then have "store_ok s" "balanced live s" "ends_used (stNodes s)" "NodesMutex \<notin> set (dsHeld s)"
    using assms by (auto simp: loop_inv_def)
  from nodes.sweep_keeps [OF this, of NodeList ipc] obtain d w t where
    "sweep_nodes ipc s = Inr ((), put_nodes d (s\<lparr>dsWorld := w, dsTrace := t\<rparr>))"
    "store_ok (put_nodes d s)" "balanced live (put_nodes d s)" "ends_used d"
    unfolding sweep_nodes_def by blast
  then show "\<exists>x t. sweep_nodes ipc s = Inr (x, t) \<and> loop_inv live h t"
    using loop_inv_put(1) [OF i, of d] by simp
qed

lemma total_sweep_topics:
  assumes "TopicsMutex \<notin> set h"
  shows "total_on (loop_inv live h) (sweep_topics ipc)"
proof (rule total_onI)
  fix s :: "('a, 'b) data_store_scheme" assume i: "loop_inv live h s"
  then have "store_ok s" "balanced live s" "ends_used (stTopics s)" "TopicsMutex \<notin> set (dsHeld s)"
    using assms by (auto simp: loop_inv_def)
  from topics.sweep_keeps [OF this, of TopicList ipc] obtain d w t where
    "sweep_topics ipc s = Inr ((), put_topics d (s\<lparr>dsWorld := w, dsTrace := t\<rparr>))"
    "store_ok (put_topics d s)" "balanced live (put_topics d s)" "ends_used d"
    unfolding sweep_topics_def by blast
  then show "\<exists>x t. sweep_topics ipc s = Inr (x, t) \<and> loop_inv live h t"
    using loop_inv_put(2) [OF i, of d] by simp
qed

text \<open>On a well-formed list \<open>find\<close> ends, and what it finds is an element of the list.\<close>

lemma dll_find_ok:
  assumes "dll_ok d"
  shows "\<exists>r. dll_find k d = Inr r \<and> (\<forall>a. r = Some a \<longrightarrow> a \<in> set (dll_addrs d) \<and> mPrimaryKey (item d a) = k)
    \<and> (r = None \<longrightarrow> k \<notin> mPrimaryKey ` set (dll_items d))"
  using assms unfolding dll_ok_def dll_find_def find_rep [OF assms [unfolded dll_ok_def]]
  by (auto simp: dll_items_def contents_def find_None_iff dest!: find_Some_set)

lemma dll_ok_cell: "dll_ok d \<Longrightarrow> a \<in> set (dll_addrs d) \<Longrightarrow> \<exists>e. cell d a = Some e"
  using seg_allocated [of d None "dll_addrs d" None] by (auto simp: dll_ok_def rep_def)

definition safe_after :: "member_ptr list \<Rightarrow> mutex list \<Rightarrow> (('w, 'z) data_store_scheme \<Rightarrow> 'm member_scheme dll) \<Rightarrow>
    (nat option \<Rightarrow> (('w, 'z) data_store_scheme, unit) op) \<Rightarrow> bool" where
  "safe_after live h get after \<longleftrightarrow> (\<forall>s a. loop_inv live h s \<and> a \<in> set (dll_addrs (get s)) \<longrightarrow>
     (\<exists>x t. after (Some a) s = Inr (x, t) \<and> loop_inv live h t))"

lemma safe_after_return [simp]: "safe_after live h get (\<lambda>_. returnS ())"
  by (simp add: safe_after_def)

lemma add_update_total:
  assumes "UpdatesMutex \<notin> set h" "loop_inv live h s" "cell (get s) a = Some e"
    and "\<And>s t h. get (s\<lparr>dsHeld := h, dsTrace := t\<rparr>) = get s"
  shows "\<exists>x t. add_update get b c (Some a) k s = Inr (x, t) \<and> loop_inv live h t"
  using assms by (auto simp: add_update_def locked_def touch_def loop_inv_def bindS_def)

lemma loop_inv_cell:
  "loop_inv live h s \<Longrightarrow> a \<in> set (dll_addrs (stNodes s)) \<Longrightarrow> \<exists>e. cell (stNodes s) a = Some e"
  "loop_inv live h s \<Longrightarrow> a \<in> set (dll_addrs (stTopics s)) \<Longrightarrow> \<exists>e. cell (stTopics s) a = Some e"
  by (auto simp: loop_inv_def store_ok_def intro: dll_ok_cell)

lemma safe_after_update:
  assumes "UpdatesMutex \<notin> set h"
  shows "safe_after live h stNodes (\<lambda>it. addSubUpdate it k)" "safe_after live h stNodes (\<lambda>it. addSendUpdate it k)"
    "safe_after live h stTopics (\<lambda>it. addPubUpdate it k)"
  unfolding safe_after_def addSubUpdate_def addSendUpdate_def addPubUpdate_def
  by (intro allI impI, elim conjE, frule (1) loop_inv_cell, elim exE,
      rule add_update_total [OF assms], assumption+, simp)+

context member_list
begin

lemma find_and_update:
  assumes "store_ok s" "balanced live s" "ends_used (get s)"
  shows "dll_find k (get s) = Inr None \<or> (\<exists>a d. dll_find k (get s) = Inr (Some a)
    \<and> a \<in> set (dll_addrs (get s)) \<and> on_instance (Some a) f (get s) = Inr ((), d) \<and> store_ok (put d s)
    \<and> balanced live (put d s) \<and> ends_used d \<and> dll_addrs d = dll_addrs (get s))"
proof -
  obtain r where r: "dll_find k (get s) = Inr r" "\<And>a. r = Some a \<Longrightarrow> a \<in> set (dll_addrs (get s))"
    using dll_find_ok [OF store_ok_get [OF assms(1)]] by meson
  show ?thesis
  proof (cases r)
    case (Some a)
    then show ?thesis using r on_instance_total [OF assms r(2) [OF Some], of f] by blast
  qed (simp add: r)
qed

end

lemma total_handle_node:
  assumes "NodesMutex \<notin> set h" "safe_after live (NodesMutex # h) stNodes after"
  shows "total_on (loop_inv live h) (handle_node ipc u after)"
  unfolding handle_node_def
proof (rule total_locked [OF assms(1) total_bind [OF total_touch total_onI]])
  fix s :: "('a, 'b) data_store_scheme" assume i: "loop_inv live (NodesMutex # h) s"
  let ?k = "parseString ipc (nuKey u)"
  let ?m = "bindS (getsR (\<lambda>s. dll_find ?k (stNodes s))) (\<lambda>it.
      if it \<noteq> None
      then bindS (list_op stNodes put_nodes (on_instance it (node_apply ipc u))) (\<lambda>_. after it)
      else returnS ())"
  have ok: "store_ok s" "balanced live s" "ends_used (stNodes s)" using i by (auto simp: loop_inv_def)
  show "\<exists>x t. ?m s = Inr (x, t) \<and> loop_inv live (NodesMutex # h) t"
  proof (cases "dll_find ?k (stNodes s) = Inr None")
    case True
    then show ?thesis using i by simp
  next
    case False
    then obtain a d where d: "dll_find ?k (stNodes s) = Inr (Some a)" "a \<in> set (dll_addrs (stNodes s))"
      "on_instance (Some a) (node_apply ipc u) (stNodes s) = Inr ((), d)" "store_ok (put_nodes d s)"
      "balanced live (put_nodes d s)" "ends_used d" "dll_addrs d = dll_addrs (stNodes s)"
      using node_list.find_and_update [OF ok, of ?k "node_apply ipc u"] by blast
    then have "?m s = after (Some a) (put_nodes d s)" by (simp add: list_op_def bindS_def getsR_def)
    moreover have "loop_inv live (NodesMutex # h) (put_nodes d s)" "a \<in> set (dll_addrs (stNodes (put_nodes d s)))"
      using loop_inv_put(1) [OF i d(4-6)] d(2,7) by simp_all
    ultimately show ?thesis using assms(2) by (auto simp: safe_after_def)
  qed
qed

lemma total_handle_topic:
  assumes "TopicsMutex \<notin> set h" "safe_after live (TopicsMutex # h) stTopics after"
  shows "total_on (loop_inv live h) (handle_topic ipc u after)"
  unfolding handle_topic_def
proof (rule total_locked [OF assms(1) total_bind [OF total_touch total_onI]])
  fix s :: "('a, 'b) data_store_scheme" assume i: "loop_inv live (TopicsMutex # h) s"
  let ?k = "parseString ipc (tuKey u)"
  let ?m = "bindS (getsR (\<lambda>s. dll_find ?k (stTopics s))) (\<lambda>it.
      if it \<noteq> None
      then bindS (list_op stTopics put_topics (on_instance it (topic_apply u))) (\<lambda>_. after it)
      else returnS ())"
  have ok: "store_ok s" "balanced live s" "ends_used (stTopics s)" using i by (auto simp: loop_inv_def)
  show "\<exists>x t. ?m s = Inr (x, t) \<and> loop_inv live (TopicsMutex # h) t"
  proof (cases "dll_find ?k (stTopics s) = Inr None")
    case True
    then show ?thesis using i by simp
  next
    case False
    then obtain a d where d: "dll_find ?k (stTopics s) = Inr (Some a)" "a \<in> set (dll_addrs (stTopics s))"
      "on_instance (Some a) (topic_apply u) (stTopics s) = Inr ((), d)" "store_ok (put_topics d s)"
      "balanced live (put_topics d s)" "ends_used d" "dll_addrs d = dll_addrs (stTopics s)"
      using topic_list.find_and_update [OF ok, of ?k "topic_apply u"] by blast
    then have "?m s = after (Some a) (put_topics d s)" by (simp add: list_op_def bindS_def getsR_def)
    moreover have "loop_inv live (TopicsMutex # h) (put_topics d s)" "a \<in> set (dll_addrs (stTopics (put_topics d s)))"
      using loop_inv_put(2) [OF i d(4-6)] d(2,7) by simp_all
    ultimately show ?thesis using assms(2) by (auto simp: safe_after_def)
  qed
qed

lemma total_on_message:
  "(\<And>v. total_on (loop_inv live h) (handle v)) \<Longrightarrow> total_on (loop_inv live h) (on_message receive handle)"
  by (auto simp: on_message_def split: option.split)

lemmas update_defs = update_publishersTo_def update_subscribersTo_def update_isServerFor_def
  update_isClientOf_def update_isActionServerFor_def update_isActionClientOf_def update_state_def
  update_publishers_def update_subscribers_def

lemma total_run_body: "total_on (loop_inv live []) (run_body ipc)"
proof -
  have node: "total_on (loop_inv live []) (handle_node ipc u after)"
    if "safe_after live [NodesMutex] stNodes after" for u after
    using that by (intro total_handle_node) simp_all
  have topic: "total_on (loop_inv live []) (handle_topic ipc u after)"
    if "safe_after live [TopicsMutex] stTopics after" for u after
    using that by (intro total_handle_topic) simp_all
  note after = safe_after_return safe_after_update [of "[NodesMutex]" live, simplified]
    safe_after_update [of "[TopicsMutex]" live, simplified]
  have "total_on (loop_inv live []) (update_publishersTo ipc)" "total_on (loop_inv live []) (update_subscribersTo ipc)"
    "total_on (loop_inv live []) (update_isServerFor ipc)" "total_on (loop_inv live []) (update_isClientOf ipc)"
    "total_on (loop_inv live []) (update_isActionServerFor ipc)"
    "total_on (loop_inv live []) (update_isActionClientOf ipc)" "total_on (loop_inv live []) (update_state ipc)"
    "total_on (loop_inv live []) (update_publishers ipc)" "total_on (loop_inv live []) (update_subscribers ipc)"
    unfolding update_defs
    by (rule total_on_message, clarsimp split del: if_split, rule node topic, rule after)+
  then show ?thesis
    unfolding run_body_def seqS.simps
    by (intro total_bind total_return total_sweep_nodes total_sweep_topics) simp_all
qed

section \<open>Lemmas about connecting, and the log of updates\<close>

abbreviation tries :: "('w \<Rightarrow> bool \<times> 'w) \<Rightarrow> nat \<Rightarrow> 'w \<Rightarrow> 'w" where
  "tries connect k \<equiv> (\<lambda>w. snd (connect w)) ^^ k"

lemma connect_loop_fails:
  assumes "\<And>w. \<not> fst (connect w)"
  shows "connect_loop connect (int (Suc k)) w = Some (Inl (ProcessExit 1), tries connect (Suc k) w)"
proof (induction k arbitrary: w)
  case 0
  show ?case using assms [of w] by (subst connect_loop.simps) (auto split: prod.splits)
next
  case (Suc k)
  have "connect_loop connect (int (Suc (Suc k))) w = connect_loop connect (int (Suc k)) (snd (connect w))"
    using assms [of w] by (subst connect_loop.simps) (auto split: prod.splits)
  then show ?case using Suc by (simp only: funpow_Suc_right comp_def)
qed

lemma connect_loop_stuck:
  assumes "connect_loop connect n w = Some r"
  shows "(\<forall>w. \<not> fst (connect w)) \<longrightarrow> 0 < n"
proof (rule connect_loop.raw_induct [where P = "\<lambda>connect n w r. (\<forall>w. \<not> fst (connect w)) \<longrightarrow> 0 < n", OF _ assms])
  fix f and connect :: "'a \<Rightarrow> bool \<times> 'a" and n :: int and w r
  assume IH: "\<And>connect n w r. f connect n w = Some r \<Longrightarrow> (\<forall>w. \<not> fst (connect w)) \<longrightarrow> 0 < n"
    and r: "(case connect w of (ok, w') \<Rightarrow> if ok then Some (Inr (), w')
      else if n - 1 = 0 then Some (Inl (ProcessExit 1), w') else f connect (n - 1) w') = Some r"
  show "(\<forall>w. \<not> fst (connect w)) \<longrightarrow> 0 < n"
  proof
    assume no: "\<forall>w. \<not> fst (connect w)"
    then have "\<not> fst (connect w)" by blast
    then have "n - 1 = 0 \<or> f connect (n - 1) (snd (connect w)) = Some r"
      using r by (auto split: prod.splits if_splits)
    moreover have "f connect (n - 1) (snd (connect w)) = Some r \<Longrightarrow> 0 < n - 1" using IH no by blast
    ultimately show "0 < n" by linarith
  qed
qed

lemma connect_loop_succeeds:
  assumes "\<And>j. j < k \<Longrightarrow> \<not> fst (connect (tries connect j w))" "fst (connect (tries connect k w))"
    and "n \<le> 0 \<or> int k < n"
  shows "connect_loop connect n w = Some (Inr (), tries connect (Suc k) w)"
  using assms
proof (induction k arbitrary: n w)
  case 0
  then show ?case by (subst connect_loop.simps) (auto split: prod.splits)
next
  case (Suc k)
  have *: "tries connect (Suc j) w = tries connect j (snd (connect w))" for j
    by (simp only: funpow_Suc_right comp_def)
  have "\<not> fst (connect w)" using Suc.prems(1) [of 0] by simp
  moreover have "n - 1 \<noteq> 0" using Suc.prems(3) by auto
  ultimately have "connect_loop connect n w = connect_loop connect (n - 1) (snd (connect w))"
    by (subst connect_loop.simps) (auto split: prod.splits)
  also have "\<dots> = Some (Inr (), tries connect (Suc k) (snd (connect w)))"
  proof (rule Suc.IH)
    show "\<not> fst (connect (tries connect j (snd (connect w))))" if "j < k" for j
      using Suc.prems(1) [of "Suc j"] that unfolding * by simp
    show "fst (connect (tries connect k (snd (connect w))))" using Suc.prems(2) unfolding * .
    show "n - 1 \<le> 0 \<or> int k < n - 1" using Suc.prems(3) by auto
  qed
  finally show ?case by (simp only: *)
qed

text \<open>What the log holds for one member.\<close>

definition connections_of :: "string \<Rightarrow> graph_view \<Rightarrow> member_proxies" where
  "connections_of k view = concat (map mcConnections (filter (\<lambda>c. pxPrimaryKey (mcMember c) = k) view))"

definition view_keys :: "graph_view \<Rightarrow> string list" where
  "view_keys view = map (\<lambda>c. pxPrimaryKey (mcMember c)) view"

lemma connections_of_append [simp]: "connections_of k (v @ v') = connections_of k v @ connections_of k v'"
  by (simp add: connections_of_def)

lemma connections_of_simps [simp]:
  "connections_of k [] = []"
  "connections_of k (c # v) = (if pxPrimaryKey (mcMember c) = k then mcConnections c else []) @ connections_of k v"
  by (simp_all add: connections_of_def)

lemma connections_of_absent: "k \<notin> set (view_keys v) \<Longrightarrow> connections_of k v = []"
  by (auto simp: connections_of_def view_keys_def filter_empty_conv)

lemma add_connection_spec:
  assumes "distinct (view_keys v)"
  shows "distinct (view_keys (add_connection m p v))
    \<and> set (view_keys (add_connection m p v)) = insert (pxPrimaryKey m) (set (view_keys v))
    \<and> connections_of k (add_connection m p v) = connections_of k v @ (if pxPrimaryKey m = k then [p] else [])"
proof -
  let ?P = "\<lambda>c. pxPrimaryKey (mcMember c) = pxPrimaryKey m"
  let ?i = "find_if ?P v"
  show ?thesis
  proof (cases "?i = length v")
    case True
    then have "pxPrimaryKey m \<notin> set (view_keys v)" by (auto simp: find_if_end_iff view_keys_def)
    moreover have "add_connection m p v = v @ [\<lparr>mcMember = m, mcConnections = [p]\<rparr>]"
      using True by (simp add: add_connection_def)
    ultimately show ?thesis using assms by (auto simp: view_keys_def)
  next
    case False
    then have i: "?i < length v" by (rule find_if_found)
    let ?c = "v ! ?i"
    have P: "?P ?c" using i by (rule find_if_nth)
    have v: "v = take ?i v @ ?c # drop (Suc ?i) v" using i by (rule split_at_nth)
    have a: "add_connection m p v = take ?i v @ ?c\<lparr>mcConnections := mcConnections ?c @ [p]\<rparr> # drop (Suc ?i) v"
      using False i by (simp add: add_connection_def Let_def upd_conv_take_nth_drop)
    have keys: "view_keys (add_connection m p v) = view_keys v"
      unfolding a by (subst (4) v) (simp add: view_keys_def)
    have "distinct (view_keys (take ?i v @ ?c # drop (Suc ?i) v))" using assms v by simp
    then have "pxPrimaryKey m \<notin> set (view_keys (drop (Suc ?i) v))"
      using P by (auto simp: view_keys_def)
    then have "connections_of (pxPrimaryKey m) (drop (Suc ?i) v) = []" by (rule connections_of_absent)
    then have "connections_of k (add_connection m p v)
        = connections_of k (take ?i v @ ?c # drop (Suc ?i) v) @ (if pxPrimaryKey m = k then [p] else [])"
      unfolding a using P by auto
    moreover have "pxPrimaryKey m \<in> set (view_keys v)" using P nth_mem [OF i] by (force simp: view_keys_def)
    ultimately show ?thesis using assms keys v by (simp add: insert_absorb)
  qed
qed

text \<open>The log after a list of additions, each a member and the other end.\<close>

definition log_of :: "(member_proxy \<times> member_proxy) list \<Rightarrow> graph_view \<Rightarrow> graph_view" where
  "log_of us v = fold (\<lambda>(m, p). add_connection m p) us v"

lemma log_of_spec:
  "distinct (view_keys v) \<Longrightarrow> distinct (view_keys (log_of us v))
    \<and> connections_of k (log_of us v) = connections_of k v @ map snd (filter (\<lambda>(m, p). pxPrimaryKey m = k) us)"
proof (induction us arbitrary: v)
  case (Cons u us)
  obtain m p where u: "u = (m, p)" by force
  have d: "distinct (view_keys (add_connection m p v))" using add_connection_spec [OF Cons.prems] by simp
  show ?case using Cons.IH [OF d] add_connection_spec [OF Cons.prems, of m p k] u
    by (simp add: log_of_def)
qed (simp add: log_of_def)

section \<open>What the store's operations leave alone\<close>

text \<open>
  The objects that use the data store extend its state with fields of their own. The store's
  operations do not touch those fields, and give back every mutex they took.
\<close>

definition same_more :: "('w, 'z) data_store_scheme \<Rightarrow> ('w, 'z) data_store_scheme \<Rightarrow> bool" where
  "same_more s t \<longleftrightarrow> data_store.more t = data_store.more s \<and> dsHeld t = dsHeld s"

interpretation more: frame same_more
  by unfold_locales (auto simp: same_more_def)

definition keeps_more :: "(('w, 'z) data_store_scheme, 'a) op \<Rightarrow> bool" where
  "keeps_more m \<longleftrightarrow> obeys same_more m"

lemma keeps_more_iff:
  "keeps_more m \<longleftrightarrow> (\<forall>s x t. m s = Inr (x, t) \<longrightarrow> data_store.more t = data_store.more s \<and> dsHeld t = dsHeld s)"
  by (simp add: keeps_more_def obeys_def same_more_def)

lemma keeps_moreD: "keeps_more m \<Longrightarrow> m s = Inr (x, t) \<Longrightarrow> data_store.more t = data_store.more s \<and> dsHeld t = dsHeld s"
  by (simp add: keeps_more_iff)

named_theorems keeps \<open>operations that touch the store's own fields only\<close>

lemmas keeps_rules [keeps] = more.rules [folded keeps_more_def]
lemmas keeps_seqS = more.sequence [folded keeps_more_def]
lemmas keeps_apply = more.apply_state [folded keeps_more_def]

lemma keeps_basic [keeps]: "keeps_more (touch c)" "keeps_more (world g)"
  by (auto simp: keeps_more_iff touch_def world_def split: prod.splits)

lemma keeps_locked [keeps]: "keeps_more body \<Longrightarrow> keeps_more (locked m body)"
  unfolding keeps_more_iff by (fastforce elim!: locked_InrE)

lemma keeps_list_op [keeps]: "keeps_more (list_op stNodes put_nodes f)" "keeps_more (list_op stTopics put_topics g)"
  by (auto simp: keeps_more_iff list_op_Inr put_nodes_def put_topics_def)

lemma keeps_receive [keeps]: "keeps_more (receive_value f)"
  by (auto simp: keeps_more_iff)

lemma keeps_add_source [keeps]:
  "keeps_more (add_source ipc stNodes put_nodes it r)" "keeps_more (add_source ipc stTopics put_topics it r)"
  by (auto simp: keeps_more_iff add_source_def put_nodes_def put_topics_def bindR_eq_Inr)

lemma keeps_counter [keeps]: "keeps_more (counter_at f p)"
  by (auto simp: keeps_more_iff counter_at_def split: option.splits member_ref.splits)

lemma keeps_ptr [keeps]: "keeps_more (ptr_copy p)" "keeps_more (ptr_destroy p)" "keeps_more (ptr_assign p q)"
  unfolding ptr_copy_def [abs_def] ptr_destroy_def [abs_def] ptr_assign_def [abs_def]
  by (auto simp: keeps_more_iff dest: keeps_moreD [OF keeps_counter])

lemma keeps_lookup [keeps]:
  "keeps_more (requestNode ipc k u)" "keeps_more (requestTopic ipc k u)"
  "keeps_more (getNode ipc k)" "keeps_more (getTopic ipc k)" "keeps_more (ds_get ipc p)"
  "keeps_more (getNodeByName ipc k)" "keeps_more (getTopicByName ipc k)"
  unfolding requestNode_def requestTopic_def getNode_def getTopic_def ds_get_def getNodeByName_def
    getTopicByName_def search_key_def request_cpu_def
  by (intro keeps allI impI)+

end
