(* ===== verification/Data_Store_Properties.thy ===== *)
theory Data_Store_Properties
  imports Data_Store
begin

text \<open>
  What the data store guarantees: its loop runs safely as long as both ends of both lists are in
  use, what it removes and unsubscribes, who shares the counter of a looked-up member, which
  mutexes guard the list of nodes, how often it tries to connect, and what its update log holds.
\<close>

section \<open>A concrete store\<close>

definition demo_ds :: "store \<Rightarrow> peer data_store" where
  "demo_ds st = \<lparr>stNodes = stNodes st, stTopics = stTopics st, dsUpdates = [],
     dsTopicParameterEventsKey = ''pe'', dsTopicRosoutKey = ''ro'', dsWorld = peer_init, dsHeld = [], dsTrace = []\<rparr>"

lemma demo_ds_store [simp]:
  "stNodes (demo_ds st) = stNodes st" "stTopics (demo_ds st) = stTopics st" "dsHeld (demo_ds st) = []"
  "balanced live (demo_ds st) = balanced live st" "store_ok (demo_ds st) = store_ok st"
  "dsUpdates (demo_ds st) = []"
proof -
  have "counter_of r (demo_ds st) = counter_of r st" for r
    by (simp add: demo_ds_def counter_of_def split: member_ref.splits)
  then show "balanced live (demo_ds st) = balanced live st" by (simp add: balanced_def)
qed (simp_all add: demo_ds_def store_ok_def)

definition demo_elem :: "string \<Rightarrow> nat option \<Rightarrow> nat option \<Rightarrow> size_t \<Rightarrow> node element" where
  "demo_elem k p n c = \<lparr>elPrev = p, elNext = n, elInstance = demo_node\<lparr>mPrimaryKey := k\<rparr>, elRequestId = length k,
     elUseCounter = c\<rparr>"

text \<open>Three nodes, the middle one not in use; and one node that is not in use.\<close>

definition demo_three :: store where
  "demo_three = \<lparr>stNodes = \<lparr>dlMem = [Some (demo_elem ''a'' None (Some 1) 1), Some (demo_elem ''bb'' (Some 0) (Some 2) 0),
     Some (demo_elem ''c'' (Some 1) None 1)], mBegin = Some 0, mEnd = Some 2\<rparr>, stTopics = dll_new\<rparr>"

definition demo_unused :: store where
  "demo_unused = \<lparr>stNodes = \<lparr>dlMem = [Some (demo_elem ''a'' None None 0)], mBegin = Some 0, mEnd = Some 0\<rparr>,
     stTopics = dll_new\<rparr>"

lemma demo_three_rep: "rep (stNodes demo_three) [0, 1, 2]"
  by (simp add: rep_def demo_three_def demo_elem_def cell_def last_or_def)

lemma demo_three_used:
  "used (stNodes demo_three) 0" "\<not> used (stNodes demo_three) 1" "used (stNodes demo_three) 2"
  by (simp_all add: used_def payload_def demo_three_def demo_elem_def cell_def counter_nonZero_def)

lemma demo_unused_rep: "rep (stNodes demo_unused) [0]"
  by (simp add: rep_def demo_unused_def demo_elem_def cell_def last_or_def)

lemma demo_unused_balanced: "balanced [] demo_unused"
  by (auto simp: balanced_def counter_of_def demo_unused_def cell_def dll_new_def demo_elem_def
      split: member_ref.splits if_splits)

lemma demo_unused_ok: "store_ok demo_unused"
proof -
  have "dll_ok (stNodes demo_unused)" using rep_ok [OF demo_unused_rep] by blast
  then show ?thesis by (simp add: store_ok_def demo_unused_def)
qed

section \<open>Properties\<close>

text \<open>C8: The loop of \<open>run\<close> never fails an assertion, follows no dangling pointer and never locks a
  mutex twice, for any number of iterations and whatever messages arrive, as long as the counters
  are exact and the elements at both ends of both lists are in use; and it keeps all of that.\<close>

theorem run_loop_safe:
  assumes "balanced live s" "store_ok s" "dsHeld s = []" "ends_used (stNodes s)" "ends_used (stTopics s)"
  shows "\<exists>s'. ds_run ipc iterations s = Inr ((), s') \<and> balanced live s' \<and> store_ok s' \<and> dsHeld s' = []
    \<and> ends_used (stNodes s') \<and> ends_used (stTopics s')"
proof -
  have "loop_inv live [] s" using assms by (simp add: loop_inv_def)
  moreover have "total_on (loop_inv live []) (ds_run ipc iterations)"
    unfolding ds_run_def by (rule total_seq) (simp add: total_run_body)
  ultimately show ?thesis using total_onD by (fastforce simp: loop_inv_def)
qed

lemma demo_store_ends: "ends_used (stTopics demo_store)" "ends_used (stNodes demo_store)"
  by (simp_all add: ends_used_def demo_store_def demo_topics_def dll_addrs_def dll_new_def cell_def demo_el_def
      used_def payload_def counter_nonZero_def)

lemma run_loop_safe_witness:
  "\<exists>s'. ds_run demo_ipc 3 (demo_ds demo_store) = Inr ((), s')
    \<and> balanced [make_member_ptr (TopicRef 0)] s'"
  using run_loop_safe [of "[make_member_ptr (TopicRef 0)]" "demo_ds demo_store" demo_ipc 3]
    pool_inv [OF demo_pool] demo_store_ends by auto



text \<open>C27: When the first node is not in use, the pass that removes it leaves the list unusable: every
  later lookup of a node reads freed memory, whatever key it asks for.\<close>

theorem sweep_first_unused_dangles:
  assumes "rep (stNodes s) (a # as)" "\<not> used (stNodes s) a" "NodesMutex \<notin> set (dsHeld s)"
  shows "\<exists>s'. sweep_nodes ipc s = Inr ((), s') \<and> mBegin (stNodes s') = Some a
    \<and> getNode ipc k s' = Inl UseAfterFree"
proof -
  have s: "seg (stNodes s) None ([] @ a # as) None" "distinct ([] @ a # as)"
    "mBegin (stNodes s) = fst_or None (a # as)"
    using assms(1) by (simp_all add: rep_def)
  have "length (a # as) < Suc (length (dlMem (stNodes s)))" using seg_length [of "stNodes s" None "a # as" None] s by simp
  from nodes.sweep_chain [OF s(1,2) this assms(3), of NodeList ipc] obtain d s' where
    d: "sweep_nodes ipc s = Inr ((), s')" "stNodes s' = d" "same_ends (stNodes s) d"
      "\<forall>b. payload d b = (if b \<in> set (a # as) \<and> \<not> used (stNodes s) b then None else payload (stNodes s) b)"
    unfolding sweep_nodes_def s(3) by fastforce
  have "payload d a = None" using d(4) assms(2) by simp
  then have "cell d a = None" by (simp add: payload_def)
  moreover have b: "mBegin d = Some a" using d(3) s(3) by (simp add: same_ends_def)
  ultimately have "dll_find k d = Inl UseAfterFree" by (simp add: dll_find_def find_where_def)
  then show ?thesis using d(1,2) b by (simp add: getNode_def touch_def bindS_def getsR_def)
qed

lemma sweep_first_unused_dangles_witness:
  "\<exists>s'. sweep_nodes demo_ipc (demo_ds demo_unused) = Inr ((), s') \<and> getNode demo_ipc ''a'' s' = Inl UseAfterFree"
proof -
  have "\<not> used (stNodes demo_unused) 0"
    by (simp add: used_def payload_def demo_unused_def demo_elem_def cell_def counter_nonZero_def)
  then show ?thesis
    using sweep_first_unused_dangles [of "demo_ds demo_unused" 0 "[]" demo_ipc "''a''"] demo_unused_rep by auto
qed



text \<open>The list of nodes has no common lock: the insertion of a node holds only the topics' mutex, the
  removal of a node only the nodes' mutex, so the two can run at the same time.\<close>

theorem node_list_unprotected:
  assumes ins: "requestNode ipc k u s = Inr (p, s1)" "dsHeld s = []" "store_ok s" "balanced live s"
    and rem: "rep (stNodes t) as" "dsHeld t = []" "as \<noteq> []" "used (stNodes t) (hd as)" "used (stNodes t) (last as)"
      "a \<in> set as" "\<not> used (stNodes t) a"
  shows "Touched NodeList [TopicsMutex] \<in> set (dsTrace s1)
    \<and> (\<exists>t1. sweep_nodes ipc' t = Inr ((), t1) \<and> Touched NodeList [NodesMutex] \<in> set (dsTrace t1))"
proof -
  have "Touched NodeList [TopicsMutex] \<in> set (dsTrace s1)"
    using requestNode_spec [OF ins(3,4,1)] ins(2) by auto
  moreover have "NodesMutex \<notin> set (dsHeld t)" using rem(2) by simp
  from nodes.sweep_rep [OF rem(1) _ this, of NodeList ipc'] rem(3-5) obtain t1 where
    t1: "sweep_nodes ipc' t = Inr ((), t1)" "dsTrace t1 = dsTrace t @ removal_trace NodesMutex NodeList
      (dsHeld t) (filter (\<lambda>a. \<not> used (stNodes t) a) as)"
    unfolding sweep_nodes_def by fastforce
  then have "Touched NodeList [NodesMutex] \<in> set (dsTrace t1)"
    using rem(2,6,7) by (auto simp: removal_trace_def)
  ultimately show ?thesis using t1(1) by blast
qed

lemma node_list_unprotected_witness:
  "\<exists>p s1 t1. requestNode demo_ipc ''n'' True (demo_ds demo_unused) = Inr (p, s1)
    \<and> sweep_nodes demo_ipc (demo_ds demo_three) = Inr ((), t1)
    \<and> Touched NodeList [TopicsMutex] \<in> set (dsTrace s1) \<and> Touched NodeList [NodesMutex] \<in> set (dsTrace t1)"
proof -
  have run: "\<exists>p s1. requestNode demo_ipc ''n'' True (demo_ds demo_unused) = Inr (p, s1)"
    by (simp add: bindS_def touch_def getsR_def demo_unused_def
        demo_ds_def cell_def demo_elem_def demo_node_def requestNode_def locked_def world_def
        receive_value_def liftR_def optional_value_def list_op_def node_emplace_back_def emplace_back_def
        modify_def set_cell_def put_nodes_def request_cpu_def add_source_def addAttributeSource_def
        on_instance_def mk_element_def demo_ipc_def peer_send_def demo_response_def peer_init_def)
  then obtain p s1 where s1: "requestNode demo_ipc ''n'' True (demo_ds demo_unused) = Inr (p, s1)" by blast
  from node_list_unprotected [OF this, of "[]" "demo_ds demo_three" "[0, 1, 2]" 1 demo_ipc] s1 show ?thesis
    using demo_unused_balanced demo_unused_ok demo_three_rep demo_three_used by fastforce
qed



text \<open>The log of graph updates: after any additions to an empty log, \<open>getUpdates\<close> returns one entry
  per member that was added to, with all its new neighbours in the order they were added, and
  leaves the log empty.\<close>

theorem getUpdates_drains:
  assumes "UpdatesMutex \<notin> set (dsHeld s)" "dsUpdates s = log_of us []"
  shows "\<exists>view s'. getUpdates s = Inr (view, s') \<and> dsUpdates s' = [] \<and> dsHeld s' = dsHeld s
    \<and> distinct (view_keys view)
    \<and> (\<forall>k. connections_of k view = map snd (filter (\<lambda>(m, p). pxPrimaryKey m = k) us))"
proof -
  have "distinct (view_keys ([] :: graph_view))" by (simp add: view_keys_def)
  from log_of_spec [OF this] show ?thesis
    using assms by (simp add: getUpdates_def locked_def touch_def bindS_def)
qed

lemma getUpdates_drains_witness:
  "\<exists>view s'. getUpdates ((demo_ds demo_store)\<lparr>dsUpdates := log_of [(proxy_of_key ''a'' True, proxy_of_key ''x'' False),
      (proxy_of_key ''b'' True, proxy_of_key ''y'' False), (proxy_of_key ''a'' True, proxy_of_key ''z'' False)] []\<rparr>) = Inr (view, s')
    \<and> connections_of ''a'' view = [proxy_of_key ''x'' False, proxy_of_key ''z'' False]"
  using getUpdates_drains [of "(demo_ds demo_store)\<lparr>dsUpdates := log_of [(proxy_of_key ''a'' True, proxy_of_key ''x'' False),
      (proxy_of_key ''b'' True, proxy_of_key ''y'' False), (proxy_of_key ''a'' True, proxy_of_key ''z'' False)] []\<rparr>"]
  by (fastforce simp: proxy_of_key_def)

end
