(* ===== verification/Data_Store_Refinement.thy ===== *)
theory Data_Store_Refinement
  imports Data_Store_Properties
begin

text \<open>
  What the data store's loop promises, without pointers, links, counters' positions and mutexes: a
  store is two sequences of entries (a member, the id of the request it came with and the number of
  pointers to it), a log and the world outside. The abstract operations are plain functions; the
  theorem shows that the loop over linked cells computes them.
\<close>

section \<open>The abstract store\<close>

type_synonym 'a entry = "'a \<times> request_id \<times> size_t"

record 'w abs_store =
  abNodes :: "node entry list"
  abTopics :: "topic entry list"
  abUpdates :: graph_view
  abWorld :: 'w

definition entry_used :: "'a entry \<Rightarrow> bool" where
  "entry_used e \<longleftrightarrow> counter_nonZero (snd (snd e))"

definition entry_keys :: "'m member_scheme entry list \<Rightarrow> string set" where
  "entry_keys es = (\<lambda>e. mPrimaryKey (fst e)) ` set es"

fun update_first :: "string \<Rightarrow> ('m member_scheme \<Rightarrow> 'm member_scheme) \<Rightarrow>
    'm member_scheme entry list \<Rightarrow> 'm member_scheme entry list" where
  "update_first k f [] = []"
| "update_first k f ((x, r) # es) = (if mPrimaryKey x = k then (f x, r) # es else (x, r) # update_first k f es)"

definition released :: "'a entry list \<Rightarrow> request_id list" where
  "released es = map (fst \<circ> snd) (filter (\<lambda>e. \<not> entry_used e) es)"

section \<open>The abstract loop\<close>

definition abs_sweep_nodes :: "'w ipc \<Rightarrow> 'w abs_store \<Rightarrow> 'w abs_store" where
  "abs_sweep_nodes ipc a = a\<lparr>abNodes := filter entry_used (abNodes a),
     abWorld := unsubscribe_all ipc (released (abNodes a)) (abWorld a)\<rparr>"

definition abs_sweep_topics :: "'w ipc \<Rightarrow> 'w abs_store \<Rightarrow> 'w abs_store" where
  "abs_sweep_topics ipc a = a\<lparr>abTopics := filter entry_used (abTopics a),
     abWorld := unsubscribe_all ipc (released (abTopics a)) (abWorld a)\<rparr>"

text \<open>A new edge is logged for the member with the key.\<close>

definition no_log :: "string \<Rightarrow> 'w abs_store \<Rightarrow> 'w abs_store" where
  "no_log k a = a"

definition log_edge :: "bool \<Rightarrow> bool \<Rightarrow> string \<Rightarrow> string \<Rightarrow> 'w abs_store \<Rightarrow> 'w abs_store" where
  "log_edge isTopic otherIsTopic other k a =
     a\<lparr>abUpdates := add_connection (proxy_of_key k isTopic) (proxy_of_key other otherIsTopic) (abUpdates a)\<rparr>"

definition abs_node :: "'w ipc \<Rightarrow> node_update \<Rightarrow> (string \<Rightarrow> 'w abs_store \<Rightarrow> 'w abs_store) \<Rightarrow> 'w abs_store \<Rightarrow> 'w abs_store" where
  "abs_node ipc u after a = (let k = parseString ipc (nuKey u) in
     if k \<in> entry_keys (abNodes a) then after k (a\<lparr>abNodes := update_first k (node_apply ipc u) (abNodes a)\<rparr>) else a)"

definition abs_topic :: "'w ipc \<Rightarrow> topic_update \<Rightarrow> (string \<Rightarrow> 'w abs_store \<Rightarrow> 'w abs_store) \<Rightarrow> 'w abs_store \<Rightarrow> 'w abs_store" where
  "abs_topic ipc u after a = (let k = parseString ipc (tuKey u) in
     if k \<in> entry_keys (abTopics a) then after k (a\<lparr>abTopics := update_first k (topic_apply u) (abTopics a)\<rparr>) else a)"

definition abs_message :: "('w \<Rightarrow> 'm option \<times> 'w) \<Rightarrow> ('m \<Rightarrow> 'w abs_store \<Rightarrow> 'w abs_store) \<Rightarrow> 'w abs_store \<Rightarrow> 'w abs_store" where
  "abs_message receive handle a = (case receive (abWorld a) of
       (None, w) \<Rightarrow> a\<lparr>abWorld := w\<rparr>
     | (Some v, w) \<Rightarrow> handle v (a\<lparr>abWorld := w\<rparr>))"

definition abs_steps :: "'w ipc \<Rightarrow> ('w abs_store \<Rightarrow> 'w abs_store) list" where
  "abs_steps ipc = [abs_sweep_nodes ipc, abs_sweep_topics ipc,
     abs_message (receivePublishersTo ipc) (\<lambda>(k, t). abs_node ipc (NodePublishersTo k t) no_log),
     abs_message (receiveSubscribersTo ipc) (\<lambda>(k, t). abs_node ipc (NodeSubscribersTo k t)
       (log_edge False True (parseString ipc t))),
     abs_message (receiveIsServerFor ipc) (\<lambda>(k, v, c). abs_node ipc (NodeIsServerFor k v c) no_log),
     abs_message (receiveIsClientOf ipc) (\<lambda>(k, v, c). abs_node ipc (NodeIsClientOf k v c)
       (log_edge False False (parseString ipc c))),
     abs_message (receiveIsActionServerFor ipc) (\<lambda>(k, v, c). abs_node ipc (NodeIsActionServerFor k v c) no_log),
     abs_message (receiveIsActionClientOf ipc) (\<lambda>(k, v, c). abs_node ipc (NodeIsActionClientOf k v c)
       (log_edge False False (parseString ipc c))),
     abs_message (receiveState ipc) (\<lambda>(k, v, t). abs_node ipc (NodeState k v t) no_log),
     abs_message (receivePublishers ipc) (\<lambda>(k, p, e). abs_topic ipc (TopicPublishers k p e)
       (log_edge True False (parseString ipc p))),
     abs_message (receiveSubscribers ipc) (\<lambda>(k, p, e). abs_topic ipc (TopicSubscribers k p e) no_log)]"

definition abs_body :: "'w ipc \<Rightarrow> 'w abs_store \<Rightarrow> 'w abs_store" where
  "abs_body ipc = fold (\<lambda>f. f) (abs_steps ipc)"

section \<open>The abstraction\<close>

definition entries :: "'a dll \<Rightarrow> 'a entry list" where
  "entries d = map (\<lambda>a. the (payload d a)) (dll_addrs d)"

definition abs_of :: "('w, 'z) data_store_scheme \<Rightarrow> 'w abs_store" where
  "abs_of s = \<lparr>abNodes = entries (stNodes s), abTopics = entries (stTopics s), abUpdates = dsUpdates s,
     abWorld = dsWorld s\<rparr>"

lemma abs_of_frame [simp]:
  "abs_of (s\<lparr>dsHeld := h\<rparr>) = abs_of s" "abs_of (s\<lparr>dsTrace := t\<rparr>) = abs_of s"
  "abs_of (s\<lparr>dsWorld := w\<rparr>) = (abs_of s)\<lparr>abWorld := w\<rparr>"
  "abs_of (s\<lparr>dsUpdates := v\<rparr>) = (abs_of s)\<lparr>abUpdates := v\<rparr>"
  "abs_of (put_nodes d s) = (abs_of s)\<lparr>abNodes := entries d\<rparr>"
  "abs_of (put_topics d' s) = (abs_of s)\<lparr>abTopics := entries d'\<rparr>"
  by (simp_all add: abs_of_def put_nodes_def put_topics_def)

lemma abs_of_fields [simp]:
  "abNodes (abs_of s) = entries (stNodes s)" "abTopics (abs_of s) = entries (stTopics s)"
  "abUpdates (abs_of s) = dsUpdates s" "abWorld (abs_of s) = dsWorld s"
  by (simp_all add: abs_of_def)

section \<open>Implementing a function\<close>

text \<open>From a state in the invariant the operation succeeds, keeps the invariant, and does to the
  abstract store what the function does.\<close>

definition implements :: "member_ptr list \<Rightarrow> mutex list \<Rightarrow> (('w, 'z) data_store_scheme, unit) op \<Rightarrow>
    ('w abs_store \<Rightarrow> 'w abs_store) \<Rightarrow> bool" where
  "implements live h m f \<longleftrightarrow> (\<forall>s. loop_inv live h s \<longrightarrow>
     (\<exists>t. m s = Inr ((), t) \<and> loop_inv live h t \<and> abs_of t = f (abs_of s)))"

lemma implementsI:
  "(\<And>s. loop_inv live h s \<Longrightarrow> \<exists>t. m s = Inr ((), t) \<and> loop_inv live h t \<and> abs_of t = f (abs_of s)) \<Longrightarrow>
    implements live h m f"
  by (simp add: implements_def)

lemma implementsD:
  "implements live h m f \<Longrightarrow> loop_inv live h s \<Longrightarrow>
    \<exists>t. m s = Inr ((), t) \<and> loop_inv live h t \<and> abs_of t = f (abs_of s)"
  by (simp add: implements_def)

lemma implements_return: "implements live h (returnS ()) (\<lambda>a. a)"
  by (simp add: implements_def)

lemma implements_seq: "list_all2 (implements live h) ms fs \<Longrightarrow> implements live h (seqS ms) (fold (\<lambda>f. f) fs)"
proof (induction ms fs rule: list_all2_induct)
  case Nil
  then show ?case by (simp add: implements_def)
next
  case (Cons m ms f fs)
  show ?case
  proof (rule implementsI)
    fix s :: "('a, 'b) data_store_scheme" assume "loop_inv live h s"
    from implementsD [OF Cons(1) this] obtain t where
      t: "m s = Inr ((), t)" "loop_inv live h t" "abs_of t = f (abs_of s)" by blast
    from implementsD [OF Cons(3) t(2)] t show "\<exists>t. seqS (m # ms) s = Inr ((), t) \<and> loop_inv live h t
      \<and> abs_of t = fold (\<lambda>f. f) (f # fs) (abs_of s)" by (auto simp: bindS_def)
  qed
qed

lemma implements_locked:
  assumes "m \<notin> set h" "implements live (m # h) body f"
  shows "implements live h (locked m body) f"
proof (rule implementsI)
  fix s :: "('a, 'b) data_store_scheme"
  assume i: "loop_inv live h s"
  then have h: "dsHeld s = h" by (simp add: loop_inv_def)
  let ?s = "s\<lparr>dsTrace := dsTrace s @ [Locked m h], dsHeld := m # h\<rparr>"
  have "loop_inv live (m # h) ?s" using i by (auto simp: loop_inv_def)
  from implementsD [OF assms(2) this] obtain t where
    t: "body ?s = Inr ((), t)" "loop_inv live (m # h) t" "abs_of t = f (abs_of s)" by auto
  then have "loop_inv live h (t\<lparr>dsHeld := remove1 m (dsHeld t)\<rparr>)" by (auto simp: loop_inv_def)
  then show "\<exists>t. locked m body s = Inr ((), t) \<and> loop_inv live h t \<and> abs_of t = f (abs_of s)"
    using t assms(1) h by (simp add: locked_def)
qed

lemma implements_touch:
  assumes "implements live h body f"
  shows "implements live h (bindS (touch c) (\<lambda>_. body)) f"
proof (rule implementsI)
  fix s :: "('a, 'b) data_store_scheme" assume "loop_inv live h s"
  then have "loop_inv live h (s\<lparr>dsTrace := dsTrace s @ [Touched c (dsHeld s)]\<rparr>)" by simp
  from implementsD [OF assms this] show "\<exists>t. bindS (touch c) (\<lambda>_. body) s = Inr ((), t) \<and> loop_inv live h t
    \<and> abs_of t = f (abs_of s)" by (simp add: bindS_def touch_def)
qed

lemma implements_message:
  fixes handle :: "'m \<Rightarrow> (('w, 'z) data_store_scheme, unit) op"
  assumes "\<And>v. implements live h (handle v) (f v)"
  shows "implements live h (on_message receive handle) (abs_message receive f)"
proof (rule implementsI)
  fix s :: "('w, 'z) data_store_scheme" assume i: "loop_inv live h s"
  obtain r w where r: "receive (dsWorld s) = (r, w)" by force
  show "\<exists>t. on_message receive handle s = Inr ((), t) \<and> loop_inv live h t \<and> abs_of t = abs_message receive f (abs_of s)"
  proof (cases r)
    case None
    then show ?thesis using i r by (simp add: on_message_def bindS_def world_def abs_message_def)
  next
    case (Some v)
    have "loop_inv live h (s\<lparr>dsWorld := w\<rparr>)" using i by simp
    from implementsD [OF assms [of v] this] show ?thesis
      using Some r by (simp add: on_message_def bindS_def world_def abs_message_def)
  qed
qed

section \<open>The list operations seen from the entries\<close>

lemma payload_cell: "cell d a = Some e \<Longrightarrow> payload d a = Some (elInstance e, elRequestId e, elUseCounter e)"
  by (simp add: payload_def)

lemma item_entry: "cell d a = Some e \<Longrightarrow> fst (the (payload d a)) = item d a"
  by (simp add: payload_def item_def)

lemma used_entry: "cell d a = Some e \<Longrightarrow> entry_used (the (payload d a)) = used d a"
  by (simp add: payload_def entry_used_def used_def)

lemma ok_cells: "dll_ok d \<Longrightarrow> a \<in> set (dll_addrs d) \<Longrightarrow> \<exists>e. cell d a = Some e"
  by (rule dll_ok_cell)

lemma entry_keys_items:
  assumes "dll_ok d"
  shows "entry_keys (entries d) = mPrimaryKey ` set (dll_items d)"
  using ok_cells [OF assms] by (force simp: entry_keys_def entries_def dll_items_def contents_def item_entry image_iff)

lemma update_first_absent: "k \<notin> entry_keys es \<Longrightarrow> update_first k f es = es"
  by (induction es rule: update_first.induct) (auto simp: entry_keys_def)

lemma update_first_found:
  assumes "List.find (\<lambda>b. mPrimaryKey (item d b) = k) as = Some a" "distinct as"
    and "\<And>b. b \<in> set as \<Longrightarrow> \<exists>e. cell d b = Some e"
    and "\<And>b. payload d' b = (if b = a then map_option (apfst f) (payload d b) else payload d b)"
  shows "map (\<lambda>b. the (payload d' b)) as = update_first k f (map (\<lambda>b. the (payload d b)) as)"
  using assms(1-3)
proof (induction as)
  case (Cons b as)
  then obtain e where e: "cell d b = Some e" by auto
  show ?case
  proof (cases "mPrimaryKey (item d b) = k")
    case True
    then have "b = a" using Cons.prems(1) by simp
    moreover have "map (\<lambda>b. the (payload d' b)) as = map (\<lambda>b. the (payload d b)) as"
      using Cons.prems(2) assms(4) calculation by auto
    ultimately show ?thesis using True e assms(4) by (simp add: payload_cell item_def)
  next
    case False
    then have f: "List.find (\<lambda>b. mPrimaryKey (item d b) = k) as = Some a" using Cons.prems(1) by simp
    then have "a \<in> set as" using find_Some_set [OF f] by simp
    then have "b \<noteq> a" using Cons.prems(2) by auto
    then show ?thesis using False e Cons.IH [OF f] Cons.prems assms(4) by (simp add: payload_cell item_def)
  qed
qed simp

section \<open>Removing what is not used\<close>

lemma filter_entries:
  assumes "\<And>a. a \<in> set as \<Longrightarrow> \<exists>e. cell d a = Some e"
  shows "filter entry_used (map (\<lambda>a. the (payload d a)) as) = map (\<lambda>a. the (payload d a)) (filter (used d) as)"
    and "released (map (\<lambda>a. the (payload d a)) as) = map (rid_of d) (filter (\<lambda>a. \<not> used d a) as)"
proof -
  have u: "entry_used (the (payload d a)) = used d a" if "a \<in> set as" for a
    using assms [OF that] used_entry by blast
  show "filter entry_used (map (\<lambda>a. the (payload d a)) as) = map (\<lambda>a. the (payload d a)) (filter (used d) as)"
    using u by (simp add: filter_map comp_def cong: filter_cong)
  have "filter (\<lambda>a. \<not> entry_used (the (payload d a))) as = filter (\<lambda>a. \<not> used d a) as"
    using u by (auto cong: filter_cong)
  then show "released (map (\<lambda>a. the (payload d a)) as) = map (rid_of d) (filter (\<lambda>a. \<not> used d a) as)"
    by (simp add: released_def filter_map comp_def rid_of_def)
qed

lemma entries_used:
  assumes "dll_ok d"
  shows "filter entry_used (entries d) = map (\<lambda>a. the (payload d a)) (filter (used d) (dll_addrs d))"
    and "released (entries d) = map (rid_of d) (filter (\<lambda>a. \<not> used d a) (dll_addrs d))"
  unfolding entries_def by (rule filter_entries, rule ok_cells [OF assms], assumption)+

context list_field
begin

lemma sweep_entries:
  assumes ok: "store_ok s" "balanced live s" "ends_used (get s)" and m: "m \<notin> set (dsHeld s)"
  shows "\<exists>d t. sweep_list (Suc (length (dlMem (get s)))) get put m c ipc (mBegin (get s)) s
      = Inr ((), put d (s\<lparr>dsWorld := unsubscribe_all ipc (released (entries (get s))) (dsWorld s), dsTrace := t\<rparr>))
    \<and> store_ok (put d s) \<and> balanced live (put d s) \<and> ends_used d \<and> entries d = filter entry_used (entries (get s))"
proof -
  let ?as = "dll_addrs (get s)"
  have g: "dll_ok (get s)" by (rule store_ok_get [OF ok(1)])
  have rep: "rep (get s) ?as" using g by (simp add: dll_ok_def)
  have ends: "?as = [] \<or> used (get s) (hd ?as) \<and> used (get s) (last ?as)" using ok(3) by (simp add: ends_used_def)
  note f = entries_used [OF g]
  from sweep_rep [OF rep ends m, of c ipc] obtain d t where
    d: "sweep_list (Suc (length (dlMem (get s)))) get put m c ipc (mBegin (get s)) s
      = Inr ((), put d (s\<lparr>dsWorld := unsubscribe_all ipc (released (entries (get s))) (dsWorld s), dsTrace := t\<rparr>))"
    unfolding f(2) by blast
  from sweep_keeps [OF ok m, of c ipc] obtain d' w' t' where
    d': "sweep_list (Suc (length (dlMem (get s)))) get put m c ipc (mBegin (get s)) s
      = Inr ((), put d' (s\<lparr>dsWorld := w', dsTrace := t'\<rparr>))"
      "store_ok (put d' s)" "balanced live (put d' s)" "ends_used d'" "dll_addrs d' = filter (used (get s)) ?as"
      "\<forall>a\<in>set (dll_addrs d'). payload d' a = payload (get s) a"
    by blast
  have "put d (s\<lparr>dsWorld := unsubscribe_all ipc (released (entries (get s))) (dsWorld s), dsTrace := t\<rparr>)
    = put d' (s\<lparr>dsWorld := w', dsTrace := t'\<rparr>)" using d d'(1) by simp
  then have "d = d'" by (metis get_put)
  moreover have "entries d' = map (\<lambda>a. the (payload (get s) a)) (filter (used (get s)) ?as)"
    using d'(5,6) by (simp add: entries_def)
  then have "entries d' = filter entry_used (entries (get s))" by (simp only: f(1))
  ultimately show ?thesis using d d' by blast
qed

end

lemma implements_sweep_nodes:
  assumes "NodesMutex \<notin> set h"
  shows "implements live h (sweep_nodes ipc) (abs_sweep_nodes ipc)"
proof (rule implementsI)
  fix s :: "('a, 'b) data_store_scheme" assume i: "loop_inv live h s"
  then have "store_ok s" "balanced live s" "ends_used (stNodes s)" "NodesMutex \<notin> set (dsHeld s)"
    using assms by (auto simp: loop_inv_def)
  from nodes.sweep_entries [OF this, of NodeList ipc] obtain d t where
    d: "sweep_nodes ipc s = Inr ((), put_nodes d
      (s\<lparr>dsWorld := unsubscribe_all ipc (released (entries (stNodes s))) (dsWorld s), dsTrace := t\<rparr>))"
    "store_ok (put_nodes d s)" "balanced live (put_nodes d s)" "ends_used d"
    "entries d = filter entry_used (entries (stNodes s))"
    unfolding sweep_nodes_def by blast
  then show "\<exists>t. sweep_nodes ipc s = Inr ((), t) \<and> loop_inv live h t \<and> abs_of t = abs_sweep_nodes ipc (abs_of s)"
    using loop_inv_put(1) [OF i, of d] by (simp add: abs_sweep_nodes_def)
qed

lemma implements_sweep_topics:
  assumes "TopicsMutex \<notin> set h"
  shows "implements live h (sweep_topics ipc) (abs_sweep_topics ipc)"
proof (rule implementsI)
  fix s :: "('a, 'b) data_store_scheme" assume i: "loop_inv live h s"
  then have "store_ok s" "balanced live s" "ends_used (stTopics s)" "TopicsMutex \<notin> set (dsHeld s)"
    using assms by (auto simp: loop_inv_def)
  from topics.sweep_entries [OF this, of TopicList ipc] obtain d t where
    d: "sweep_topics ipc s = Inr ((), put_topics d
      (s\<lparr>dsWorld := unsubscribe_all ipc (released (entries (stTopics s))) (dsWorld s), dsTrace := t\<rparr>))"
    "store_ok (put_topics d s)" "balanced live (put_topics d s)" "ends_used d"
    "entries d = filter entry_used (entries (stTopics s))"
    unfolding sweep_topics_def by blast
  then show "\<exists>t. sweep_topics ipc s = Inr ((), t) \<and> loop_inv live h t \<and> abs_of t = abs_sweep_topics ipc (abs_of s)"
    using loop_inv_put(2) [OF i, of d] by (simp add: abs_sweep_topics_def)
qed

section \<open>Updates\<close>

context member_list
begin

text \<open>Searching by key and updating what is found, seen from the entries.\<close>

lemma find_and_update_entries:
  fixes f :: "'m member_scheme \<Rightarrow> 'm member_scheme"
  assumes ok: "store_ok s" "balanced live s" "ends_used (get s)"
    and key: "\<And>x. mPrimaryKey (f x) = mPrimaryKey x"
  shows "dll_find k (get s) = Inr None \<and> k \<notin> entry_keys (entries (get s))
    \<or> (\<exists>a d e. dll_find k (get s) = Inr (Some a) \<and> k \<in> entry_keys (entries (get s))
        \<and> on_instance (Some a) f (get s) = Inr ((), d) \<and> store_ok (put d s) \<and> balanced live (put d s)
        \<and> ends_used d \<and> entries d = update_first k f (entries (get s))
        \<and> cell d a = Some e \<and> mPrimaryKey (elInstance e) = k)"
proof -
  have g: "dll_ok (get s)" by (rule store_ok_get [OF ok(1)])
  have rep: "rep (get s) (dll_addrs (get s))" using g by (simp add: dll_ok_def)
  have fd: "dll_find k (get s) = Inr (List.find (\<lambda>a. mPrimaryKey (item (get s) a) = k) (dll_addrs (get s)))"
    unfolding dll_find_def by (rule find_rep [OF rep])
  from find_and_update [OF ok, of k f] show ?thesis
  proof (elim disjE exE conjE)
    assume n: "dll_find k (get s) = Inr None"
    then have "k \<notin> mPrimaryKey ` set (dll_items (get s))" using dll_find_ok [OF g, of k] by auto
    then show ?thesis using n entry_keys_items [OF g] by simp
  next
    fix a d
    assume a: "dll_find k (get s) = Inr (Some a)" "a \<in> set (dll_addrs (get s))"
      "on_instance (Some a) f (get s) = Inr ((), d)" "store_ok (put d s)" "balanced live (put d s)" "ends_used d"
      "dll_addrs d = dll_addrs (get s)"
    from a(3) obtain e where e: "cell (get s) a = Some e" "d = set_cell a (Some (e\<lparr>elInstance := f (elInstance e)\<rparr>)) (get s)"
      by (auto simp: on_instance_def modify_def deref_Inr)
    have p: "payload d b = (if b = a then map_option (apfst f) (payload (get s) b) else payload (get s) b)" for b
      using e cell_Some_less [OF e(1)] by (simp add: payload_def)
    have fnd: "List.find (\<lambda>b. mPrimaryKey (item (get s) b) = k) (dll_addrs (get s)) = Some a" using a(1) fd by simp
    have "entries d = update_first k f (entries (get s))" unfolding entries_def a(7)
      by (rule update_first_found [OF fnd _ ok_cells [OF g] p]) (use rep in \<open>simp_all add: rep_def\<close>)
    moreover have k: "mPrimaryKey (elInstance e) = k" using find_Some_set [OF fnd] e(1) by (simp add: item_def)
    moreover have "k \<in> entry_keys (entries (get s))"
      using find_Some_set [OF fnd] unfolding entry_keys_items [OF g] by (auto simp: dll_items_def contents_def)
    moreover have "cell d a = Some (e\<lparr>elInstance := f (elInstance e)\<rparr>)" using e cell_Some_less [OF e(1)] by simp
    ultimately show ?thesis using a key by auto
  qed
qed

end

text \<open>What follows an update logs an edge, or nothing, for the member with the key.\<close>

definition logs_after :: "member_ptr list \<Rightarrow> mutex list \<Rightarrow> (('w, 'z) data_store_scheme \<Rightarrow> 'm member_scheme dll) \<Rightarrow>
    (nat option \<Rightarrow> (('w, 'z) data_store_scheme, unit) op) \<Rightarrow> (string \<Rightarrow> 'w abs_store \<Rightarrow> 'w abs_store) \<Rightarrow> bool" where
  "logs_after live h get after f \<longleftrightarrow> (\<forall>s a e. loop_inv live h s \<and> cell (get s) a = Some e \<longrightarrow>
     (\<exists>t. after (Some a) s = Inr ((), t) \<and> loop_inv live h t
        \<and> abs_of t = f (mPrimaryKey (elInstance e)) (abs_of s)))"

lemma logs_nothing: "logs_after live h get (\<lambda>_. returnS ()) no_log"
  by (simp add: logs_after_def no_log_def)

lemma logs_edge:
  assumes "UpdatesMutex \<notin> set h" "\<And>s t h. get (s\<lparr>dsHeld := h, dsTrace := t\<rparr>) = get s"
  shows "logs_after live h get (\<lambda>it. add_update get b c it other) (log_edge b c other)"
  unfolding logs_after_def
proof (intro allI impI, elim conjE)
  fix s :: "('a, 'b) data_store_scheme" and a e
  assume i: "loop_inv live h s" and e: "cell (get s) a = Some e"
  then show "\<exists>t. add_update get b c (Some a) other s = Inr ((), t) \<and> loop_inv live h t
    \<and> abs_of t = log_edge b c other (mPrimaryKey (elInstance e)) (abs_of s)"
    using assms by (auto simp: add_update_def locked_def touch_def loop_inv_def bindS_def log_edge_def)
qed

lemma implements_handle_node:
  assumes "NodesMutex \<notin> set h" "logs_after live (NodesMutex # h) stNodes after f"
  shows "implements live h (handle_node ipc u after) (abs_node ipc u f)"
  unfolding handle_node_def
proof (rule implements_locked [OF assms(1) implements_touch], rule implementsI)
  fix s :: "('a, 'b) data_store_scheme" assume i: "loop_inv live (NodesMutex # h) s"
  let ?k = "parseString ipc (nuKey u)"
  let ?m = "bindS (getsR (\<lambda>s. dll_find ?k (stNodes s))) (\<lambda>it.
      if it \<noteq> None
      then bindS (list_op stNodes put_nodes (on_instance it (node_apply ipc u))) (\<lambda>_. after it)
      else returnS ())"
  have ok: "store_ok s" "balanced live s" "ends_used (stNodes s)" using i by (auto simp: loop_inv_def)
  have key: "mPrimaryKey ((node_apply ipc u) x) = mPrimaryKey x" for x by simp
  from node_list.find_and_update_entries [OF ok key, of ?k]
  show "\<exists>t. ?m s = Inr ((), t) \<and> loop_inv live (NodesMutex # h) t \<and> abs_of t = abs_node ipc u f (abs_of s)"
  proof (elim disjE exE conjE)
    assume "dll_find ?k (stNodes s) = Inr None" "?k \<notin> entry_keys (entries (stNodes s))"
    then show ?thesis using i by (simp add: bindS_def getsR_def abs_node_def Let_def)
  next
    fix a d e
    assume d: "dll_find ?k (stNodes s) = Inr (Some a)" "?k \<in> entry_keys (entries (stNodes s))"
      "on_instance (Some a) (node_apply ipc u) (stNodes s) = Inr ((), d)" "store_ok (put_nodes d s)"
      "balanced live (put_nodes d s)" "ends_used d" "entries d = update_first ?k (node_apply ipc u) (entries (stNodes s))"
      "cell d a = Some e" "mPrimaryKey (elInstance e) = ?k"
    have "loop_inv live (NodesMutex # h) (put_nodes d s)" using loop_inv_put(1) [OF i d(4-6)] .
    moreover have "cell (stNodes (put_nodes d s)) a = Some e" using d(8) by simp
    ultimately obtain t where t: "after (Some a) (put_nodes d s) = Inr ((), t)" "loop_inv live (NodesMutex # h) t"
      "abs_of t = f (mPrimaryKey (elInstance e)) (abs_of (put_nodes d s))"
      using assms(2) unfolding logs_after_def by blast
    have "?m s = after (Some a) (put_nodes d s)" using d(1,3) by (simp add: list_op_def bindS_def getsR_def)
    then show ?thesis using t d(2,7,9) by (simp add: abs_node_def Let_def)
  qed
qed

lemma implements_handle_topic:
  assumes "TopicsMutex \<notin> set h" "logs_after live (TopicsMutex # h) stTopics after f"
  shows "implements live h (handle_topic ipc u after) (abs_topic ipc u f)"
  unfolding handle_topic_def
proof (rule implements_locked [OF assms(1) implements_touch], rule implementsI)
  fix s :: "('a, 'b) data_store_scheme" assume i: "loop_inv live (TopicsMutex # h) s"
  let ?k = "parseString ipc (tuKey u)"
  let ?m = "bindS (getsR (\<lambda>s. dll_find ?k (stTopics s))) (\<lambda>it.
      if it \<noteq> None
      then bindS (list_op stTopics put_topics (on_instance it (topic_apply u))) (\<lambda>_. after it)
      else returnS ())"
  have ok: "store_ok s" "balanced live s" "ends_used (stTopics s)" using i by (auto simp: loop_inv_def)
  have key: "mPrimaryKey ((topic_apply u) x) = mPrimaryKey x" for x by simp
  from topic_list.find_and_update_entries [OF ok key, of ?k]
  show "\<exists>t. ?m s = Inr ((), t) \<and> loop_inv live (TopicsMutex # h) t \<and> abs_of t = abs_topic ipc u f (abs_of s)"
  proof (elim disjE exE conjE)
    assume "dll_find ?k (stTopics s) = Inr None" "?k \<notin> entry_keys (entries (stTopics s))"
    then show ?thesis using i by (simp add: bindS_def getsR_def abs_topic_def Let_def)
  next
    fix a d e
    assume d: "dll_find ?k (stTopics s) = Inr (Some a)" "?k \<in> entry_keys (entries (stTopics s))"
      "on_instance (Some a) (topic_apply u) (stTopics s) = Inr ((), d)" "store_ok (put_topics d s)"
      "balanced live (put_topics d s)" "ends_used d" "entries d = update_first ?k (topic_apply u) (entries (stTopics s))"
      "cell d a = Some e" "mPrimaryKey (elInstance e) = ?k"
    have "loop_inv live (TopicsMutex # h) (put_topics d s)" using loop_inv_put(2) [OF i d(4-6)] .
    moreover have "cell (stTopics (put_topics d s)) a = Some e" using d(8) by simp
    ultimately obtain t where t: "after (Some a) (put_topics d s) = Inr ((), t)" "loop_inv live (TopicsMutex # h) t"
      "abs_of t = f (mPrimaryKey (elInstance e)) (abs_of (put_topics d s))"
      using assms(2) unfolding logs_after_def by blast
    have "?m s = after (Some a) (put_topics d s)" using d(1,3) by (simp add: list_op_def bindS_def getsR_def)
    then show ?thesis using t d(2,7,9) by (simp add: abs_topic_def Let_def)
  qed
qed

section \<open>The loop\<close>

lemma implements_run_body: "implements live [] (run_body ipc) (abs_body ipc)"
proof -
  have node: "implements live [] (handle_node ipc u after) (abs_node ipc u f)"
    if "logs_after live [NodesMutex] stNodes after f" for u after f
    using that by (intro implements_handle_node) simp_all
  have topic: "implements live [] (handle_topic ipc u after) (abs_topic ipc u f)"
    if "logs_after live [TopicsMutex] stTopics after f" for u after f
    using that by (intro implements_handle_topic) simp_all
  have log: "logs_after live [NodesMutex] stNodes (\<lambda>it. addSubUpdate it k) (log_edge False True k)"
    "logs_after live [NodesMutex] stNodes (\<lambda>it. addSendUpdate it k) (log_edge False False k)"
    "logs_after live [TopicsMutex] stTopics (\<lambda>it. addPubUpdate it k) (log_edge True False k)" for k
    unfolding addSubUpdate_def addSendUpdate_def addPubUpdate_def by (rule logs_edge; simp)+
  have sweeps: "implements live [] (sweep_nodes ipc) (abs_sweep_nodes ipc)"
    "implements live [] (sweep_topics ipc) (abs_sweep_topics ipc)"
    by (simp_all add: implements_sweep_nodes implements_sweep_topics)
  show ?thesis
    unfolding run_body_def abs_body_def abs_steps_def
    by (rule implements_seq, simp only: list_all2_Cons list_all2_Nil sweeps simp_thms Data_Store.update_defs, intro conjI)
      (rule implements_message, clarsimp, rule node topic, rule log logs_nothing)+
qed


text \<open>A store with one topic, and a monitor that announces a publisher for it.\<close>

definition demo_announced :: "peer data_store" where
  "demo_announced = (demo_ds demo_store)\<lparr>dsWorld := peer_init\<lparr>pePublishers := [(''a'', ''p'', ''e'')]\<rparr>\<rparr>"


end
