(* ===== verification/Graph_View.thy ===== *)
theory Graph_View
  imports Data_Store
begin

text \<open>
  \<open>getFullGraphView\<close> of \<^verbatim>\<open>src/dynamic-subgraph/data-store.cpp\<close>: ask the monitor for the whole graph,
  put the textual packages together, parse the text as JSON and turn it into a graph view. The
  JSON library is code outside the repository: its functions are the fields of the argument \<open>js\<close>.
\<close>

record 'j json =
  jsParse :: "string \<Rightarrow> 'j result"
  jsAt :: "string \<Rightarrow> 'j \<Rightarrow> 'j result"
  jsAtIndex :: "nat \<Rightarrow> 'j \<Rightarrow> 'j result"
  jsSub :: "string \<Rightarrow> 'j \<Rightarrow> 'j result"
  jsItems :: "'j \<Rightarrow> 'j list"
  jsIsNull :: "'j \<Rightarrow> bool"
  jsIsObject :: "'j \<Rightarrow> bool"
  jsString :: "'j \<Rightarrow> string result"
  jsIsArray :: "'j \<Rightarrow> bool"
  jsEmpty :: "'j \<Rightarrow> bool"
  jsStrings :: "'j \<Rightarrow> string list result"

section \<open>Receiving the text\<close>

text \<open>
  The loop stops when a package's number reaches its total. It never ends if the totals keep
  growing; then it has no value (\<open>None\<close>).
\<close>

partial_function (option) receive_lines ::
  "'w ipc \<Rightarrow> string \<Rightarrow> nat \<Rightarrow> string \<Rightarrow> 'w \<Rightarrow> (string \<times> 'w) result option" where
  "receive_lines ipc channel previousNumber text w =
     (case shmReceive ipc channel w of (response, w') \<Rightarrow>
        if rsType response \<noteq> TEXTUAL then Some (Inl AssertionFailure)
        else if \<not> previousNumber < rsNumber response then Some (Inl AssertionFailure)
        else if rsNumber response < rsTotal response
        then receive_lines ipc channel (rsNumber response) (text @ parseString ipc (rsLine response)) w'
        else Some (Inr (text @ parseString ipc (rsLine response), w')))"

section \<open>From JSON to the view\<close>

definition jsKey :: "'j json \<Rightarrow> 'j \<Rightarrow> string result" where
  "jsKey js v = bindR (jsSub js ''primaryKey'' v) (jsString js)"

definition navigate :: "'j json \<Rightarrow> 'j \<Rightarrow> 'j result" where
  "navigate js v =
     bindR (jsAt js ''results'' v) (\<lambda>v. bindR (jsAtIndex js 0 v) (\<lambda>v.
     bindR (jsAt js ''data'' v) (\<lambda>v. bindR (jsAtIndex js 0 v) (\<lambda>v.
     bindR (jsAt js ''row'' v) (\<lambda>v. bindR (jsAtIndex js 0 v) (\<lambda>v.
     bindR (assertR (jsIsObject js v)) (\<lambda>_. Inr v)))))))"

definition view_active :: "'j json \<Rightarrow> 'j \<Rightarrow> graph_view \<Rightarrow> graph_view result" where
  "view_active js n view = bindR (jsKey js n) (\<lambda>primaryKey.
     Inr (view @ [\<lparr>mcMember = proxy_of_key primaryKey False, mcConnections = []\<rparr>]))"

definition view_passive :: "'j json \<Rightarrow> (string \<Rightarrow> bool) \<Rightarrow> 'j \<Rightarrow> graph_view \<Rightarrow> graph_view result" where
  "view_passive js ignored t view = bindR (jsKey js t) (\<lambda>primaryKey.
     if ignored primaryKey then Inr view
     else Inr (view @ [\<lparr>mcMember = proxy_of_key primaryKey True, mcConnections = []\<rparr>]))"

text \<open>
  The three edge loops have one shape: skip a null relation, read the two keys, skip an ignored
  topic, and append to the first vertex with the source's key, which must be there.
\<close>

definition view_edge ::
  "'j json \<Rightarrow> (string \<Rightarrow> string \<Rightarrow> bool) \<Rightarrow> bool \<Rightarrow> 'j \<Rightarrow> graph_view \<Rightarrow> graph_view result" where
  "view_edge js skip toTopic e view = bindR (jsSub js ''rel'' e) (\<lambda>rel.
     if jsIsNull js rel then Inr view
     else bindR (bindR (jsSub js ''from'' e) (jsKey js)) (\<lambda>fromPrimaryKey.
       bindR (bindR (jsSub js ''to'' e) (jsKey js)) (\<lambda>toPrimaryKey.
       if skip fromPrimaryKey toPrimaryKey then Inr view
       else let it = find_if (\<lambda>element. pxPrimaryKey (mcMember element) = fromPrimaryKey) view
         in bindR (assertR (it \<noteq> length view)) (\<lambda>_.
            Inr (view[it := (view ! it)\<lparr>mcConnections := mcConnections (view ! it) @ [proxy_of_key toPrimaryKey toTopic]\<rparr>])))))"

definition build_view :: "'j json \<Rightarrow> (string \<Rightarrow> bool) \<Rightarrow> 'j \<Rightarrow> graph_view result" where
  "build_view js ignored v =
     bindR (jsSub js ''active'' v) (\<lambda>active. bindR (foldR (view_active js) (jsItems js active) []) (\<lambda>out1.
     bindR (jsSub js ''passive'' v) (\<lambda>passive. bindR (foldR (view_passive js ignored) (jsItems js passive) out1) (\<lambda>out2.
     bindR (jsSub js ''sub'' v) (\<lambda>sub.
     bindR (foldR (view_edge js (\<lambda>from to. ignored from) False) (jsItems js sub) out2) (\<lambda>out3.
     bindR (jsSub js ''pub'' v) (\<lambda>pub.
     bindR (foldR (view_edge js (\<lambda>from to. ignored to) True) (jsItems js pub) out3) (\<lambda>out4.
     bindR (jsSub js ''send'' v) (\<lambda>send.
     foldR (view_edge js (\<lambda>from to. False) False) (jsItems js send) out4)))))))))"

text \<open>The text of the query, which the code spells out character by character in its packages.\<close>

definition graph_query :: string where
  "graph_query =
     ''OPTIONAL MATCH (a:Active) WHERE (a)-[:publishing]->() OR ()-[:subscribing]->(a) OR (a)-[:sending]->() OR ()-[:sending]->(a) OR (a)-[:timer]->() WITH a OPTIONAL MATCH (p:Passive) WHERE ()-[:publishing]->(p) OR (p)-[:subscribing]->() WITH a,p OPTIONAL MATCH (a)-[pub:publishing]->(p) WITH a,p,pub OPTIONAL MATCH (p)-[sub:subscribing]->(a) WITH a,p,pub,sub OPTIONAL MATCH (a)-[send:sending]->(target) RETURN { active: collect(DISTINCT a), passive: collect(DISTINCT p), pub: collect(DISTINCT { from: startNode(pub), to: endNode(pub), rel: pub}), sub: collect(DISTINCT { from: startNode(sub), to: endNode(sub), rel: sub}), send: collect(DISTINCT { from: startNode(send), to: endNode(send), rel: send}) } AS result''"

definition getFullGraphView ::
  "'w ipc \<Rightarrow> 'j json \<Rightarrow> (('w, 'z) data_store_scheme, graph_view) op" where
  "getFullGraphView ipc js =
     bindS (world (sendCustomMemberRequest ipc graph_query False)) (\<lambda>requestId.
     bindS (receive_value (receiveCustomMemberResponse ipc)) (\<lambda>resp.
     bindS (liftR (assertR (arRequestId resp = requestId))) (\<lambda>_.
     bindS (\<lambda>s. bindR (or_diverges (receive_lines ipc (c_str (arMemAddress resp)) 0 '''' (dsWorld s)))
       (\<lambda>(text, w). Inr (text, s\<lparr>dsWorld := w\<rparr>))) (\<lambda>text.
     getsR (\<lambda>s. bindR (jsParse js text) (\<lambda>v. bindR (navigate js v) (\<lambda>v.
       build_view js (\<lambda>k. checkTopicPrimaryIgnored k s) v)))))))"

section \<open>The view a well-formed answer stands for\<close>

text \<open>
  A well-formed answer reads as two lists of keys and three lists of edges (\<open>None\<close> for an edge
  whose relation is null). \<open>reference_view\<close> is the view it stands for, written down directly: the
  vertices without ignored topics, each with its edges.
\<close>

definition edge_ends :: "'j json \<Rightarrow> 'j \<Rightarrow> (string \<times> string) option result" where
  "edge_ends js e = bindR (jsSub js ''rel'' e) (\<lambda>rel.
     if jsIsNull js rel then Inr None
     else bindR (bindR (jsSub js ''from'' e) (jsKey js)) (\<lambda>from.
       bindR (bindR (jsSub js ''to'' e) (jsKey js)) (\<lambda>to. Inr (Some (from, to)))))"

definition reads_as :: "'j json \<Rightarrow> 'j \<Rightarrow> string \<Rightarrow> ('j \<Rightarrow> 'a result) \<Rightarrow> 'a list \<Rightarrow> bool" where
  "reads_as js v field reader xs \<longleftrightarrow>
     (\<exists>w. jsSub js field v = Inr w \<and> map reader (jsItems js w) = map Inr xs)"

definition edges_from :: "(string \<Rightarrow> string \<Rightarrow> bool) \<Rightarrow> bool \<Rightarrow> (string \<times> string) option list \<Rightarrow> string \<Rightarrow> member_proxies" where
  "edges_from skip toTopic es k = concat (map (\<lambda>e. case e of None \<Rightarrow> [] | Some (from, to) \<Rightarrow>
     if from = k \<and> \<not> skip from to then [proxy_of_key to toTopic] else []) es)"

definition mk_view :: "member_proxies \<Rightarrow> (string \<Rightarrow> member_proxies) \<Rightarrow> graph_view" where
  "mk_view ms f = map (\<lambda>m. \<lparr>mcMember = m, mcConnections = f (pxPrimaryKey m)\<rparr>) ms"

definition vertices_of :: "(string \<Rightarrow> bool) \<Rightarrow> string list \<Rightarrow> string list \<Rightarrow> member_proxies" where
  "vertices_of ignored active passive =
     map (\<lambda>k. proxy_of_key k False) active @ map (\<lambda>k. proxy_of_key k True) (filter (\<lambda>k. \<not> ignored k) passive)"

definition reference_view :: "(string \<Rightarrow> bool) \<Rightarrow> string list \<Rightarrow> string list \<Rightarrow>
    (string \<times> string) option list \<Rightarrow> (string \<times> string) option list \<Rightarrow> (string \<times> string) option list \<Rightarrow> graph_view" where
  "reference_view ignored active passive subs pubs sends = mk_view (vertices_of ignored active passive)
     (\<lambda>k. edges_from (\<lambda>from to. ignored from) False subs k @ edges_from (\<lambda>from to. ignored to) True pubs k
        @ edges_from (\<lambda>from to. False) False sends k)"

definition sources_known :: "(string \<Rightarrow> string \<Rightarrow> bool) \<Rightarrow> member_proxies \<Rightarrow> (string \<times> string) option list \<Rightarrow> bool" where
  "sources_known skip ms es \<longleftrightarrow> (\<forall>from to. Some (from, to) \<in> set es \<and> \<not> skip from to \<longrightarrow> from \<in> pxPrimaryKey ` set ms)"

lemma edges_from_simps [simp]:
  "edges_from skip t [] k = []"
  "edges_from skip t (None # es) k = edges_from skip t es k"
  "edges_from skip t (Some (a, b) # es) k =
     (if a = k \<and> \<not> skip a b then [proxy_of_key b t] else []) @ edges_from skip t es k"
  by (simp_all add: edges_from_def)

lemma foldR_active:
  "map (jsKey js) ns = map Inr ks \<Longrightarrow>
    foldR (view_active js) ns view = Inr (view @ mk_view (map (\<lambda>k. proxy_of_key k False) ks) (\<lambda>_. []))"
proof (induction ns arbitrary: view ks)
  case (Cons n ns)
  then obtain k ks' where "ks = k # ks'" "jsKey js n = Inr k" "map (jsKey js) ns = map Inr ks'" by auto
  with Cons.IH show ?case by (simp add: view_active_def mk_view_def)
qed (simp add: mk_view_def)

lemma foldR_passive:
  "map (jsKey js) ns = map Inr ks \<Longrightarrow> foldR (view_passive js ignored) ns view
     = Inr (view @ mk_view (map (\<lambda>k. proxy_of_key k True) (filter (\<lambda>k. \<not> ignored k) ks)) (\<lambda>_. []))"
proof (induction ns arbitrary: view ks)
  case (Cons n ns)
  then obtain k ks' where "ks = k # ks'" "jsKey js n = Inr k" "map (jsKey js) ns = map Inr ks'" by auto
  with Cons.IH show ?case by (simp add: view_passive_def mk_view_def)
qed (simp add: mk_view_def)

lemma mk_view_append_edge:
  assumes "distinct (map pxPrimaryKey ms)" "k \<in> pxPrimaryKey ` set ms"
    and it_def: "it = find_if (\<lambda>element. pxPrimaryKey (mcMember element) = k) (mk_view ms f)"
  shows "it \<noteq> length (mk_view ms f)"
    and "(mk_view ms f)[it := (mk_view ms f ! it)\<lparr>mcConnections := mcConnections (mk_view ms f ! it) @ [p]\<rparr>]
      = mk_view ms (f(k := f k @ [p]))"
proof -
  let ?P = "\<lambda>element. pxPrimaryKey (mcMember element) = k"
  have "\<exists>x\<in>set (mk_view ms f). ?P x" using assms(2) by (auto simp: mk_view_def)
  then have it: "it < length ms" unfolding it_def using find_if_less_iff [of ?P "mk_view ms f"] by (simp add: mk_view_def)
  then show "it \<noteq> length (mk_view ms f)" by (simp add: mk_view_def)
  have "?P (mk_view ms f ! it)" unfolding it_def
    by (rule find_if_nth) (use it in \<open>simp add: it_def mk_view_def\<close>)
  then have k: "pxPrimaryKey (ms ! it) = k" using it by (simp add: mk_view_def)
  show "(mk_view ms f)[it := (mk_view ms f ! it)\<lparr>mcConnections := mcConnections (mk_view ms f ! it) @ [p]\<rparr>]
      = mk_view ms (f(k := f k @ [p]))"
  proof (rule nth_equalityI)
    fix i assume "i < length ((mk_view ms f)[it := (mk_view ms f ! it)\<lparr>mcConnections := mcConnections (mk_view ms f ! it) @ [p]\<rparr>])"
    then have i: "i < length ms" by (simp add: mk_view_def)
    have "i \<noteq> it \<Longrightarrow> pxPrimaryKey (ms ! i) \<noteq> k"
      using assms(1) i it k by (metis distinct_conv_nth length_map nth_map)
    then show "(mk_view ms f)[it := (mk_view ms f ! it)\<lparr>mcConnections := mcConnections (mk_view ms f ! it) @ [p]\<rparr>] ! i
        = mk_view ms (f(k := f k @ [p])) ! i"
      using i it k by (cases "i = it") (auto simp: mk_view_def)
  qed (simp add: mk_view_def)
qed

lemma foldR_edges:
  "map (edge_ends js) xs = map Inr es \<Longrightarrow> distinct (map pxPrimaryKey ms) \<Longrightarrow> sources_known skip ms es \<Longrightarrow>
    foldR (view_edge js skip toTopic) xs (mk_view ms f)
      = Inr (mk_view ms (\<lambda>k. f k @ edges_from skip toTopic es k))"
proof (induction xs arbitrary: es f)
  case (Cons x xs)
  then obtain e es' where es: "es = e # es'" "edge_ends js x = Inr e" "map (edge_ends js) xs = map Inr es'"
    by auto
  have known: "sources_known skip ms es'" using Cons.prems(3) es(1) by (auto simp: sources_known_def)
  note IH = Cons.IH [OF es(3) Cons.prems(2) known]
  show ?case
  proof (cases e)
    case None
    then have "view_edge js skip toTopic x (mk_view ms f) = Inr (mk_view ms f)"
      using es(2) by (auto simp: edge_ends_def view_edge_def bindR_def split: sum.splits if_splits)
    then show ?thesis using IH es(1) None by simp
  next
    case (Some ab)
    obtain a b where ab: "ab = (a, b)" by force
    have rd: "\<exists>rel. jsSub js ''rel'' x = Inr rel \<and> \<not> jsIsNull js rel"
      "bindR (jsSub js ''from'' x) (jsKey js) = Inr a" "bindR (jsSub js ''to'' x) (jsKey js) = Inr b"
      using es(2) Some ab by (auto simp: edge_ends_def bindR_def split: sum.splits if_splits)
    show ?thesis
    proof (cases "skip a b")
      case True
      then show ?thesis using rd IH es(1) Some ab by (auto simp: view_edge_def)
    next
      case False
      then have "a \<in> pxPrimaryKey ` set ms"
        using Cons.prems(3) es(1) Some ab by (auto simp: sources_known_def)
      with mk_view_append_edge(1) [OF Cons.prems(2) _ refl, where f = f and k = a]
        mk_view_append_edge(2) [OF Cons.prems(2) _ refl, where f = f and k = a and p = "proxy_of_key b toTopic"]
      have "view_edge js skip toTopic x (mk_view ms f) = Inr (mk_view ms (f(a := f a @ [proxy_of_key b toTopic])))"
        using rd False by (auto simp: view_edge_def Let_def)
      moreover have "(\<lambda>k. (f(a := f a @ [proxy_of_key b toTopic])) k @ edges_from skip toTopic es' k)
          = (\<lambda>k. f k @ edges_from skip toTopic es k)"
        using es(1) Some ab False by (auto simp: fun_eq_iff)
      ultimately show ?thesis using IH by simp
    qed
  qed
qed simp

lemma receive_lines_ends:
  assumes "\<And>w. rsTotal (fst (shmReceive ipc ch w)) \<le> bound"
  shows "receive_lines ipc ch prev acc w \<noteq> None"
proof (induction "bound - prev" arbitrary: prev acc w rule: less_induct)
  case less
  obtain r w' where r: "shmReceive ipc ch w = (r, w')" by force
  show ?case
  proof (cases "prev < rsNumber r \<and> rsNumber r < rsTotal r")
    case True
    then have "bound - rsNumber r < bound - prev" using assms [of w] r by auto
    from less [OF this] show ?thesis using r by (subst receive_lines.simps) simp
  next
    case False
    then show ?thesis using r by (subst receive_lines.simps) auto
  qed
qed

lemma receive_lines_step:
  assumes "\<And>i. i < n \<Longrightarrow> shmReceive ipc ch (ws i) = (packet i, ws (Suc i)) \<and> rsType (packet i) = TEXTUAL
      \<and> rsNumber (packet i) = Suc i \<and> rsTotal (packet i) = n"
    and "k < n"
  shows "receive_lines ipc ch k acc (ws k)
    = Some (Inr (acc @ concat (map (\<lambda>i. parseString ipc (rsLine (packet i))) [k..<n]), ws n))"
  using assms(2)
proof (induction "n - k" arbitrary: k acc)
  case (Suc d)
  have r: "shmReceive ipc ch (ws k) = (packet k, ws (Suc k))" "rsType (packet k) = TEXTUAL"
    "rsNumber (packet k) = Suc k" "rsTotal (packet k) = n" using assms(1) [OF Suc.prems] by simp_all
  have up: "[k..<n] = k # [Suc k..<n]" using Suc.prems by (rule upt_conv_Cons)
  show ?case
  proof (cases "Suc k < n")
    case True
    then show ?thesis
      using Suc.hyps(1) [of "Suc k" "acc @ parseString ipc (rsLine (packet k))"] Suc.hyps(2) r
      by (subst receive_lines.simps) (simp add: up)
  next
    case False
    then have "n = Suc k" using Suc.prems by simp
    then show ?thesis using r by (subst receive_lines.simps) simp
  qed
qed simp

section \<open>A concrete JSON library\<close>

datatype demo_json = DNull | DString string | DArray "demo_json list" | DObject "(string \<times> demo_json) list"

definition demo_sub :: "string \<Rightarrow> demo_json \<Rightarrow> demo_json result" where
  "demo_sub k v = (case v of
     DObject fs \<Rightarrow> (case map_of fs k of None \<Rightarrow> Inl JsonError | Some x \<Rightarrow> Inr x) | _ \<Rightarrow> Inl JsonError)"

definition demo_js :: "demo_json json" where
  "demo_js = \<lparr>jsParse = (\<lambda>t. Inl JsonError), jsAt = demo_sub,
     jsAtIndex = (\<lambda>i v. case v of DArray xs \<Rightarrow> if i < length xs then Inr (xs ! i) else Inl JsonError | _ \<Rightarrow> Inl JsonError),
     jsSub = demo_sub, jsItems = (\<lambda>v. case v of DArray xs \<Rightarrow> xs | _ \<Rightarrow> []),
     jsIsNull = (\<lambda>v. v = DNull), jsIsObject = (\<lambda>v. case v of DObject _ \<Rightarrow> True | _ \<Rightarrow> False),
     jsString = (\<lambda>v. case v of DString t \<Rightarrow> Inr t | _ \<Rightarrow> Inl JsonError),
     jsIsArray = (\<lambda>v. case v of DArray _ \<Rightarrow> True | _ \<Rightarrow> False),
     jsEmpty = (\<lambda>v. v = DArray []), jsStrings = (\<lambda>v. Inr [])\<rparr>"

definition demo_member_json :: "string \<Rightarrow> demo_json" where
  "demo_member_json k = DObject [(''primaryKey'', DString k)]"

definition demo_edge_json :: "string \<Rightarrow> string \<Rightarrow> demo_json" where
  "demo_edge_json a b = DObject [(''from'', demo_member_json a), (''to'', demo_member_json b), (''rel'', DArray [])]"

text \<open>A node that publishes to a topic and to an ignored one, and a relation that is null.\<close>

definition demo_answer :: demo_json where
  "demo_answer = DObject [(''active'', DArray [demo_member_json ''n'']),
     (''passive'', DArray [demo_member_json ''t'', demo_member_json ''ro'']),
     (''sub'', DArray [demo_edge_json ''ro'' ''n'']),
     (''pub'', DArray [demo_edge_json ''n'' ''t'', demo_edge_json ''n'' ''ro'']),
     (''send'', DArray [DObject [(''rel'', DNull)]])]"

section \<open>Properties\<close>

text \<open>C13: From a well-formed answer whose vertices have distinct keys and whose edges start at vertices,
  the code builds exactly the reference view: active members as nodes, passive ones as topics
  without the ignored topics, and for each its subscriptions, publications and sends in order,
  without null relations and without edges at an ignored topic.\<close>

theorem view_of_answer:
  assumes "reads_as js v ''active'' (jsKey js) active" "reads_as js v ''passive'' (jsKey js) passive"
    and "reads_as js v ''sub'' (edge_ends js) subs" "reads_as js v ''pub'' (edge_ends js) pubs"
    and "reads_as js v ''send'' (edge_ends js) sends"
    and "distinct (active @ filter (\<lambda>k. \<not> ignored k) passive)"
    and "sources_known (\<lambda>from to. ignored from) (vertices_of ignored active passive) subs"
    and "sources_known (\<lambda>from to. ignored to) (vertices_of ignored active passive) pubs"
    and "sources_known (\<lambda>from to. False) (vertices_of ignored active passive) sends"
  shows "build_view js ignored v = Inr (reference_view ignored active passive subs pubs sends)"
proof -
  let ?ms = "vertices_of ignored active passive"
  have ms: "mk_view (map (\<lambda>k. proxy_of_key k False) active) (\<lambda>_. []) @
      mk_view (map (\<lambda>k. proxy_of_key k True) (filter (\<lambda>k. \<not> ignored k) passive)) (\<lambda>_. []) = mk_view ?ms (\<lambda>_. [])"
    by (simp add: mk_view_def vertices_of_def)
  have d: "distinct (map pxPrimaryKey ?ms)"
    using assms(6) by (simp add: vertices_of_def proxy_of_key_def comp_def)
  show ?thesis
    using assms(1-5) by (auto simp: reads_as_def build_view_def foldR_active foldR_passive ms
        foldR_edges [OF _ d assms(7)] foldR_edges [OF _ d assms(8)] foldR_edges [OF _ d assms(9)]
        reference_view_def)
qed

lemma view_of_answer_witness:
  "build_view demo_js (\<lambda>k. k = ''ro'') demo_answer = Inr
     [\<lparr>mcMember = proxy_of_key ''n'' False, mcConnections = [proxy_of_key ''t'' True]\<rparr>,
      \<lparr>mcMember = proxy_of_key ''t'' True, mcConnections = []\<rparr>]"
proof -
  have "build_view demo_js (\<lambda>k. k = ''ro'') demo_answer = Inr (reference_view (\<lambda>k. k = ''ro'') [''n''] [''t'', ''ro'']
      [Some (''ro'', ''n'')] [Some (''n'', ''t''), Some (''n'', ''ro'')] [None])"
    by (rule view_of_answer)
      (auto simp: reads_as_def demo_js_def demo_answer_def demo_sub_def demo_member_json_def jsKey_def
        edge_ends_def demo_edge_json_def sources_known_def vertices_of_def proxy_of_key_def)
  then show ?thesis
    by (simp add: reference_view_def mk_view_def vertices_of_def edges_from_def proxy_of_key_def)
qed

text \<open>C33: Receiving the answer ends whenever the announced totals are bounded; and when the packages
  arrive with numbers one to \<open>n\<close> of \<open>n\<close>, the text is their lines in order and exactly those packages
  are consumed.\<close>

theorem answer_text_received:
  "((\<forall>w. rsTotal (fst (shmReceive ipc ch w)) \<le> bound) \<longrightarrow> receive_lines ipc ch prev acc w \<noteq> None)
   \<and> (0 < n \<and> (\<forall>i<n. shmReceive ipc ch (ws i) = (packet i, ws (Suc i)) \<and> rsType (packet i) = TEXTUAL
        \<and> rsNumber (packet i) = Suc i \<and> rsTotal (packet i) = n) \<longrightarrow>
      receive_lines ipc ch 0 '''' (ws 0)
        = Some (Inr (concat (map (\<lambda>i. parseString ipc (rsLine (packet i))) [0..<n]), ws n)))"
  using receive_lines_ends [of ipc ch bound prev acc w] receive_lines_step [of n ipc ch ws packet 0 "''''"] by simp

definition demo_packet :: "nat \<Rightarrow> shm_response" where
  "demo_packet i = \<lparr>rsType = TEXTUAL, rsValue = 0, rsNumber = Suc i, rsTotal = 2, rsLine = ''x''\<rparr>"

definition demo_lines :: "peer ipc" where
  "demo_lines = demo_ipc\<lparr>shmReceive := (\<lambda>_ w. (demo_packet (peNextId w), w\<lparr>peNextId := Suc (peNextId w)\<rparr>))\<rparr>"

lemma answer_text_received_witness:
  "receive_lines demo_lines ''c'' 0 '''' peer_init = Some (Inr (''xx'', peer_init\<lparr>peNextId := 2\<rparr>))
    \<and> receive_lines demo_lines ''c'' 7 '''' peer_init \<noteq> None"
proof -
  have b: "\<forall>w. rsTotal (fst (shmReceive demo_lines ''c'' w)) \<le> 2"
    by (simp add: demo_lines_def demo_packet_def)
  have p: "\<forall>i<2. shmReceive demo_lines ''c'' (peer_init\<lparr>peNextId := i\<rparr>) = (demo_packet i, peer_init\<lparr>peNextId := Suc i\<rparr>)
      \<and> rsType (demo_packet i) = TEXTUAL \<and> rsNumber (demo_packet i) = Suc i \<and> rsTotal (demo_packet i) = 2"
    by (simp add: demo_lines_def demo_packet_def)
  show ?thesis
    using answer_text_received [of demo_lines "''c''" 2 7 "''''" peer_init 2 "\<lambda>i. peer_init\<lparr>peNextId := i\<rparr>" demo_packet] b p
    by (simp add: eval_nat_numeral peer_init_def demo_lines_def demo_packet_def c_str_def)
qed

end
