(* ===== verification/Watchlist.thy ===== *)
theory Watchlist
  imports Graph_View
begin

text \<open>
  \<^verbatim>\<open>src/fault-detection/watchlist.{hpp,cpp}\<close>: the members under observation, a \<open>std::map\<close> keyed by
  counted pointers. The order of its keys is the one the class \<open>MemberPtr\<close> gives
  (\<open>ptr_less\<close>). The object's state extends the data store's, which it calls.
\<close>

section \<open>State\<close>

datatype watchlist_type = TYPE_NORMAL | TYPE_INITIAL | TYPE_BLINDSPOT

record 'w watchlist = "'w data_store" +
  wlInitialMemberNames :: "string list"
  wlMembers :: "(member_ptr \<times> watchlist_type) list"

text \<open>The constructor reads the initial names from the configuration.\<close>

definition initial_names :: "('j, 'y) json_scheme \<Rightarrow> 'j \<Rightarrow> string list result" where
  "initial_names js config =
     (if jsIsNull js config \<or> (jsIsArray js config \<and> jsEmpty js config) then Inr []
      else jsStrings js config)"

definition wl_new :: "('j, 'y) json_scheme \<Rightarrow> 'j \<Rightarrow> 'w data_store \<Rightarrow> 'w watchlist result" where
  "wl_new js config dataStore = bindR (initial_names js config) (\<lambda>names.
     Inr (data_store.extend dataStore \<lparr>wlInitialMemberNames = names, wlMembers = []\<rparr>))"

definition watched :: "('w, 'z) watchlist_scheme \<Rightarrow> member_ptr list" where
  "watched s = map fst (wlMembers s)"

section \<open>Operations\<close>

text \<open>The position of the first watched member with a key, or the end.\<close>

fun key_index :: "member_ptr list \<Rightarrow> string \<Rightarrow> 'z store_scheme \<Rightarrow> nat result" where
  "key_index [] k st = Inr 0"
| "key_index (p # ps) k st = bindR (ptr_key p st) (\<lambda>pk.
     if pk = k then Inr 0 else bindR (key_index ps k st) (\<lambda>i. Inr (Suc i)))"

definition wl_get :: "string \<Rightarrow> (('w, 'z) watchlist_scheme, nat) op" where
  "wl_get k = getsR (\<lambda>s. key_index (watched s) k s)"

text \<open>\<open>emplace(std::move(p), type)\<close>: if an equivalent key is there, the pointer that was moved into the
  new element is destroyed with it.\<close>

definition emplace_member :: "member_ptr \<Rightarrow> watchlist_type \<Rightarrow> (('w, 'z) watchlist_scheme, bool) op" where
  "emplace_member p type s = (case map_emplace ptr_less p type (wlMembers s) of (m, emplaced) \<Rightarrow>
     if emplaced then Inr (True, s\<lparr>wlMembers := m\<rparr>)
     else bindS (ptr_destroy p) (\<lambda>_. returnS False) s)"

definition addMember_proxy ::
  "'w ipc \<Rightarrow> member_proxy \<Rightarrow> watchlist_type \<Rightarrow> (('w, 'z) watchlist_scheme, unit) op" where
  "addMember_proxy ipc member type s =
     (if pxIsTopic member \<and> checkTopicPrimaryIgnored (pxPrimaryKey member) s then Inr ((), s)
      else locked MembersMutex
        (bindS (touch WatchedMembers) (\<lambda>_.
         bindS (wl_get (pxPrimaryKey member)) (\<lambda>it s.
           if it = length (wlMembers s) then Inr ((), s)
           else bindS (ds_get ipc member) (\<lambda>memberPtr.
                bindS (emplace_member memberPtr type) (\<lambda>emplaced.
                liftR (assertR emplaced))) s))) s)"

text \<open>The overload for pointers owns its argument: what is not moved into the map is destroyed.\<close>

definition addMember_ptr :: "member_ptr \<Rightarrow> watchlist_type \<Rightarrow> (('w, 'z) watchlist_scheme, unit) op" where
  "addMember_ptr member type =
     locked MembersMutex
       (bindS (touch WatchedMembers) (\<lambda>_ s.
          if find_if (\<lambda>p. ptr_eq p member) (watched s) = length (wlMembers s) then ptr_destroy member s
          else bindS (emplace_member member type) (\<lambda>emplaced. liftR (assertR emplaced)) s))"

text \<open>The initial members: a name that cannot be resolved stays for the next time.\<close>

fun initialise_loop :: "'w ipc \<Rightarrow> string list \<Rightarrow> (('w, 'z) watchlist_scheme, string list) op" where
  "initialise_loop ipc [] = returnS []"
| "initialise_loop ipc (name # names) =
     bindS (getNodeByName ipc name) (\<lambda>node.
       if \<not> ptr_valid node
       then bindS (initialise_loop ipc names) (\<lambda>rest. returnS (name # rest))
       else bindS (emplace_member node TYPE_INITIAL) (\<lambda>_. initialise_loop ipc names))"

definition tryInitialise :: "'w ipc \<Rightarrow> (('w, 'z) watchlist_scheme, unit) op" where
  "tryInitialise ipc s =
     (if wlInitialMemberNames s = [] then Inr ((), s)
      else bindS (initialise_loop ipc (wlInitialMemberNames s))
             (\<lambda>names s. Inr ((), s\<lparr>wlInitialMemberNames := names\<rparr>)) s)"

definition getMembers :: "'w ipc \<Rightarrow> (('w, 'z) watchlist_scheme, member_ptr list) op" where
  "getMembers ipc = locked MembersMutex
     (bindS (touch WatchedMembers) (\<lambda>_. bindS (tryInitialise ipc) (\<lambda>_ s. mapS ptr_copy (watched s) s)))"

definition wl_contains :: "string \<Rightarrow> (('w, 'z) watchlist_scheme, bool) op" where
  "wl_contains member = locked MembersMutex
     (bindS (touch WatchedMembers) (\<lambda>_. bindS (wl_get member) (\<lambda>it s. Inr (it \<noteq> length (wlMembers s), s))))"

definition wl_reset :: "(('w, 'z) watchlist_scheme, unit) op" where
  "wl_reset = locked MembersMutex
     (bindS (touch WatchedMembers) (\<lambda>_ s.
        bindS (forS (watched s) ptr_destroy) (\<lambda>_ s. Inr ((), s\<lparr>wlMembers := []\<rparr>)) s))"

definition notifyUsed :: "string \<Rightarrow> (('w, 'z) watchlist_scheme, bool) op" where
  "notifyUsed member = locked MembersMutex
     (bindS (touch WatchedMembers) (\<lambda>_. bindS (wl_get member) (\<lambda>it s.
        if it = length (wlMembers s) \<or> snd (wlMembers s ! it) \<noteq> TYPE_BLINDSPOT then Inr (False, s)
        else bindS (ptr_destroy (fst (wlMembers s ! it))) (\<lambda>_ s.
             Inr (True, s\<lparr>wlMembers := erase_at it (wlMembers s)\<rparr>)) s)))"

section \<open>What the operations keep\<close>

text \<open>A state whose extension is unchanged has the same watchlist.\<close>

lemma more_watchlist:
  assumes "data_store.more t = data_store.more s"
  shows "wlMembers t = wlMembers s" "wlInitialMemberNames t = wlInitialMemberNames s"
    "watchlist.more t = watchlist.more s"
  using assms by (cases s, cases t, simp)+

text \<open>
  At most one member can ever be watched, as the order of pointers tells no two valid pointers
  apart, and the only operation that adds one gives it the type of an initial member.
\<close>

definition wl_single :: "('w, 'z) watchlist_scheme \<Rightarrow> bool" where
  "wl_single s \<longleftrightarrow> wlMembers s = [] \<or> (\<exists>p. wlMembers s = [(p, TYPE_INITIAL)] \<and> ptr_valid p)"

definition wl_same :: "('w, 'z) watchlist_scheme \<Rightarrow> ('w, 'z) watchlist_scheme \<Rightarrow> bool" where
  "wl_same s t \<longleftrightarrow> wlMembers t = wlMembers s \<and> wlInitialMemberNames t = wlInitialMemberNames s
     \<and> watchlist.more t = watchlist.more s \<and> dsHeld t = dsHeld s"

lemma wl_same_refl [simp]: "wl_same s s"
  by (simp add: wl_same_def)

lemma wl_same_trans: "wl_same s t \<Longrightarrow> wl_same t u \<Longrightarrow> wl_same s u"
  by (simp add: wl_same_def)

lemma keeps_wl_same: "keeps_more m \<Longrightarrow> m s = Inr (x, t) \<Longrightarrow> wl_same s t"
  using keeps_moreD [of m s x t] more_watchlist [of t s] by (simp add: wl_same_def)

lemma wl_same_frame [simp]:
  "wl_same s (t\<lparr>dsTrace := tr\<rparr>) = wl_same s t" "wl_same (s\<lparr>dsTrace := tr\<rparr>) t = wl_same s t"
proof -
  have "watchlist.more (u\<lparr>dsTrace := tr\<rparr>) = watchlist.more u" for u :: "('a, 'b) watchlist_scheme"
    by (cases u) simp
  then show "wl_same s (t\<lparr>dsTrace := tr\<rparr>) = wl_same s t" "wl_same (s\<lparr>dsTrace := tr\<rparr>) t = wl_same s t"
    by (simp_all add: wl_same_def)
qed

lemma more_held [simp]: "watchlist.more (u\<lparr>dsHeld := h\<rparr>) = watchlist.more u" for u :: "('a, 'b) watchlist_scheme"
  by (cases u) simp

lemma emplace_single:
  assumes "wl_single s" "ptr_valid p"
  shows "wlMembers s \<noteq> [] \<Longrightarrow> \<not> snd (map_emplace ptr_less p type (wlMembers s))"
    and "wlMembers s = [] \<Longrightarrow> map_emplace ptr_less p type (wlMembers s) = ([(p, type)], True)"
  using assms by (auto simp: wl_single_def ptr_less_def)

lemma emplace_member_single:
  assumes "wl_single s" "ptr_valid p" "emplace_member p TYPE_INITIAL s = Inr (b, t)"
  shows "wl_single t \<and> dsHeld t = dsHeld s \<and> wlInitialMemberNames t = wlInitialMemberNames s
    \<and> (if wlMembers s = [] then wlMembers t = [(p, TYPE_INITIAL)] else wlMembers t = wlMembers s)"
proof (cases "wlMembers s = []")
  case True
  then show ?thesis using assms emplace_single(2) [OF assms(1,2) True]
    by (auto simp: emplace_member_def wl_single_def)
next
  case False
  then obtain m where "map_emplace ptr_less p TYPE_INITIAL (wlMembers s) = (m, False)"
    using emplace_single(1) [OF assms(1,2) False, of TYPE_INITIAL] by (metis prod.collapse)
  then have "ptr_destroy p s = Inr ((), t)" using assms(3) by (auto simp: emplace_member_def)
  then have "wl_same s t" by (rule keeps_wl_same [OF keeps_ptr(2)])
  then show ?thesis using assms(1) False by (simp add: wl_single_def wl_same_def)
qed

lemma key_index_le: "key_index ps k st = Inr i \<Longrightarrow> i \<le> length ps"
  by (induction ps arbitrary: i) (auto split: if_splits)

lemma locked_wl_same:
  assumes "locked m body s = Inr (x, t)"
    and "\<And>u v. wl_same s (u\<lparr>dsHeld := dsHeld s\<rparr>) \<Longrightarrow> dsHeld u = m # dsHeld s \<Longrightarrow> body u = Inr (x, v) \<Longrightarrow>
      wl_same u v"
  shows "wl_same s t"
proof -
  from assms(1) obtain t1 where t1: "m \<notin> set (dsHeld s)"
    "body (s\<lparr>dsTrace := dsTrace s @ [Locked m (dsHeld s)], dsHeld := m # dsHeld s\<rparr>) = Inr (x, t1)"
    "t = t1\<lparr>dsHeld := remove1 m (dsHeld t1)\<rparr>" by (rule locked_InrE)
  have "wl_same (s\<lparr>dsTrace := dsTrace s @ [Locked m (dsHeld s)], dsHeld := m # dsHeld s\<rparr>) t1"
    by (rule assms(2) [OF _ _ t1(2)]) simp_all
  then show ?thesis using t1(3)
    by (cases s) (auto simp: wl_same_def)
qed

lemma getNode_valid:
  "getNode ipc k s = Inr (p, t) \<Longrightarrow> ptr_valid p" "getTopic ipc k s = Inr (p, t) \<Longrightarrow> ptr_valid p"
  by (auto simp: getNode_def getTopic_def requestNode_def requestTopic_def ptr_valid_def make_member_ptr_def
      split: if_splits)

lemma ds_get_valid: "ds_get ipc q s = Inr (p, t) \<Longrightarrow> ptr_valid p"
  by (auto simp: ds_get_def split: if_splits dest: getNode_valid)

lemma emplace_single_fails:
  "wl_single s \<Longrightarrow> wlMembers s \<noteq> [] \<Longrightarrow> ptr_valid p \<Longrightarrow> emplace_member p type s = Inr (b, t) \<Longrightarrow> \<not> b"
  using emplace_single(1) [of s p type]
  by (auto simp: emplace_member_def split: prod.splits if_splits)

text \<open>Adding: whoever is not watched yet is not added, and whoever is fails the assertion.\<close>

lemma addMember_proxy_traces:
  assumes "wl_single s" "addMember_proxy ipc q type s = Inr (u, t)"
  shows "\<exists>tr. t = s\<lparr>dsTrace := tr\<rparr>"
proof (cases "pxIsTopic q \<and> checkTopicPrimaryIgnored (pxPrimaryKey q) s")
  case True
  then have "t = s\<lparr>dsTrace := dsTrace s\<rparr>" using assms by (simp add: addMember_proxy_def)
  then show ?thesis by blast
next
  case False
  let ?tr = "dsTrace s @ [Locked MembersMutex (dsHeld s), Touched WatchedMembers (MembersMutex # dsHeld s)]"
  let ?s = "s\<lparr>dsHeld := MembersMutex # dsHeld s, dsTrace := ?tr\<rparr>"
  from False assms(2) obtain i v where v: "t = v\<lparr>dsHeld := remove1 MembersMutex (dsHeld v)\<rparr>"
    "(if i = length (wlMembers ?s) then Inr ((), ?s)
      else bindS (ds_get ipc q) (\<lambda>memberPtr. bindS (emplace_member memberPtr type) (\<lambda>emplaced.
           liftR (assertR emplaced))) ?s) = Inr (u, v)" "key_index (watched ?s) (pxPrimaryKey q) ?s = Inr i"
    by (auto simp: addMember_proxy_def wl_get_def elim!: locked_InrE)
  have sg: "wl_single ?s" using assms(1) by (simp add: wl_single_def)
  have no: False if "ds_get ipc q ?s = Inr (p, b)" "emplace_member p type b = Inr (True, c)" "wlMembers ?s \<noteq> []" for p b c
  proof -
    have "wl_same ?s b" using that(1) by (rule keeps_wl_same [OF keeps_lookup(5)])
    then have "wl_single b" "wlMembers b \<noteq> []" using sg that(3) by (auto simp: wl_single_def wl_same_def)
    from emplace_single_fails [OF this ds_get_valid [OF that(1)] that(2)] show False by simp
  qed
  have "v = ?s"
  proof (cases "i = length (wlMembers ?s)")
    case True
    then show ?thesis using v(2) by simp
  next
    case False
    with v(2) obtain p b where "ds_get ipc q ?s = Inr (p, b)" "emplace_member p type b = Inr (True, v)" by auto
    moreover have "wlMembers ?s \<noteq> []" using False v(3) by (auto simp: watched_def)
    ultimately show ?thesis using no by blast
  qed
  then have "t = s\<lparr>dsTrace := ?tr\<rparr>" using v(1) by simp
  then show ?thesis by blast
qed

lemma addMember_proxy_same: "wl_single s \<Longrightarrow> addMember_proxy ipc q type s = Inr (u, t) \<Longrightarrow> wl_same s t"
  using addMember_proxy_traces by fastforce

lemma wl_get_Inr [simp]: "wl_get k s = Inr (i, t) \<longleftrightarrow> key_index (watched s) k s = Inr i \<and> t = s"
  by (auto simp: wl_get_def)

lemma single_not_blindspot:
  assumes "wl_single s" "key_index (watched s) k s = Inr i" "i \<noteq> length (wlMembers s)"
  shows "snd (wlMembers s ! i) = TYPE_INITIAL"
proof -
  have "i < length (wlMembers s)" using assms(3) key_index_le [OF assms(2)] by (simp add: watched_def)
  then show ?thesis using assms(1) by (auto simp: wl_single_def)
qed

lemma notifyUsed_same:
  assumes "wl_single s" "notifyUsed k s = Inr (b, t)"
  shows "\<not> b \<and> wl_same s t"
proof -
  have *: "\<not> b \<and> v = a\<lparr>dsTrace := dsTrace a @ [Touched WatchedMembers (dsHeld a)]\<rparr>"
    if "wl_single a" "bindS (touch WatchedMembers) (\<lambda>_. bindS (wl_get k) (\<lambda>it s.
        if it = length (wlMembers s) \<or> snd (wlMembers s ! it) \<noteq> TYPE_BLINDSPOT then Inr (False, s)
        else bindS (ptr_destroy (fst (wlMembers s ! it))) (\<lambda>_ s.
             Inr (True, s\<lparr>wlMembers := erase_at it (wlMembers s)\<rparr>)) s)) a = Inr (b, v)"
    for a v :: "('a, 'b) watchlist_scheme"
  proof -
    let ?a = "a\<lparr>dsTrace := dsTrace a @ [Touched WatchedMembers (dsHeld a)]\<rparr>"
    have sg: "wl_single ?a" using that(1) by (simp add: wl_single_def)
    show ?thesis using that(2) single_not_blindspot [OF sg] by (auto split: if_splits)
  qed
  have "wl_same s t"
    using assms(2) unfolding notifyUsed_def
  proof (rule locked_wl_same)
    fix u v assume u: "wl_same s (u\<lparr>dsHeld := dsHeld s\<rparr>)" "bindS (touch WatchedMembers) (\<lambda>_. bindS (wl_get k) (\<lambda>it s.
        if it = length (wlMembers s) \<or> snd (wlMembers s ! it) \<noteq> TYPE_BLINDSPOT then Inr (False, s)
        else bindS (ptr_destroy (fst (wlMembers s ! it))) (\<lambda>_ s.
             Inr (True, s\<lparr>wlMembers := erase_at it (wlMembers s)\<rparr>)) s)) u = Inr (b, v)"
    then have "wl_single u" using assms(1) by (simp add: wl_single_def wl_same_def)
    from * [OF this u(2)] show "wl_same u v" by simp
  qed
  moreover have "\<not> b"
  proof -
    have sg: "wl_single (s\<lparr>dsTrace := tr, dsHeld := h\<rparr>)" for tr h using assms(1) by (simp add: wl_single_def)
    from assms(2) [unfolded notifyUsed_def] show ?thesis
      by (rule locked_InrE) (rule conjunct1 [OF * [OF sg]])
  qed
  ultimately show ?thesis by blast
qed

lemma getNodeByName_same: "getNodeByName ipc k s = Inr (p, t) \<Longrightarrow> wl_same s t"
  by (rule keeps_wl_same [OF keeps_lookup(6)])

lemma wl_same_single: "wl_same s t \<Longrightarrow> wl_single s \<Longrightarrow> wl_single t"
  by (simp add: wl_same_def wl_single_def)

lemma initialise_loop_single:
  "initialise_loop ipc names s = Inr (rest, t) \<Longrightarrow> wl_single s \<Longrightarrow>
    wl_single t \<and> dsHeld t = dsHeld s \<and> set rest \<subseteq> set names \<and> (wlMembers s \<noteq> [] \<longrightarrow> wlMembers t = wlMembers s)"
proof (induction names arbitrary: s rest)
  case (Cons n names)
  from Cons.prems(1) obtain p a where a: "getNodeByName ipc n s = Inr (p, a)"
    "(if \<not> ptr_valid p then bindS (initialise_loop ipc names) (\<lambda>rest. returnS (n # rest))
       else bindS (emplace_member p TYPE_INITIAL) (\<lambda>_. initialise_loop ipc names)) a = Inr (rest, t)"
    by auto
  have sa: "wl_same s a" "wl_single a"
    using getNodeByName_same [OF a(1)] wl_same_single Cons.prems(2) by blast+
  show ?case
  proof (cases "ptr_valid p")
    case True
    then obtain b c where c: "emplace_member p TYPE_INITIAL a = Inr (b, c)" "initialise_loop ipc names c = Inr (rest, t)"
      using a(2) by auto
    from emplace_member_single [OF sa(2) True c(1)] Cons.IH [OF c(2)] sa(1) show ?thesis
      by (auto simp: wl_same_def split: if_splits)
  next
    case False
    then obtain rest' where "initialise_loop ipc names a = Inr (rest', t)" "rest = n # rest'"
      using a(2) by auto
    with Cons.IH [of a rest'] sa show ?thesis by (auto simp: wl_same_def)
  qed
qed simp

lemma tryInitialise_single:
  assumes "tryInitialise ipc s = Inr (u, t)" "wl_single s"
  shows "wl_single t \<and> dsHeld t = dsHeld s \<and> set (wlInitialMemberNames t) \<subseteq> set (wlInitialMemberNames s)
    \<and> (wlMembers s \<noteq> [] \<longrightarrow> wlMembers t = wlMembers s)"
proof (cases "wlInitialMemberNames s = []")
  case False
  then obtain names a where a: "initialise_loop ipc (wlInitialMemberNames s) s = Inr (names, a)"
    "t = a\<lparr>wlInitialMemberNames := names\<rparr>"
    using assms(1) by (auto simp: tryInitialise_def)
  from initialise_loop_single [OF a(1) assms(2)] a(2) show ?thesis by (auto simp: wl_single_def)
qed (use assms in \<open>auto simp: tryInitialise_def\<close>)

lemma mapS_copy_same: "mapS ptr_copy ps s = Inr (qs, t) \<Longrightarrow> wl_same s t \<and> map mpMember qs = map mpMember ps"
proof (induction ps arbitrary: s qs)
  case (Cons p ps)
  from Cons.prems obtain q a qs' where a: "ptr_copy p s = Inr (q, a)" "mapS ptr_copy ps a = Inr (qs', t)" "qs = q # qs'"
    by auto
  have "mpMember q = mpMember p" using a(1) by (auto simp: ptr_copy_def ptr_null_def split: if_splits)
  moreover have "wl_same s a" using a(1) by (rule keeps_wl_same [OF keeps_ptr(1)])
  ultimately show ?case using Cons.IH [OF a(2)] a(3) by (auto intro: wl_same_trans)
qed auto

lemma forS_destroy_same: "forS ps ptr_destroy s = Inr (u, t) \<Longrightarrow> wl_same s t"
proof (induction ps arbitrary: s)
  case (Cons p ps)
  from Cons.prems obtain a where a: "ptr_destroy p s = Inr ((), a)" "forS ps ptr_destroy a = Inr (u, t)" by auto
  have "wl_same s a" using a(1) by (rule keeps_wl_same [OF keeps_ptr(2)])
  then show ?case using Cons.IH [OF a(2)] wl_same_trans by blast
qed auto

lemma getMembers_single:
  assumes "getMembers ipc s = Inr (ms, t)" "wl_single s"
  shows "wl_single t \<and> dsHeld t = dsHeld s \<and> map mpMember ms = map mpMember (watched t)
    \<and> (wlMembers s \<noteq> [] \<longrightarrow> wlMembers t = wlMembers s)"
proof -
  from assms(1) obtain a b c where c: "tryInitialise ipc a = Inr ((), b)" "mapS ptr_copy (watched b) b = Inr (ms, c)"
    "t = c\<lparr>dsHeld := remove1 MembersMutex (dsHeld c)\<rparr>" "wlMembers a = wlMembers s" "dsHeld a = MembersMutex # dsHeld s"
    unfolding getMembers_def by (force elim!: locked_InrE)
  have "wl_single a" using assms(2) c(4) by (simp add: wl_single_def)
  from tryInitialise_single [OF c(1) this] mapS_copy_same [OF c(2)] c(3-5) show ?thesis
    by (auto simp: wl_single_def wl_same_def watched_def)
qed

lemma contains_same: "wl_contains k s = Inr (b, t) \<Longrightarrow> wl_same s t"
  unfolding wl_contains_def by (erule locked_wl_same) auto

lemma wl_reset_empty: "wl_reset s = Inr (u, t) \<Longrightarrow> wlMembers t = [] \<and> dsHeld t = dsHeld s
    \<and> wlInitialMemberNames t = wlInitialMemberNames s"
  unfolding wl_reset_def by (auto elim!: locked_InrE dest!: forS_destroy_same simp: wl_same_def)

lemma addMember_ptr_same:
  assumes "wl_single s" "addMember_ptr p type s = Inr (u, t)"
  shows "wl_same s t"
  using assms(2) unfolding addMember_ptr_def
proof (rule locked_wl_same)
  fix a v assume a: "wl_same s (a\<lparr>dsHeld := dsHeld s\<rparr>)" "bindS (touch WatchedMembers) (\<lambda>_ s.
          if find_if (\<lambda>q. ptr_eq q p) (watched s) = length (wlMembers s) then ptr_destroy p s
          else bindS (emplace_member p type) (\<lambda>emplaced. liftR (assertR emplaced)) s) a = Inr (u, v)"
  let ?a = "a\<lparr>dsTrace := dsTrace a @ [Touched WatchedMembers (dsHeld a)]\<rparr>"
  have sg: "wl_single ?a" using a(1) assms(1) by (simp add: wl_single_def wl_same_def)
  show "wl_same a v"
  proof (cases "find_if (\<lambda>q. ptr_eq q p) (watched ?a) = length (wlMembers ?a)")
    case True
    then have "ptr_destroy p ?a = Inr ((), v)" using a(2) by (auto simp: watched_def)
    then have "wl_same ?a v" by (rule keeps_wl_same [OF keeps_ptr(2)])
    then show ?thesis by simp
  next
    case False
    then have "find_if (\<lambda>q. ptr_eq q p) (watched ?a) < length (watched ?a)"
      using find_if_le [of "\<lambda>q. ptr_eq q p" "watched ?a"] by (simp add: watched_def)
    then obtain q where "q \<in> set (watched ?a)" "ptr_eq q p" by (auto simp: find_if_less_iff)
    then have "ptr_valid p" "wlMembers ?a \<noteq> []"
      using sg by (auto simp: wl_single_def watched_def ptr_eq_def ptr_valid_def) metis
    moreover have "emplace_member p type ?a = Inr (True, v)" using a(2) False by (auto simp: watched_def)
    ultimately show ?thesis using emplace_single_fails [OF sg] by blast
  qed
qed

section \<open>Reachable watchlists\<close>

text \<open>
  Everything that can happen to a watchlist: its public operations, and steps of the data store,
  which leave its fields alone. A step that aborts the program leads nowhere.
\<close>

inductive wl_step :: "'w ipc \<Rightarrow> ('w, 'z) watchlist_scheme \<Rightarrow> ('w, 'z) watchlist_scheme \<Rightarrow> bool" for ipc where
  add_proxy: "addMember_proxy ipc q type s = Inr (u, t) \<Longrightarrow> wl_step ipc s t"
| add_ptr: "addMember_ptr p type s = Inr (u, t) \<Longrightarrow> wl_step ipc s t"
| get_members: "getMembers ipc s = Inr (ms, t) \<Longrightarrow> wl_step ipc s t"
| contains: "wl_contains k s = Inr (b, t) \<Longrightarrow> wl_step ipc s t"
| reset: "wl_reset s = Inr (u, t) \<Longrightarrow> wl_step ipc s t"
| notify_used: "notifyUsed k s = Inr (b, t) \<Longrightarrow> wl_step ipc s t"
| other: "wl_same s t \<Longrightarrow> wl_step ipc s t"

inductive wl_reachable :: "'w ipc \<Rightarrow> ('w, 'z) watchlist_scheme \<Rightarrow> bool" for ipc where
  empty: "wlMembers s = [] \<Longrightarrow> wl_reachable ipc s"
| step: "wl_reachable ipc s \<Longrightarrow> wl_step ipc s t \<Longrightarrow> wl_reachable ipc t"

lemma wl_step_single: "wl_step ipc s t \<Longrightarrow> wl_single s \<Longrightarrow> wl_single t"
proof (induction rule: wl_step.induct)
  case (reset s u t)
  from wl_reset_empty [OF reset(1)] show ?case by (simp add: wl_single_def)
qed (blast intro: wl_same_single dest: addMember_proxy_same addMember_ptr_same getMembers_single contains_same
    notifyUsed_same)+

lemma wl_reachable_single: "wl_reachable ipc s \<Longrightarrow> wl_single s"
proof (induction rule: wl_reachable.induct)
  case (empty s)
  then show ?case by (simp add: wl_single_def)
next
  case (step s t)
  then show ?case using wl_step_single by blast
qed

section \<open>Resolving the initial names\<close>

lemma counter_change_finds:
  assumes "dll_ok d" "modify (Some a) (\<lambda>e. e\<lparr>elUseCounter := f (elUseCounter e)\<rparr>) d = Inr d'"
  shows "node_findName n d' = node_findName n d"
proof -
  obtain e where e: "cell d a = Some e" "d' = set_cell a (Some (e\<lparr>elUseCounter := f (elUseCounter e)\<rparr>)) d"
    using assms(2) by (auto simp: modify_def deref_Inr)
  have r: "rep d (dll_addrs d)" using assms(1) by (simp add: dll_ok_def)
  have "rep d' (dll_addrs d)"
    using r e by (intro rep_links [of d' d]) (auto simp: links_def same_ends_def)
  moreover have "item d' b = item d b" for b
    using e cell_Some_less [OF e(1)] by (cases "a = b") (simp_all add: item_def)
  ultimately show ?thesis using find_rep [OF r] find_rep [of d' "dll_addrs d"] by (simp add: node_findName_def)
qed

lemma destroy_node_ptr:
  assumes "store_ok s" "cell (stNodes s) a = Some e"
  shows "\<exists>t. ptr_destroy (make_member_ptr (NodeRef a)) s = Inr ((), t) \<and> store_ok t
    \<and> (\<forall>n. node_findName n (stNodes t) = node_findName n (stNodes s))"
proof -
  let ?d = "set_cell a (Some (e\<lparr>elUseCounter := counter_decrease (elUseCounter e)\<rparr>)) (stNodes s)"
  have m: "modify (Some a) (\<lambda>e. e\<lparr>elUseCounter := counter_decrease (elUseCounter e)\<rparr>) (stNodes s) = Inr ?d"
    using assms(2) by (simp add: modify_def)
  then have t: "ptr_destroy (make_member_ptr (NodeRef a)) s = Inr ((), s\<lparr>stNodes := ?d\<rparr>)"
    by (simp add: ptr_destroy_def make_member_ptr_def counter_at_def)
  then show ?thesis
    using ptr_destroy_ok [OF assms(1) t] counter_change_finds [OF _ m] assms(1) by (auto simp: store_ok_def)
qed

lemma findName_cell:
  assumes "store_ok s" "node_findName n (stNodes s) = Inr (Some a)"
  shows "\<exists>e. cell (stNodes s) a = Some e"
proof -
  have r: "rep (stNodes s) (dll_addrs (stNodes s))" using assms(1) by (simp add: store_ok_def dll_ok_def)
  then have "a \<in> set (dll_addrs (stNodes s))"
    using assms(2) find_rep [OF r] by (auto simp: node_findName_def dest!: find_Some_set)
  then show ?thesis using assms(1) dll_ok_cell by (auto simp: store_ok_def)
qed

lemma getNodeByName_hit:
  assumes "node_findName n (stNodes s) = Inr (Some a)"
  shows "getNodeByName ipc n s
    = Inr (make_member_ptr (NodeRef a), s\<lparr>dsTrace := dsTrace s @ [Touched NodeList (dsHeld s)]\<rparr>)"
  using assms by (simp add: getNodeByName_def touch_def bindS_def getsR_def)

lemma initialise_loop_drops:
  "store_ok s \<Longrightarrow> wlMembers s = [(p, TYPE_INITIAL)] \<Longrightarrow> ptr_valid p \<Longrightarrow>
    \<forall>n\<in>set names. \<exists>a. node_findName n (stNodes s) = Inr (Some a) \<Longrightarrow>
    \<exists>t. initialise_loop ipc names s = Inr ([], t) \<and> wlMembers t = [(p, TYPE_INITIAL)]"
proof (induction names arbitrary: s)
  case (Cons n names)
  obtain a where a: "node_findName n (stNodes s) = Inr (Some a)" using Cons.prems(4) by auto
  let ?s = "s\<lparr>dsTrace := dsTrace s @ [Touched NodeList (dsHeld s)]\<rparr>"
  obtain e where "cell (stNodes ?s) a = Some e" using findName_cell [OF Cons.prems(1) a] by auto
  moreover have "store_ok ?s" using Cons.prems(1) by simp
  ultimately obtain t where t: "ptr_destroy (make_member_ptr (NodeRef a)) ?s = Inr ((), t)" "store_ok t"
    "\<forall>n. node_findName n (stNodes t) = node_findName n (stNodes ?s)"
    using destroy_node_ptr by blast
  have "wl_same ?s t" using t(1) by (rule keeps_wl_same [OF keeps_ptr(2)])
  then have wt: "wlMembers t = [(p, TYPE_INITIAL)]" using Cons.prems(2) by (simp add: wl_same_def)
  have "emplace_member (make_member_ptr (NodeRef a)) TYPE_INITIAL ?s = Inr (False, t)"
    using Cons.prems(2,3) t(1) by (simp add: emplace_member_def ptr_less_def make_member_ptr_def ptr_valid_def bindS_def)
  then have "initialise_loop ipc (n # names) s = initialise_loop ipc names t"
    using getNodeByName_hit [OF a, of ipc] by (simp add: bindS_def make_member_ptr_def ptr_valid_def)
  then show ?case using Cons.IH [OF t(2) wt Cons.prems(3)] Cons.prems(4) t(3) by simp
qed simp

section \<open>Properties\<close>

text \<open>However the watchlist is used, it never holds more than one member, and that one is an initial
  member. Adding a member by its proxy either changes nothing or aborts the program; so no blind
  spot is ever watched, and \<open>notifyUsed\<close> never removes one.\<close>

theorem watchlist_at_most_one:
  assumes "wl_reachable ipc s"
  shows "length (wlMembers s) \<le> 1 \<and> (\<forall>m\<in>set (wlMembers s). ptr_valid (fst m) \<and> snd m = TYPE_INITIAL)
    \<and> (addMember_proxy ipc q type s = Inr ((), t) \<longrightarrow> wlMembers t = wlMembers s)
    \<and> (notifyUsed k s = Inr (b, t) \<longrightarrow> \<not> b)"
  using wl_reachable_single [OF assms] addMember_proxy_same [of s ipc q type "()" t] notifyUsed_same [of s k b t]
  by (auto simp: wl_single_def wl_same_def)

definition demo_wl :: "store \<Rightarrow> string list \<Rightarrow> peer watchlist" where
  "demo_wl st names = \<lparr>stNodes = stNodes st, stTopics = stTopics st, dsUpdates = [],
     dsTopicParameterEventsKey = ''pe'', dsTopicRosoutKey = ''ro'', dsWorld = peer_init, dsHeld = [], dsTrace = [],
     wlInitialMemberNames = names, wlMembers = []\<rparr>"

lemma demo_wl_members:
  "\<exists>p t. getMembers demo_ipc (demo_wl store_new [''n'']) = Inr ([p], t) \<and> length (wlMembers t) = 1"
  by (simp add: getMembers_def locked_def touch_def bindS_def tryInitialise_def getNodeByName_def node_findName_def
    find_where_def dll_new_def getsR_def search_key_def world_def demo_ipc_def peer_send_def receive_value_def c_str_def
    requestNode_def list_op_def node_emplace_back_def emplace_back_def mk_element_def Let_def request_cpu_def deref_def
    cell_def add_source_def put_nodes_def addAttributeSource_def on_instance_def modify_def demo_response_def
    node_of_response_def emplace_member_def make_member_ptr_def ptr_copy_def counter_at_def watched_def set_cell_def
    ptr_valid_def demo_wl_def store_new_def)

lemma watchlist_at_most_one_witness:
  "\<exists>(t :: peer watchlist) p type. wl_reachable demo_ipc t \<and> wlMembers t = [(p, type)] \<and> ptr_valid p \<and> type = TYPE_INITIAL"
proof -
  obtain ps t where t: "getMembers demo_ipc (demo_wl store_new [''n'']) = Inr (ps, t)" "length (wlMembers t) = 1"
    using demo_wl_members by blast
  have "wl_reachable demo_ipc (demo_wl store_new [''n''])" by (rule wl_reachable.empty) (simp add: demo_wl_def)
  then have r: "wl_reachable demo_ipc t" by (rule wl_reachable.step) (rule wl_step.get_members [OF t(1)])
  obtain p type where "wlMembers t = [(p, type)]" using t(2) by (cases "wlMembers t") auto
  moreover have "\<forall>m\<in>set (wlMembers t). ptr_valid (fst m) \<and> snd m = TYPE_INITIAL"
    using watchlist_at_most_one [OF r] by blast
  ultimately show ?thesis using r by auto
qed

text \<open>When the store knows a node for every configured initial name, resolving the names forgets all
  of them but watches only the first: the others are dropped without an error.\<close>

theorem initial_members_lost:
  assumes "store_ok s" "wlMembers s = []" "wlInitialMemberNames s = n # names"
    and "\<forall>m\<in>set (n # names). \<exists>a. node_findName m (stNodes s) = Inr (Some a)"
  shows "\<exists>t a. tryInitialise ipc s = Inr ((), t) \<and> wlInitialMemberNames t = []
    \<and> node_findName n (stNodes s) = Inr (Some a) \<and> wlMembers t = [(make_member_ptr (NodeRef a), TYPE_INITIAL)]"
proof -
  obtain a where a: "node_findName n (stNodes s) = Inr (Some a)" using assms(4) by auto
  let ?p = "make_member_ptr (NodeRef a)"
  let ?s = "s\<lparr>dsTrace := dsTrace s @ [Touched NodeList (dsHeld s)], wlMembers := [(?p, TYPE_INITIAL)]\<rparr>"
  have "store_ok ?s" using assms(1) by (simp add: store_ok_def)
  then obtain t where "initialise_loop ipc names ?s = Inr ([], t)" "wlMembers t = [(?p, TYPE_INITIAL)]"
    using initialise_loop_drops [of ?s ?p names ipc] assms(4) by (auto simp: make_member_ptr_def ptr_valid_def)
  moreover have "initialise_loop ipc (n # names) s = initialise_loop ipc names ?s"
    using getNodeByName_hit [OF a, of ipc] assms(2)
    by (simp add: bindS_def make_member_ptr_def ptr_valid_def emplace_member_def)
  ultimately show ?thesis using a assms(3) by (simp add: tryInitialise_def bindS_def)
qed

definition demo_two_nodes :: store where
  "demo_two_nodes = \<lparr>stNodes = \<lparr>dlMem =
       [Some \<lparr>elPrev = None, elNext = Some 1, elInstance = demo_node, elRequestId = 0, elUseCounter = 1\<rparr>,
        Some \<lparr>elPrev = Some 0, elNext = None, elInstance = demo_node\<lparr>mNodeName := ''m''\<rparr>, elRequestId = 1, elUseCounter = 1\<rparr>],
      mBegin = Some 0, mEnd = Some 1\<rparr>, stTopics = dll_new\<rparr>"

lemma demo_two_nodes_rep: "rep (stNodes demo_two_nodes) [0, 1]"
  by (simp add: rep_def demo_two_nodes_def cell_def last_or_def)

lemma initial_members_lost_witness:
  "\<exists>t. tryInitialise demo_ipc (demo_wl demo_two_nodes [''n'', ''m'']) = Inr ((), t) \<and> wlInitialMemberNames t = []
    \<and> length (wlMembers t) = 1"
proof -
  let ?s = "demo_wl demo_two_nodes [''n'', ''m'']"
  have "item (stNodes demo_two_nodes) 0 = demo_node" "item (stNodes demo_two_nodes) (Suc 0) = demo_node\<lparr>mNodeName := ''m''\<rparr>"
    by (simp_all add: item_def demo_two_nodes_def cell_def)
  then have f: "node_findName ''n'' (stNodes demo_two_nodes) = Inr (Some 0)"
    "node_findName ''m'' (stNodes demo_two_nodes) = Inr (Some 1)"
    using find_rep [OF demo_two_nodes_rep]
    by (simp_all add: node_findName_def demo_node_def node_of_response_def c_str_def)
  have "dll_ok (stNodes demo_two_nodes)" using rep_ok [OF demo_two_nodes_rep] by blast
  then have "store_ok ?s" by (simp add: store_ok_def demo_wl_def demo_two_nodes_def)
  from initial_members_lost [OF this, of "''n''" "[''m'']" demo_ipc] f show ?thesis
    by (fastforce simp: demo_wl_def)
qed

end
