(* ===== verification/Initial_Members.thy ===== *)
theory Initial_Members
  imports Watchlist
begin

text \<open>
  The watchlist, the counted pointers and the element list together: what becomes of an initial
  member that is resolved when another one is watched already. Its pointer is refused by the map
  and destroyed, so the new element is unused and last; the store's next pass removes it, and from
  then on the end of the list is a dangling pointer.
\<close>

lemma request_address:
  "requestNode ipc k u s = Inr (p, t) \<Longrightarrow> p = make_member_ptr (NodeRef (length (dlMem (stNodes s))))"
  by (auto simp: requestNode_def list_op_Inr node_emplace_back_def emplace_back_def Let_def)

lemma fresh_no_pointer: "balanced live s \<Longrightarrow> live_count (NodeRef (length (dlMem (stNodes s)))) live = 0"
  by (auto simp: live_count_0 balanced_def counter_of_def cell_def split: if_splits)

text \<open>Giving back a share leaves the sequence of elements alone.\<close>

lemma destroy_addrs:
  assumes "store_ok s" "ptr_destroy p s = Inr (u, t)"
  shows "dll_addrs (stNodes t) = dll_addrs (stNodes s)"
proof -
  have r: "rep (stNodes s) (dll_addrs (stNodes s))" using assms(1) by (simp add: store_ok_def dll_ok_def)
  show ?thesis
  proof (cases "mpMember p = None \<or> (\<exists>a. mpUseCounter p = Some (TopicRef a))")
    case True
    then show ?thesis using assms(2) by (auto simp: ptr_destroy_def counter_at_def split: option.splits if_splits)
  next
    case False
    with assms(2) obtain a e where e: "cell (stNodes s) a = Some e"
      "stNodes t = set_cell a (Some (e\<lparr>elUseCounter := counter_decrease (elUseCounter e)\<rparr>)) (stNodes s)"
      by (auto simp: ptr_destroy_def counter_at_def modify_def deref_Inr split: option.splits member_ref.splits)
    then have "rep (stNodes t) (dll_addrs (stNodes s))"
      using r by (intro rep_links [of "stNodes t" "stNodes s"]) (auto simp: links_def same_ends_def)
    then show ?thesis by (rule rep_addrs)
  qed
qed

text \<open>A pass that removes the last element leaves the end dangling.\<close>

lemma sweep_last:
  assumes "store_ok s" "NodesMutex \<notin> set (dsHeld s)" "dll_addrs (stNodes s) = as @ [a]" "\<not> used (stNodes s) a"
  shows "\<exists>u. sweep_nodes ipc s = Inr ((), u) \<and> mEnd (stNodes u) = Some a \<and> cell (stNodes u) a = None
    \<and> a < length (dlMem (stNodes u))"
proof -
  have r: "rep (stNodes s) (as @ [a])" using assms(1,3) by (simp add: store_ok_def dll_ok_def)
  then have seg: "seg (stNodes s) None ([] @ as @ [a]) None" "distinct ([] @ as @ [a])"
    "mBegin (stNodes s) = fst_or None (as @ [a])" "mEnd (stNodes s) = Some a"
    by (simp_all add: rep_def)
  have lt: "length (as @ [a]) < Suc (length (dlMem (stNodes s)))" using seg_length [OF seg(1)] seg(2) by simp
  have al: "a < length (dlMem (stNodes s))" using seg_bound [OF seg(1)] by auto
  from nodes.sweep_chain [OF seg(1,2) lt assms(2), of NodeList ipc] obtain d where
    d: "sweep_nodes ipc s = Inr ((), put_nodes d (s\<lparr>dsWorld := unsubscribe_all ipc
        (map (rid_of (stNodes s)) (filter (\<lambda>a. \<not> used (stNodes s) a) (as @ [a]))) (dsWorld s),
        dsTrace := dsTrace s @ removal_trace NodesMutex NodeList (dsHeld s)
          (filter (\<lambda>a. \<not> used (stNodes s) a) (as @ [a]))\<rparr>))"
      "same_ends (stNodes s) d"
      "\<forall>b. payload d b = (if b \<in> set (as @ [a]) \<and> \<not> used (stNodes s) b then None else payload (stNodes s) b)"
    unfolding sweep_nodes_def seg(3) by blast
  have "payload d a = None" using d(3) assms(4) by simp
  then have "cell d a = None" by (simp add: payload_def)
  then show ?thesis using d(1,2) seg(4) al by (simp add: same_ends_def)
qed

lemma dangling_end:
  assumes "mEnd d = Some a" "cell d a = None" "a < length (dlMem d)"
  shows "emplace_back x rid d = Inl UseAfterFree"
  using assms by (simp add: emplace_back_def Let_def modify_def)

text \<open>Resolving a name the store does not know appends an element nobody else points to.\<close>

lemma getNodeByName_new:
  assumes "store_ok s" "balanced live s" "node_findName n (stNodes s) = Inr None"
    and "getNodeByName ipc n s = Inr (p, t)" "ptr_valid p"
  shows "\<exists>a. p = make_member_ptr (NodeRef a) \<and> live_count (NodeRef a) live = 0 \<and> store_ok t \<and> balanced (live @ [p]) t
    \<and> dll_addrs (stNodes t) = dll_addrs (stNodes s) @ [a]"
proof -
  from assms(3-5) obtain k w tr where
    r: "requestNode ipc k True (s\<lparr>dsTrace := tr, dsWorld := w\<rparr>) = Inr (p, t)"
    by (auto simp: getNodeByName_def search_key_def ptr_null_def ptr_valid_def split: if_splits)
  let ?s = "s\<lparr>dsTrace := tr, dsWorld := w\<rparr>"
  have ok: "store_ok ?s" "balanced live ?s" using assms(1,2) by simp_all
  from requestNode_spec [OF ok r] obtain a where
    a: "p = make_member_ptr (NodeRef a)" "store_ok t" "balanced (live @ [p]) t"
      "dll_addrs (stNodes t) = dll_addrs (stNodes s) @ [a]" by auto
  have "a = length (dlMem (stNodes ?s))" using request_address [OF r] a(1) by (simp add: make_member_ptr_def)
  then have "live_count (NodeRef a) live = 0" using fresh_no_pointer [OF ok(2)] by simp
  then show ?thesis using a by blast
qed

text \<open>C28: Once a member is watched, resolving an initial name that the store does not know breaks the
  store: the new node is not watched and its last share is given back, so the store's next pass
  removes it, the last element, and leaves the end of the list dangling. From then on no node can be
  requested: every insertion writes to freed memory.\<close>

theorem second_initial_member_breaks_store:
  assumes "store_ok s" "balanced live s" "NodesMutex \<notin> set (dsHeld s)"
    and "wlMembers s = [(p, TYPE_INITIAL)]" "ptr_valid p"
    and "wlInitialMemberNames s = [n]" "node_findName n (stNodes s) = Inr None"
    and "tryInitialise ipc s = Inr ((), t)" "wlInitialMemberNames t = []"
  shows "wlMembers t = wlMembers s \<and> (\<exists>u. sweep_nodes ipc t = Inr ((), u)
    \<and> (\<forall>x rid. emplace_back x rid (stNodes u) = Inl UseAfterFree)
    \<and> (\<forall>k updates r. requestNode ipc k updates u \<noteq> Inr r))"
proof -
  from assms(6,8,9) obtain q s1 t1 b where
    q: "getNodeByName ipc n s = Inr (q, s1)" "ptr_valid q" "emplace_member q TYPE_INITIAL s1 = Inr (b, t1)"
      "t = t1\<lparr>wlInitialMemberNames := []\<rparr>"
    by (auto simp: tryInitialise_def split: if_splits)
  from getNodeByName_new [OF assms(1,2,7) q(1,2)] obtain a where
    a: "q = make_member_ptr (NodeRef a)" "live_count (NodeRef a) live = 0" "store_ok s1" "balanced (live @ [q]) s1"
      "dll_addrs (stNodes s1) = dll_addrs (stNodes s) @ [a]" by blast
  have same: "wl_same s s1" by (rule getNodeByName_same [OF q(1)])
  then have d: "ptr_destroy q s1 = Inr ((), t1)"
    using q(2,3) assms(4,5) by (auto simp: wl_same_def emplace_member_def ptr_less_def split: if_splits)
  then have "wl_same s1 t1" by (rule keeps_wl_same [OF keeps_ptr(2)])
  then have wl: "wl_same s t1" using same wl_same_trans by blast
  have t1: "store_ok t1" "dll_addrs (stNodes t1) = dll_addrs (stNodes s) @ [a]"
    using ptr_destroy_ok [OF a(3) d] destroy_addrs [OF a(3) d] a(5) by simp_all
  have "balanced live t1"
    using destroy_balanced [OF a(4), of "length live"] d by (simp add: erase_at_def)
  then have unused: "\<not> used (stNodes t1) a"
    using a(2) used_live [of live t1 "NodeRef a"] nodes.used_counter [of t1 a] by auto
  let ?t = "t1\<lparr>wlInitialMemberNames := []\<rparr>"
  have "store_ok ?t" "NodesMutex \<notin> set (dsHeld ?t)" "dll_addrs (stNodes ?t) = dll_addrs (stNodes s) @ [a]"
    "\<not> used (stNodes ?t) a"
    using t1 unused wl assms(3) by (simp_all add: wl_same_def store_ok_def)
  from sweep_last [OF this, of ipc] obtain u where
    u: "sweep_nodes ipc t = Inr ((), u)" "mEnd (stNodes u) = Some a" "cell (stNodes u) a = None"
      "a < length (dlMem (stNodes u))" using q(4) by blast
  have e: "emplace_back x rid (stNodes u) = Inl UseAfterFree" for x rid by (rule dangling_end [OF u(2-4)])
  then have "requestNode ipc k updates u \<noteq> Inr r" for k updates r
    by (cases r) (auto simp: requestNode_def list_op_Inr node_emplace_back_def)
  then show ?thesis using u(1) e wl q(4) by (auto simp: wl_same_def)
qed

text \<open>One node that is watched, and a second configured name.\<close>

definition demo_one_node :: store where
  "demo_one_node = \<lparr>stNodes = \<lparr>dlMem =
       [Some \<lparr>elPrev = None, elNext = None, elInstance = demo_node, elRequestId = 0, elUseCounter = 1\<rparr>],
      mBegin = Some 0, mEnd = Some 0\<rparr>, stTopics = dll_new\<rparr>"

definition demo_second :: "peer watchlist" where
  "demo_second = (demo_wl demo_one_node [''m''])\<lparr>wlMembers := [(make_member_ptr (NodeRef 0), TYPE_INITIAL)]\<rparr>"

lemma demo_second_state:
  "store_ok demo_second" "balanced [make_member_ptr (NodeRef 0)] demo_second"
  "node_findName ''m'' (stNodes demo_second) = Inr None"
proof -
  have r: "rep (stNodes demo_second) [0]" by (simp add: rep_def demo_second_def demo_wl_def demo_one_node_def cell_def)
  then show "store_ok demo_second"
    using rep_ok [OF r] by (simp add: store_ok_def) (simp add: demo_second_def demo_wl_def demo_one_node_def)
  show "balanced [make_member_ptr (NodeRef 0)] demo_second"
    by (auto simp: balanced_def counter_of_def demo_second_def demo_wl_def demo_one_node_def cell_def make_member_ptr_def
      dll_new_def split: member_ref.splits if_splits)
  show "node_findName ''m'' (stNodes demo_second) = Inr None"
    using find_rep [OF r] by (simp add: node_findName_def item_def demo_second_def demo_wl_def demo_one_node_def cell_def
      demo_node_def node_of_response_def c_str_def)
qed

lemma demo_second_resolved: "\<exists>t. tryInitialise demo_ipc demo_second = Inr ((), t) \<and> wlInitialMemberNames t = []"
  by (simp add: demo_second_def touch_def bindS_def tryInitialise_def getNodeByName_def node_findName_def
    find_where_def dll_new_def getsR_def search_key_def world_def demo_ipc_def peer_send_def receive_value_def c_str_def
    requestNode_def list_op_def node_emplace_back_def emplace_back_def mk_element_def Let_def request_cpu_def deref_def
    cell_def add_source_def put_nodes_def addAttributeSource_def on_instance_def modify_def demo_response_def
    node_of_response_def emplace_member_def make_member_ptr_def counter_at_def set_cell_def locked_def iter_preinc_def
    ptr_valid_def demo_wl_def demo_one_node_def demo_node_def ptr_less_def ptr_destroy_def)

lemma second_initial_member_breaks_store_witness:
  "\<exists>t u. tryInitialise demo_ipc demo_second = Inr ((), t) \<and> sweep_nodes demo_ipc t = Inr ((), u)
    \<and> emplace_back demo_node 0 (stNodes u) = Inl UseAfterFree"
proof -
  obtain t where t: "tryInitialise demo_ipc demo_second = Inr ((), t)" "wlInitialMemberNames t = []"
    using demo_second_resolved by blast
  have "NodesMutex \<notin> set (dsHeld demo_second)" "wlMembers demo_second = [(make_member_ptr (NodeRef 0), TYPE_INITIAL)]"
    "ptr_valid (make_member_ptr (NodeRef 0))" "wlInitialMemberNames demo_second = [''m'']"
    by (simp_all add: demo_second_def demo_wl_def ptr_valid_def make_member_ptr_def)
  from second_initial_member_breaks_store [OF demo_second_state(1,2) this demo_second_state(3) t] t(1)
  show ?thesis by blast
qed

end
