(* ===== verification/Circular_Buffer.thy ===== *)
theory Circular_Buffer
  imports Prelude Complex_Main
begin

text \<open>
  \<^verbatim>\<open>src/fault-detection/circular-buffer.{hpp,cpp}\<close>: the buffer of attribute samples that the
  fault detection and the abort criterion share. The vector is a list, the iterator
  \<open>mCurrent\<close> an index into it, \<open>double\<close> is \<open>real\<close> (rounding is not modelled) and the offset
  arithmetic of \<open>current(ptrdiff_t)\<close> is on 64-bit words, as C++ converts it.
\<close>

record circular_buffer =
  mMaxSize :: nat
  mBuffer :: "real list"
  mCurrent :: nat

definition cb_new :: "nat \<Rightarrow> circular_buffer result" where
  "cb_new maxSize = bindR (assertR (2 \<le> maxSize))
     (\<lambda>_. Inr \<lparr>mMaxSize = maxSize, mBuffer = [], mCurrent = 0\<rparr>)"

text \<open>Copying rebases the iterator by its offset; moving keeps the iterator of the moved vector,
  and the moved-from vector is left empty.\<close>

definition cb_copy :: "circular_buffer \<Rightarrow> circular_buffer" where
  "cb_copy other = \<lparr>mMaxSize = mMaxSize other, mBuffer = mBuffer other, mCurrent = 0 + (mCurrent other - 0)\<rparr>"

definition cb_assign :: "circular_buffer \<Rightarrow> circular_buffer \<Rightarrow> circular_buffer" where
  "cb_assign this other = this\<lparr>mMaxSize := mMaxSize other, mBuffer := mBuffer other, mCurrent := 0 + (mCurrent other - 0)\<rparr>"

definition cb_move :: "circular_buffer \<Rightarrow> circular_buffer \<times> circular_buffer" where
  "cb_move other =
     (\<lparr>mMaxSize = mMaxSize other, mBuffer = mBuffer other, mCurrent = mCurrent other\<rparr>,
      other\<lparr>mBuffer := []\<rparr>)"

definition cb_move_assign :: "circular_buffer \<Rightarrow> circular_buffer \<Rightarrow> circular_buffer \<times> circular_buffer" where
  "cb_move_assign this other =
     (this\<lparr>mMaxSize := mMaxSize other, mBuffer := mBuffer other, mCurrent := mCurrent other\<rparr>,
      other\<lparr>mBuffer := []\<rparr>)"

text \<open>
  \<open>vector::insert\<close> returns the position of the inserted element; its argument must be an
  iterator into the vector.
\<close>

definition cb_push :: "real \<Rightarrow> circular_buffer \<Rightarrow> (nat \<times> circular_buffer) result" where
  "cb_push v b =
     (if length (mBuffer b) < mCurrent b then Inl OutOfRange
      else let it = mCurrent b;
               buf = insert_at it v (mBuffer b)
           in Inr (it, b\<lparr>mBuffer := buf,
                         mCurrent := (if it = length buf \<and> length buf = mMaxSize b then 0 else it)\<rparr>))"

definition cb_at :: "circular_buffer \<Rightarrow> nat \<Rightarrow> real result" where
  "cb_at b i = (if i < length (mBuffer b) then Inr (mBuffer b ! i) else Inl OutOfRange)"

definition cb_current :: "circular_buffer \<Rightarrow> nat" where
  "cb_current b = mCurrent b"

definition cb_deref :: "circular_buffer \<Rightarrow> nat \<Rightarrow> real result" where
  "cb_deref b it = (if it < length (mBuffer b) then Inr (mBuffer b ! it) else Inl OutOfRange)"

definition cb_size :: "circular_buffer \<Rightarrow> nat" where
  "cb_size b = length (mBuffer b)"

definition cb_full :: "circular_buffer \<Rightarrow> bool" where
  "cb_full b \<longleftrightarrow> length (mBuffer b) = mMaxSize b"

definition cb_empty :: "circular_buffer \<Rightarrow> bool" where
  "cb_empty b \<longleftrightarrow> mBuffer b = []"

text \<open>
  \<open>(currentOffset + offset) % bufferSize\<close>: the left side is a signed 64-bit sum, the right a
  \<open>size_t\<close>, so the remainder is taken on the sum converted to an unsigned word. The result
  is then read as \<open>ptrdiff_t\<close>.
\<close>

definition cb_current_off :: "circular_buffer \<Rightarrow> 64 word \<Rightarrow> nat result" where
  "cb_current_off b offset =
     (let currentOffset = of_nat (mCurrent b) :: 64 word;
          bufferSize = of_nat (length (mBuffer b)) :: 64 word
      in if bufferSize = 0 then Inl DivisionByZero
         else let computedOffset = (currentOffset + offset) mod bufferSize;
                  computedOffset' = (if sint computedOffset < 0 then computedOffset + bufferSize
                                     else computedOffset)
              in Inr (unat computedOffset'))"

text \<open>\<open>std::accumulate\<close> folds from the left; dividing by \<open>bufferSize\<close> happens at the end.\<close>

definition accumulate :: "real list \<Rightarrow> real \<Rightarrow> (real \<Rightarrow> real \<Rightarrow> real) \<Rightarrow> real" where
  "accumulate xs init f = foldl f init xs"

definition cb_getMean :: "circular_buffer \<Rightarrow> real result" where
  "cb_getMean b = bindR (assertR (1 \<le> length (mBuffer b)))
     (\<lambda>_. Inr (accumulate (mBuffer b) 0 (\<lambda>acc v. acc + v) / real (length (mBuffer b))))"

definition cb_getStdDev :: "circular_buffer \<Rightarrow> real \<Rightarrow> real result" where
  "cb_getStdDev b mean = bindR (assertR (1 \<le> length (mBuffer b)))
     (\<lambda>_. Inr (sqrt (accumulate (mBuffer b) 0 (\<lambda>acc v. acc + (v - mean) * (v - mean))
                / real (length (mBuffer b)))))"

section \<open>Well-formedness and what push does\<close>

text \<open>
  The well-formed buffers are those the public operations produce: the iterator is always at the
  beginning, because \<open>insert\<close> never returns \<open>end()\<close>.
\<close>

definition cb_wf :: "circular_buffer \<Rightarrow> bool" where
  "cb_wf b \<longleftrightarrow> mCurrent b = 0 \<and> 2 \<le> mMaxSize b"

lemma cb_new_wf: "cb_new n = Inr b \<Longrightarrow> cb_wf b \<and> mBuffer b = [] \<and> mMaxSize b = n"
  by (auto simp: cb_new_def cb_wf_def)

lemma cb_new_iff: "(\<exists>b. cb_new n = Inr b) \<longleftrightarrow> 2 \<le> n"
  by (auto simp: cb_new_def bindR_def assertR_def)

lemma cb_push_wf_eq:
  "cb_wf b \<Longrightarrow> cb_push v b = Inr (0, b\<lparr>mBuffer := v # mBuffer b\<rparr>)"
  by (cases b) (simp add: cb_push_def cb_wf_def)

lemma cb_wf_push: "cb_wf b \<Longrightarrow> cb_push v b = Inr (it, b') \<Longrightarrow> cb_wf b'"
  by (auto simp: cb_push_wf_eq) (auto simp: cb_wf_def)

lemma cb_wf_copies [simp]:
  "cb_wf (cb_copy b) \<longleftrightarrow> cb_wf b" "cb_wf (cb_assign a b) \<longleftrightarrow> cb_wf b"
  "cb_wf (fst (cb_move b)) \<longleftrightarrow> cb_wf b" "cb_wf (fst (cb_move_assign a b)) \<longleftrightarrow> cb_wf b"
  by (auto simp: cb_wf_def cb_copy_def cb_assign_def cb_move_def cb_move_assign_def)

text \<open>Any push into any position keeps the iterator inside the vector.\<close>

lemma cb_push_in_bounds:
  assumes "cb_push v b = Inr (it, b')"
  shows "mCurrent b' < length (mBuffer b')" "length (mBuffer b') = Suc (length (mBuffer b))"
  using assms by (auto simp: cb_push_def Let_def split: if_splits)

fun cb_pushes :: "real list \<Rightarrow> circular_buffer \<Rightarrow> circular_buffer result" where
  "cb_pushes [] b = Inr b"
| "cb_pushes (v # vs) b = bindR (cb_push v b) (\<lambda>(_, b'). cb_pushes vs b')"

lemma cb_pushes_eq:
  "cb_wf b \<Longrightarrow> cb_pushes vs b = Inr (b\<lparr>mBuffer := rev vs @ mBuffer b\<rparr>)"
proof (induction vs arbitrary: b)
  case Nil
  then show ?case by simp
next
  case (Cons v vs)
  then have "cb_wf (b\<lparr>mBuffer := v # mBuffer b\<rparr>)" by (simp add: cb_wf_def)
  from Cons.IH [OF this] Cons.prems show ?case by (simp add: cb_push_wf_eq)
qed

section \<open>Mean and standard deviation\<close>

lemma accumulate_sum: "accumulate xs a (\<lambda>acc v. acc + g v) = a + (\<Sum>x\<leftarrow>xs. g x)"
  unfolding accumulate_def by (induction xs arbitrary: a) (auto simp: add.assoc)

definition mean_of :: "real list \<Rightarrow> real" where
  "mean_of xs = sum_list xs / real (length xs)"

definition var_of :: "real list \<Rightarrow> real \<Rightarrow> real" where
  "var_of xs m = (\<Sum>x\<leftarrow>xs. (x - m)\<^sup>2) / real (length xs)"

lemma var_of_nonneg: "0 \<le> var_of xs m"
  unfolding var_of_def by (intro divide_nonneg_nonneg sum_list_nonneg) auto

lemma cb_getMean_eq: "mBuffer b \<noteq> [] \<Longrightarrow> cb_getMean b = Inr (mean_of (mBuffer b))"
  using accumulate_sum [of "mBuffer b" 0 "\<lambda>v. v"]
  by (cases "mBuffer b") (auto simp: cb_getMean_def mean_of_def)

lemma cb_getStdDev_eq:
  "mBuffer b \<noteq> [] \<Longrightarrow> cb_getStdDev b m = Inr (sqrt (var_of (mBuffer b) m))"
  using accumulate_sum [of "mBuffer b" 0 "\<lambda>v. (v - m) * (v - m)"]
  by (cases "mBuffer b") (auto simp: cb_getStdDev_def var_of_def power2_eq_square)

text \<open>
  How far one sample can lie from the mean of its own sample (Samuelson's inequality): by
  Cauchy and Schwarz, at most \<open>sqrt (n - 1)\<close> standard deviations.
\<close>

lemma sum_list_sum_nth: "(\<Sum>x\<leftarrow>xs. g x) = (\<Sum>i<length xs. (g (xs ! i) :: real))"
  by (simp add: sum_list_sum_nth atLeast0LessThan)

lemma sum_dev_zero:
  assumes "xs \<noteq> []"
  shows "(\<Sum>i<length xs. xs ! i - mean_of xs) = 0"
proof -
  have "(\<Sum>i<length xs. xs ! i - mean_of xs) = sum_list xs - real (length xs) * mean_of xs"
    using sum_list_sum_nth [of "\<lambda>x. x" xs] by (simp add: sum_subtractf)
  then show ?thesis using assms by (simp add: mean_of_def)
qed

lemma square_sum_le:
  fixes f :: "'i \<Rightarrow> real"
  assumes "finite A"
  shows "(\<Sum>i\<in>A. f i)\<^sup>2 \<le> real (card A) * (\<Sum>i\<in>A. (f i)\<^sup>2)"
proof (cases "A = {}")
  case True
  then show ?thesis by simp
next
  case False
  let ?n = "real (card A)" and ?S = "\<Sum>i\<in>A. f i" and ?Q = "\<Sum>i\<in>A. (f i)\<^sup>2"
  have n: "0 < ?n" using False assms by (simp add: card_gt_0_iff)
  have "0 \<le> (\<Sum>i\<in>A. (f i - ?S / ?n)\<^sup>2)" by (intro sum_nonneg) auto
  also have "\<dots> = (\<Sum>i\<in>A. (f i)\<^sup>2 - 2 * (?S / ?n) * f i + (?S / ?n)\<^sup>2)"
    by (simp add: power2_diff algebra_simps)
  also have "\<dots> = ?Q - 2 * (?S / ?n) * ?S + ?n * (?S / ?n)\<^sup>2"
    by (simp add: sum.distrib sum_subtractf sum_distrib_left)
  finally show ?thesis using n by (simp add: field_simps power2_eq_square)
qed

lemma samuelson:
  assumes "x \<in> set xs"
  shows "(x - mean_of xs)\<^sup>2 \<le> (real (length xs) - 1) * var_of xs (mean_of xs)"
proof -
  let ?n = "length xs" and ?d = "\<lambda>i. xs ! i - mean_of xs"
  obtain j where j: "j < ?n" "x = xs ! j" using assms by (metis in_set_conv_nth)
  have ne: "xs \<noteq> []" and npos: "0 < real ?n" using j by auto
  let ?A = "{..<?n} - {j}"
  have "(\<Sum>i<?n. ?d i) = ?d j + (\<Sum>i\<in>?A. ?d i)"
    using j by (simp add: sum.remove)
  then have dj: "?d j = - (\<Sum>i\<in>?A. ?d i)" using sum_dev_zero [OF ne] by simp
  have sq: "(\<Sum>i<?n. (?d i)\<^sup>2) = (?d j)\<^sup>2 + (\<Sum>i\<in>?A. (?d i)\<^sup>2)"
    using j by (simp add: sum.remove)
  have "(?d j)\<^sup>2 \<le> real (card ?A) * (\<Sum>i\<in>?A. (?d i)\<^sup>2)"
    unfolding dj using square_sum_le [of ?A ?d] by simp
  also have "real (card ?A) = real ?n - 1" using j by (simp add: of_nat_diff)
  finally have "(?d j)\<^sup>2 \<le> (real ?n - 1) * ((\<Sum>i<?n. (?d i)\<^sup>2) - (?d j)\<^sup>2)"
    using sq by simp
  then have "real ?n * (?d j)\<^sup>2 \<le> (real ?n - 1) * (\<Sum>i<?n. (?d i)\<^sup>2)"
    by (simp add: algebra_simps)
  then have "(?d j)\<^sup>2 \<le> (real ?n - 1) * ((\<Sum>i<?n. (?d i)\<^sup>2) / real ?n)"
    using npos by (simp add: field_simps)
  then show ?thesis
    using j sum_list_sum_nth [of "\<lambda>x. (x - mean_of xs)\<^sup>2" xs] by (simp add: var_of_def)
qed

lemma deviation_bound:
  assumes "x \<in> set xs" "length xs \<le> 10"
  shows "\<bar>x - mean_of xs\<bar> \<le> 3 * sqrt (var_of xs (mean_of xs))"
proof -
  let ?v = "var_of xs (mean_of xs)"
  have "(x - mean_of xs)\<^sup>2 \<le> (real (length xs) - 1) * ?v" by (rule samuelson [OF assms(1)])
  also have "\<dots> \<le> 9 * ?v"
    using assms(2) var_of_nonneg by (intro mult_right_mono) auto
  finally have "sqrt ((x - mean_of xs)\<^sup>2) \<le> sqrt (9 * ?v)" by (rule real_sqrt_le_mono)
  moreover have "sqrt 9 = (3::real)" by (rule real_sqrt_unique) auto
  ultimately show ?thesis by (simp add: real_sqrt_mult)
qed

section \<open>Offsets\<close>

lemma signed_mod_word:
  fixes n :: nat and s :: int
  assumes "0 < n" "n < 2 ^ 63" "- (2 ^ 63) \<le> s" "s < 2 ^ 63"
  shows "(word_of_int s :: 64 word) mod of_nat n = word_of_int ((if 0 \<le> s then s else 2 ^ 64 + s) mod int n)"
proof -
  have u: "uint (word_of_int s :: 64 word) = (if 0 \<le> s then s else 2 ^ 64 + s)"
  proof (cases "0 \<le> s")
    case True
    then show ?thesis using assms by (simp add: uint_word_of_int)
  next
    case False
    then have "s mod 2 ^ 64 = (s + 2 ^ 64) mod 2 ^ 64" by simp
    also have "\<dots> = s + 2 ^ 64" using False assms by (intro mod_pos_pos_trivial) auto
    finally show ?thesis using False by (simp add: uint_word_of_int)
  qed
  have n: "uint (of_nat n :: 64 word) = int n" using assms by (simp add: uint_nat unat_of_nat)
  show ?thesis by (simp only: word_mod_def u n)
qed

lemma small_word_of_int:
  assumes "0 \<le> t" "t < 2 ^ 63"
  shows "sint (word_of_int t :: 64 word) = t" "unat (word_of_int t :: 64 word) = nat t"
  using assms
  by (simp_all add: sint_sbintrunc' signed_take_bit_int_eq_self unsigned_of_int
      take_bit_int_eq_self nat_eq_iff unat_eq_nat_uint)

lemma cb_current_off_eq:
  assumes "0 < length (mBuffer b)" "length (mBuffer b) < 2 ^ 63"
    and s: "s = int (mCurrent b) + sint off" "- (2 ^ 63) \<le> s" "s < 2 ^ 63"
  shows "cb_current_off b off =
    Inr (nat ((if 0 \<le> s then s else 2 ^ 64 + s) mod int (length (mBuffer b))))"
proof -
  let ?n = "length (mBuffer b)" and ?t = "if 0 \<le> s then s else 2 ^ 64 + s"
  have "(of_nat (mCurrent b) + off :: 64 word) = word_of_int (int (mCurrent b) + sint off)"
    by (simp add: wi_hom_add [symmetric])
  then have sum: "(of_nat (mCurrent b) + off :: 64 word) mod of_nat ?n = word_of_int (?t mod int ?n)"
    using signed_mod_word [OF assms(1,2), of s] s by simp
  have r: "0 \<le> ?t mod int ?n" "?t mod int ?n < int ?n" using assms(1) by auto
  have nz: "(of_nat ?n :: 64 word) \<noteq> 0"
    using assms(1,2) unat_of_nat [of ?n, where 'a = 64] by (auto simp del: length_greater_0_conv)
  have "int ?n < 2 ^ 63" using assms(2) by simp
  with r(2) have lt: "?t mod int ?n < 2 ^ 63" by (rule less_trans)
  note small = small_word_of_int [OF r(1) lt]
  show ?thesis
    unfolding cb_current_off_def Let_def sum using nz r(1) small by simp
qed

section \<open>Properties\<close>

text \<open>C36: A buffer filled by pushes holds every value pushed, newest first: no value is ever
  overwritten, \<open>current()\<close> reads the newest, and \<open>full()\<close> holds exactly while the number of
  pushes equals the maximal size, not afterwards.\<close>

theorem push_keeps_every_value:
  assumes "cb_new n = Inr b" and "vs \<noteq> []"
  shows "\<exists>b'. cb_pushes vs b = Inr b' \<and> mBuffer b' = rev vs \<and> cb_size b' = length vs
    \<and> cb_deref b' (cb_current b') = Inr (last vs) \<and> (cb_full b' \<longleftrightarrow> length vs = n)"
proof -
  from cb_new_wf [OF assms(1)] have b: "cb_wf b" "mBuffer b = []" "mMaxSize b = n" "mCurrent b = 0"
    by (auto simp: cb_wf_def)
  have "rev vs ! 0 = last vs" using assms(2) by (simp add: rev_nth last_conv_nth)
  then show ?thesis
    using assms(2) b
    by (auto simp: cb_pushes_eq cb_size_def cb_deref_def cb_current_def cb_full_def)
qed

lemma push_keeps_every_value_witness:
  "\<exists>b'. cb_pushes [1, 2, 3] \<lparr>mMaxSize = 2, mBuffer = [], mCurrent = 0\<rparr> = Inr b'
     \<and> mBuffer b' = [3, 2, 1] \<and> \<not> cb_full b'"
  using push_keeps_every_value [of 2 "\<lparr>mMaxSize = 2, mBuffer = [], mCurrent = 0\<rparr>" "[1, 2, 3]"]
  by (auto simp: cb_new_def)

text \<open>\<open>current(offset)\<close> with the iterator and offset summing to a non-negative number is the
  index taken modulo the size; for a negative sum the remainder is taken of the sum plus \<open>2^64\<close>.\<close>

theorem current_offset_index:
  assumes "cb_wf b" "0 < cb_size b" "cb_size b < 2 ^ 63"
  shows "cb_current_off b off =
    Inr (nat ((if 0 \<le> sint off then sint off else 2 ^ 64 + sint off) mod int (cb_size b)))"
proof -
  have "- (2 ^ 63) \<le> sint off" "sint off < 2 ^ 63"
    using sint_range_size [of off] by (auto simp: word_size)
  with assms show ?thesis
    by (intro cb_current_off_eq [folded cb_size_def]) (auto simp: cb_wf_def)
qed

lemma current_offset_index_witness:
  "cb_current_off \<lparr>mMaxSize = 10, mBuffer = replicate 10 0, mCurrent = 0\<rparr> (-1) = Inr 5"
  by (subst current_offset_index) (auto simp: cb_wf_def cb_size_def)

text \<open>The offset \<open>-1\<close> selects the last element of the vector, as a ring would, exactly when
  the number of stored values divides \<open>2^64\<close>.\<close>

theorem current_minus_one:
  assumes "cb_wf b" "0 < cb_size b" "cb_size b < 2 ^ 63"
  shows "cb_current_off b (-1) = Inr (cb_size b - 1) \<longleftrightarrow> cb_size b dvd 2 ^ 64"
proof -
  let ?n = "int (cb_size b)"
  have eq: "cb_current_off b (-1) = Inr (nat ((2 ^ 64 - 1) mod ?n))"
    using cb_current_off_eq [of b "-1" "-1"] assms by (simp add: cb_size_def cb_wf_def)
  have n: "0 < ?n" using assms by simp
  have "nat ((2 ^ 64 - 1) mod ?n) = cb_size b - 1 \<longleftrightarrow> (2 ^ 64 - 1) mod ?n = ?n - 1"
    using n pos_mod_sign [OF n, of "2 ^ 64 - 1"] by linarith
  also have "\<dots> \<longleftrightarrow> ?n dvd 2 ^ 64"
  proof
    assume a: "(2 ^ 64 - 1) mod ?n = ?n - 1"
    have "(2 ^ 64) mod ?n = ((2 ^ 64 - 1) mod ?n + 1) mod ?n" by (simp add: mod_add_left_eq)
    then show "?n dvd 2 ^ 64" using a by (simp add: mod_0_imp_dvd)
  next
    assume "?n dvd 2 ^ 64"
    then have "(2 ^ 64 - 1) mod ?n = (- 1) mod ?n"
      by (metis diff_0 dvd_eq_mod_eq_0 mod_diff_left_eq)
    also have "\<dots> = ?n - 1" using n by (simp add: zmod_minus1)
    finally show "(2 ^ 64 - 1) mod ?n = ?n - 1" .
  qed
  also have "\<dots> \<longleftrightarrow> cb_size b dvd 2 ^ 64"
    by (metis int_dvd_int_iff of_nat_numeral of_nat_power)
  finally show ?thesis using eq by simp
qed

lemma current_minus_one_witness:
  "cb_current_off \<lparr>mMaxSize = 10, mBuffer = replicate 10 0, mCurrent = 0\<rparr> (-1) \<noteq> Inr 9"
  using current_minus_one [of "\<lparr>mMaxSize = 10, mBuffer = replicate 10 0, mCurrent = 0\<rparr>"]
  by (simp add: cb_wf_def cb_size_def)

end
