(* ===== verification/Fault_Detection.thy ===== *)
theory Fault_Detection
  imports Watchlist Circular_Buffer
begin

text \<open>
  \<^verbatim>\<open>src/fault-detection/fault-detection.{hpp,cpp}\<close>: per watched member a window of samples of each
  attribute, and the detection of faults in it. The object's state extends the watchlist's. The
  windows are a \<open>std::map\<close> keyed by counted pointers, sorted by \<open>ptr_less\<close>; a window is a map from
  attribute names to circular buffers.
\<close>

section \<open>State\<close>

datatype severity = SEVERITY_NORMAL

record alert =
  alMember :: member_ptr
  alAffected :: "string list"
  alTimestamp :: int
  alSeverity :: severity

type_synonym attribute_window = "(string \<times> circular_buffer) list"

record 'w fault_detection = "'w watchlist" +
  fdAlerts :: "alert list"
  fdMovingWindow :: "(member_ptr \<times> attribute_window) list"
  fdMovingWindowSize :: nat

text \<open>The constructor gets the configured window size; there are no windows and no alerts yet.\<close>

definition fd_new :: "nat \<Rightarrow> 'w watchlist \<Rightarrow> 'w fault_detection" where
  "fd_new movingWindowSize watchlist = watchlist.extend watchlist
     \<lparr>fdAlerts = [], fdMovingWindow = [], fdMovingWindowSize = movingWindowSize\<rparr>"

section \<open>Windows\<close>

definition create_entry :: "nat \<Rightarrow> string \<times> real \<Rightarrow> attribute_window \<Rightarrow> attribute_window result" where
  "create_entry maxSize = (\<lambda>(descriptor, attributes) window.
     bindR (cb_new maxSize) (\<lambda>raw. bindR (cb_push attributes raw) (\<lambda>(_, raw').
     Inr (fst (map_emplace string_less descriptor (fst (cb_move raw')) window)))))"

definition createAttrWindow :: "nat \<Rightarrow> (string \<times> real) list \<Rightarrow> attribute_window result" where
  "createAttrWindow maxSize mapping = foldR (create_entry maxSize) mapping []"

definition update_entry :: "string \<times> real \<Rightarrow> attribute_window \<Rightarrow> attribute_window result" where
  "update_entry = (\<lambda>(descriptor, attributes) window.
     case map_find string_less descriptor window of
       None \<Rightarrow> Inl OutOfRange
     | Some b \<Rightarrow> bindR (cb_push attributes b) (\<lambda>(_, b').
         Inr (map_modify string_less descriptor (\<lambda>_. b') window)))"

definition updateAttrWindow :: "attribute_window \<Rightarrow> (string \<times> real) list \<Rightarrow> attribute_window result" where
  "updateAttrWindow window mapping = foldR update_entry mapping window"

section \<open>Detecting faults\<close>

text \<open>One buffer: is the current value outside three standard deviations around the mean?\<close>

definition buffer_faulty :: "circular_buffer \<Rightarrow> bool result" where
  "buffer_faulty b = bindR (cb_getMean b) (\<lambda>mean. bindR (cb_getStdDev b mean) (\<lambda>stdDev.
     bindR (cb_deref b (cb_current b)) (\<lambda>currentValue.
     Inr (mean - 3 * stdDev > currentValue \<or> mean + 3 * stdDev < currentValue))))"

fun affected_attributes :: "attribute_window \<Rightarrow> string list \<Rightarrow> string list result" where
  "affected_attributes [] acc = Inr acc"
| "affected_attributes ((descriptor, b) # window) acc =
     (if cb_empty b then affected_attributes window acc
      else bindR (buffer_faulty b) (\<lambda>f. affected_attributes window (if f then acc @ [descriptor] else acc)))"

text \<open>Is the member a node that is not alive?\<close>

definition dead_node :: "member_ptr \<Rightarrow> 'z store_scheme \<Rightarrow> bool result" where
  "dead_node member st = bindR (ptr_isTopic member st) (\<lambda>isTopic.
     if isTopic then Inr False else bindR (asNode member st) (\<lambda>n. Inr (\<not> mAlive n)))"

text \<open>The parameter is a copy of the caller's pointer, and the alert holds a further copy.\<close>

definition detectFaults ::
  "'w ipc \<Rightarrow> member_ptr \<Rightarrow> attribute_window \<Rightarrow> (('w, 'z) data_store_scheme, bool \<times> alert) op" where
  "detectFaults ipc caller window =
     bindS (ptr_copy caller) (\<lambda>member.
     bindS (ptr_assign ptr_null member) (\<lambda>alertMember.
     bindS (world (systemNow ipc)) (\<lambda>now.
     bindS (getsR (dead_node member)) (\<lambda>dead.
     bindS (if dead then returnS [] else liftR (affected_attributes window [])) (\<lambda>affected.
     bindS (ptr_destroy member) (\<lambda>_.
     returnS (dead \<or> affected \<noteq> [], \<lparr>alMember = alertMember, alAffected = affected, alTimestamp = now,
       alSeverity = SEVERITY_NORMAL\<rparr>)))))))"

section \<open>The loop\<close>

text \<open>\<open>member->getAttributes()\<close>: the element keeps the polled values.\<close>

definition get_attributes :: "'w ipc \<Rightarrow> member_ptr \<Rightarrow> (('w, 'z) data_store_scheme, (string \<times> real) list) op" where
  "get_attributes ipc p s = (case mpMember p of
       None \<Rightarrow> Inl NullDereference
     | Some (NodeRef a) \<Rightarrow> bindR (deref (stNodes s) (Some a)) (\<lambda>e.
         bindR (getAttributes ipc (elInstance e) (dsWorld s)) (\<lambda>(out, m, w).
         bindR (on_instance (Some a) (\<lambda>_. m) (stNodes s)) (\<lambda>(_, d).
         Inr (out, put_nodes d (s\<lparr>dsWorld := w\<rparr>)))))
     | Some (TopicRef a) \<Rightarrow> bindR (deref (stTopics s) (Some a)) (\<lambda>e.
         bindR (getAttributes ipc (elInstance e) (dsWorld s)) (\<lambda>(out, m, w).
         bindR (on_instance (Some a) (\<lambda>_. m) (stTopics s)) (\<lambda>(_, d).
         Inr (out, put_topics d (s\<lparr>dsWorld := w\<rparr>))))))"

text \<open>Sampling one watched member; the result is what is left of the pointer in the vector.\<close>

definition observe_member :: "'w ipc \<Rightarrow> member_ptr \<Rightarrow> (('w, 'z) fault_detection_scheme, member_ptr) op" where
  "observe_member ipc p = bindS (get_attributes ipc p) (\<lambda>attributes. bindS (touch MovingWindow) (\<lambda>_ s.
     case map_find ptr_less p (fdMovingWindow s) of
       None \<Rightarrow> bindR (createAttrWindow (fdMovingWindowSize s) attributes) (\<lambda>window.
         Inr (snd (ptr_move p),
              s\<lparr>fdMovingWindow := fst (map_emplace ptr_less (fst (ptr_move p)) window (fdMovingWindow s))\<rparr>))
     | Some window \<Rightarrow> bindR (updateAttrWindow window attributes) (\<lambda>window'.
         Inr (p, s\<lparr>fdMovingWindow := map_modify ptr_less p (\<lambda>_. window') (fdMovingWindow s)\<rparr>))))"

definition push_alert :: "alert \<Rightarrow> (('w, 'z) fault_detection_scheme, unit) op" where
  "push_alert alert = locked AlertMutex (bindS (touch AlertList) (\<lambda>_ s.
     Inr ((), s\<lparr>fdAlerts := fdAlerts s @ [alert]\<rparr>)))"

text \<open>
  One entry of the moving window; the result tells whether it stays. The first attribute's buffer
  stands for all. An alert that is not raised gives its share of the member back.
\<close>

definition detect_entry ::
  "'w ipc \<Rightarrow> member_ptr \<times> attribute_window \<Rightarrow> (('w, 'z) fault_detection_scheme, bool) op" where
  "detect_entry ipc = (\<lambda>(member, window). case window of
       [] \<Rightarrow> failS NullDereference
     | (_, b) # _ \<Rightarrow>
         if \<not> cb_full b then returnS True
         else bindS (detectFaults ipc member window) (\<lambda>(fault, alert).
           bindS (if fault then push_alert alert else returnS ()) (\<lambda>_.
           bindS (getsR (ptr_key member)) (\<lambda>k.
           bindS (notifyUsed k) (\<lambda>used.
           bindS (if used then ptr_destroy member else returnS ()) (\<lambda>_.
           bindS (if fault then returnS () else ptr_destroy (alMember alert)) (\<lambda>_.
           returnS (\<not> used))))))))"

fun detect_entries :: "'w ipc \<Rightarrow> (member_ptr \<times> attribute_window) list \<Rightarrow>
    (('w, 'z) fault_detection_scheme, (member_ptr \<times> attribute_window) list) op" where
  "detect_entries ipc [] = returnS []"
| "detect_entries ipc (e # es) = bindS (detect_entry ipc e) (\<lambda>stays.
     bindS (detect_entries ipc es) (\<lambda>kept. returnS (if stays then e # kept else kept)))"

text \<open>The second loop, over the whole moving window.\<close>

definition fd_detect :: "'w ipc \<Rightarrow> (('w, 'z) fault_detection_scheme, unit) op" where
  "fd_detect ipc =
     bindS (touch MovingWindow) (\<lambda>_.
     bindS (\<lambda>s. detect_entries ipc (fdMovingWindow s) s) (\<lambda>kept.
     (\<lambda>s. Inr ((), s\<lparr>fdMovingWindow := kept\<rparr>))))"

text \<open>The body of the loop of \<open>run\<close>; at its end the vector of watched members is destroyed.\<close>

definition fd_body :: "'w ipc \<Rightarrow> (('w, 'z) fault_detection_scheme, unit) op" where
  "fd_body ipc =
     bindS (getMembers ipc) (\<lambda>members.
     bindS (mapS (observe_member ipc) members) (\<lambda>left.
     bindS (fd_detect ipc) (\<lambda>_. forS left ptr_destroy)))"

definition copy_alert :: "alert \<Rightarrow> (('w, 'z) data_store_scheme, alert) op" where
  "copy_alert a = bindS (ptr_copy (alMember a)) (\<lambda>p. returnS (a\<lparr>alMember := p\<rparr>))"

definition getEmittedAlerts :: "(('w, 'z) fault_detection_scheme, alert list) op" where
  "getEmittedAlerts = locked AlertMutex (bindS (touch AlertList) (\<lambda>_ s.
     bindS (mapS copy_alert (fdAlerts s)) (\<lambda>out.
     bindS (forS (map alMember (fdAlerts s)) ptr_destroy) (\<lambda>_ s.
     Inr (out, s\<lparr>fdAlerts := []\<rparr>))) s))"

definition fd_reset :: "(('w, 'z) fault_detection_scheme, unit) op" where
  "fd_reset = bindS (touch MovingWindow) (\<lambda>_ s.
     bindS (forS (map fst (fdMovingWindow s)) ptr_destroy) (\<lambda>_ s. Inr ((), s\<lparr>fdMovingWindow := []\<rparr>)) s)"

section \<open>Lemmas about the statistics\<close>

lemma buffer_faulty_eq:
  assumes "cb_wf b" "mBuffer b \<noteq> []"
  shows "buffer_faulty b = Inr (3 * sqrt (var_of (mBuffer b) (mean_of (mBuffer b)))
    < \<bar>hd (mBuffer b) - mean_of (mBuffer b)\<bar>)"
proof -
  have "cb_deref b (cb_current b) = Inr (hd (mBuffer b))"
    using assms by (simp add: cb_deref_def cb_current_def cb_wf_def hd_conv_nth)
  then show ?thesis using assms(2) by (auto simp: buffer_faulty_def cb_getMean_eq cb_getStdDev_eq)
qed

text \<open>With at most ten samples no value is three standard deviations away from the mean.\<close>

lemma short_buffer_never_faulty:
  assumes "cb_wf b" "mBuffer b \<noteq> []" "length (mBuffer b) \<le> 10"
  shows "buffer_faulty b = Inr False"
  using deviation_bound [OF hd_in_set [OF assms(2)] assms(3)] buffer_faulty_eq [OF assms(1,2)] by simp

lemma short_window_unaffected:
  "\<forall>(d, b)\<in>set window. cb_wf b \<and> length (mBuffer b) \<le> 10 \<Longrightarrow> affected_attributes window acc = Inr acc"
  by (induction window arbitrary: acc) (auto simp: cb_empty_def short_buffer_never_faulty)

text \<open>A single different value after \<open>n - 1\<close> equal ones.\<close>

lemma spike_statistics:
  fixes a b :: real
  assumes "0 < n"
  defines "xs \<equiv> b # replicate (n - 1) a"
  shows "mean_of xs - b = (real n - 1) * (a - b) / real n"
    and "var_of xs (mean_of xs) = (real n - 1) * ((a - b) / real n)\<^sup>2"
proof -
  have n: "real n \<noteq> 0" "real (n - 1) = real n - 1" "length xs = n"
    using assms(1) by (auto simp: xs_def of_nat_diff)
  have m: "mean_of xs = (b + (real n - 1) * a) / real n"
    using n by (simp add: mean_of_def xs_def sum_list_replicate)
  then show mb: "mean_of xs - b = (real n - 1) * (a - b) / real n"
    using n(1) by (simp add: field_simps)
  have ma: "a - mean_of xs = (a - b) / real n" using n(1) m by (simp add: field_simps)
  have "var_of xs (mean_of xs) = ((b - mean_of xs)\<^sup>2 + (real n - 1) * (a - mean_of xs)\<^sup>2) / real n"
    using n(2,3) by (simp add: var_of_def xs_def sum_list_replicate map_replicate_const)
  also have "\<dots> = (((real n - 1) * ((a - b) / real n))\<^sup>2 + (real n - 1) * ((a - b) / real n)\<^sup>2) / real n"
    using mb ma by (simp add: power2_commute [of b])
  also have "\<dots> = (real n - 1) * ((a - b) / real n)\<^sup>2 * (((real n - 1) + 1) / real n)"
  proof -
    have "((c * q)\<^sup>2 + c * q\<^sup>2) / m = c * q\<^sup>2 * ((c + 1) / m)" for c q m :: real
      by (simp add: power2_eq_square algebra_simps)
    then show ?thesis .
  qed
  finally show "var_of xs (mean_of xs) = (real n - 1) * ((a - b) / real n)\<^sup>2" using n(1) by simp
qed

lemma spike_faulty_iff:
  fixes a b :: real
  assumes "cb_wf buf" "mBuffer buf = b # replicate (n - 1) a" "0 < n" "a \<noteq> b"
  shows "buffer_faulty buf = Inr (10 < n)"
proof -
  let ?xs = "b # replicate (n - 1) a" and ?q = "\<bar>a - b\<bar> / real n"
  have q: "0 < ?q" "((a - b) / real n)\<^sup>2 = ?q\<^sup>2" using assms by (auto simp: power_divide)
  have s: "sqrt (var_of ?xs (mean_of ?xs)) = sqrt (real n - 1) * ?q"
    using spike_statistics(2) [OF assms(3), of b a] q by (simp add: real_sqrt_mult)
  have n1: "real n - 1 = sqrt (real n - 1) * sqrt (real n - 1)" using assms(3) by simp
  have d: "\<bar>b - mean_of ?xs\<bar> = (real n - 1) * ?q"
    using spike_statistics(1) [OF assms(3), of b a] assms(3) by (simp add: abs_minus_commute [of b] abs_mult)
  have "3 * (sqrt (real n - 1) * ?q) < (real n - 1) * ?q \<longleftrightarrow> 3 * sqrt (real n - 1) < real n - 1"
    using q(1) by (metis mult.assoc mult_less_cancel_right_pos)
  also have "\<dots> \<longleftrightarrow> 10 < n"
  proof -
    have "3 * sqrt (real n - 1) < sqrt (real n - 1) * sqrt (real n - 1) \<longleftrightarrow> 3 < sqrt (real n - 1)"
    proof (cases "n = 1")
      case False
      then have "0 < sqrt (real n - 1)" using assms(3) by simp
      then show ?thesis by (rule mult_less_cancel_right_pos)
    qed simp
    also have "\<dots> \<longleftrightarrow> 9 < real n - 1"
      using real_sqrt_less_iff [of 9 "real n - 1"] real_sqrt_unique [of 3 9] by simp
    finally show ?thesis using n1 by simp
  qed
  finally show ?thesis using buffer_faulty_eq [OF assms(1)] assms(2) s d by simp
qed

section \<open>Lemmas about windows\<close>

definition sampled :: "nat \<Rightarrow> real list \<Rightarrow> circular_buffer" where
  "sampled n vs = \<lparr>mMaxSize = n, mBuffer = vs, mCurrent = 0\<rparr>"

lemma sampled_wf: "2 \<le> n \<Longrightarrow> cb_wf (sampled n vs)"
  by (simp add: sampled_def cb_wf_def)

lemma sampled_fields [simp]: "mBuffer (sampled n vs) = vs" "mMaxSize (sampled n vs) = n"
  by (simp_all add: sampled_def)

lemma create_entry_eq:
  "2 \<le> n \<Longrightarrow> create_entry n (d, v) window = Inr (fst (map_emplace string_less d (sampled n [v]) window))"
  by (simp add: create_entry_def cb_new_def cb_push_def cb_move_def sampled_def)

lemma update_entry_eq:
  "map_find string_less d window = Some (sampled n vs) \<Longrightarrow>
    update_entry (d, v) window = Inr (map_modify string_less d (\<lambda>_. sampled n (v # vs)) window)"
  by (simp add: update_entry_def cb_push_def sampled_def)

lemma foldR_create:
  assumes "2 \<le> n"
  shows "map_ok string_less window \<Longrightarrow> \<exists>w. foldR (create_entry n) m window = Inr w \<and> map_ok string_less w
    \<and> map_of w = (\<lambda>d. case map_of window d of Some b \<Rightarrow> Some b | None \<Rightarrow> map_option (\<lambda>v. sampled n [v]) (map_of m d))"
proof (induction m arbitrary: window)
  case Nil
  then show ?case by (auto simp: fun_eq_iff split: option.split)
next
  case (Cons x m)
  obtain d v where x: "x = (d, v)" by force
  let ?w = "fst (map_emplace string_less d (sampled n [v]) window)"
  have ok: "map_ok string_less ?w" using Cons.prems by (rule strmap.emplace_ok)
  from Cons.IH [OF ok] obtain w where w: "foldR (create_entry n) m ?w = Inr w" "map_ok string_less w"
    "map_of w = (\<lambda>d. case map_of ?w d of Some b \<Rightarrow> Some b | None \<Rightarrow> map_option (\<lambda>v. sampled n [v]) (map_of m d))"
    by blast
  then show ?case using x create_entry_eq [OF assms]
    by (auto simp: fun_eq_iff strmap.map_of_emplace [OF Cons.prems] split: option.split)
qed

lemma foldR_update:
  "map_ok string_less window \<Longrightarrow> distinct (map fst m) \<Longrightarrow> \<forall>d\<in>fst ` set m. \<exists>vs. map_of window d = Some (sampled n vs) \<Longrightarrow>
   \<exists>w. foldR update_entry m window = Inr w \<and> map_ok string_less w
    \<and> map_of w = (\<lambda>d. case map_of m d of None \<Rightarrow> map_of window d
        | Some v \<Rightarrow> map_option (\<lambda>b. sampled n (v # mBuffer b)) (map_of window d))"
proof (induction m arbitrary: window)
  case Nil
  then show ?case by auto
next
  case (Cons x m)
  obtain d v where x: "x = (d, v)" by force
  obtain vs where vs: "map_of window d = Some (sampled n vs)" using Cons.prems(3) x by auto
  let ?w = "map_modify string_less d (\<lambda>_. sampled n (v # vs)) window"
  have u: "update_entry (d, v) window = Inr ?w"
    using vs strmap.find_eq_map_of [of d window] by (intro update_entry_eq) simp
  have mw: "map_of ?w = (map_of window)(d := Some (sampled n (v # vs)))"
    by (simp add: strmap.map_of_modify vs)
  have "\<forall>e\<in>fst ` set m. \<exists>vs. map_of ?w e = Some (sampled n vs)" using Cons.prems(3) mw by auto
  moreover have "map_ok string_less ?w" using Cons.prems(1) by simp
  ultimately obtain w where w: "foldR update_entry m ?w = Inr w" "map_ok string_less w"
    "map_of w = (\<lambda>d. case map_of m d of None \<Rightarrow> map_of ?w d
        | Some v \<Rightarrow> map_option (\<lambda>b. sampled n (v # mBuffer b)) (map_of ?w d))"
    using Cons.IH [of ?w] Cons.prems(2) by auto
  have "map_of m d = None" using Cons.prems(2) x by (simp add: map_of_eq_None_iff)
  then show ?case using w u x mw vs by (auto simp: fun_eq_iff split: option.split)
qed

text \<open>The window of a member after its samples: created with the first, updated with the others.\<close>

definition window_after :: "nat \<Rightarrow> (string \<times> real) list list \<Rightarrow> attribute_window result" where
  "window_after n ms = (case ms of [] \<Rightarrow> Inr []
     | m # ms' \<Rightarrow> bindR (createAttrWindow n m) (foldR (\<lambda>m w. updateAttrWindow w m) ms'))"

definition same_attributes :: "(string \<times> real) list list \<Rightarrow> string set \<Rightarrow> bool" where
  "same_attributes ms ks \<longleftrightarrow> (\<forall>m\<in>set ms. distinct (map fst m) \<and> fst ` set m = ks)"

lemma updates_window:
  "map_ok string_less w0 \<Longrightarrow> same_attributes ms ks \<Longrightarrow>
   map_of w0 = (\<lambda>d. if d \<in> ks then Some (sampled n (vs d)) else None) \<Longrightarrow>
   \<exists>w. foldR (\<lambda>m w. updateAttrWindow w m) ms w0 = Inr w \<and> map_ok string_less w
    \<and> map_of w = (\<lambda>d. if d \<in> ks then Some (sampled n (rev (map (\<lambda>m. the (map_of m d)) ms) @ vs d)) else None)"
proof (induction ms arbitrary: w0 vs)
  case (Cons m ms)
  have m: "distinct (map fst m)" "fst ` set m = ks" "same_attributes ms ks"
    using Cons.prems(2) by (auto simp: same_attributes_def)
  have "\<forall>d\<in>fst ` set m. \<exists>vs. map_of w0 d = Some (sampled n vs)" using Cons.prems(3) m(2) by auto
  from foldR_update [OF Cons.prems(1) m(1) this] obtain w where
    w: "updateAttrWindow w0 m = Inr w" "map_ok string_less w"
      "map_of w = (\<lambda>d. case map_of m d of None \<Rightarrow> map_of w0 d
        | Some v \<Rightarrow> map_option (\<lambda>b. sampled n (v # mBuffer b)) (map_of w0 d))"
    by (auto simp: updateAttrWindow_def)
  have "map_of m d = Some (the (map_of m d))" if "d \<in> ks" for d
    using that m(2) by (metis map_of_eq_None_iff option.collapse)
  moreover have "map_of m d = None" if "d \<notin> ks" for d using that m(2) by (metis map_of_eq_None_iff)
  ultimately have "map_of w = (\<lambda>d. if d \<in> ks then Some (sampled n (the (map_of m d) # vs d)) else None)"
    using w(3) Cons.prems(3) by (fastforce simp: fun_eq_iff split: option.split)
  from Cons.IH [OF w(2) m(3) this] w(1) show ?case by (simp cong: if_cong)
qed (simp cong: if_cong)

lemma window_after_spec:
  assumes "2 \<le> n" "ms \<noteq> []" "same_attributes ms ks"
  shows "\<exists>w. window_after n ms = Inr w \<and> map_ok string_less w
    \<and> map_of w = (\<lambda>d. if d \<in> ks then Some (sampled n (rev (map (\<lambda>m. the (map_of m d)) ms))) else None)"
proof -
  obtain m ms' where ms: "ms = m # ms'" using assms(2) by (cases ms) auto
  then have m: "fst ` set m = ks" "same_attributes ms' ks" using assms(3) by (auto simp: same_attributes_def)
  from foldR_create [OF assms(1) map_ok_Nil] obtain w0 where w0: "createAttrWindow n m = Inr w0"
    "map_ok string_less w0" "map_of w0 = (\<lambda>d. map_option (\<lambda>v. sampled n [v]) (map_of m d))"
    by (auto simp: createAttrWindow_def)
  have "map_of w0 d = (if d \<in> ks then Some (sampled n [the (map_of m d)]) else None)" for d
    using w0(3) m(1) map_of_eq_None_iff [of m d] by (cases "map_of m d") auto
  then have "map_of w0 = (\<lambda>d. if d \<in> ks then Some (sampled n [the (map_of m d)]) else None)" by auto
  from updates_window [OF w0(2) m(2) this] w0(1) ms show ?thesis by (simp add: window_after_def cong: if_cong)
qed

lemma map_of_ok_set: "map_ok string_less w \<Longrightarrow> (d, b) \<in> set w \<longleftrightarrow> map_of w d = Some b"
  using strmap.distinct_keys [of w] by (simp add: map_of_eq_Some_iff)

section \<open>Lemmas about pointers and alerts\<close>

text \<open>Changing a counter does not change what is read through pointers.\<close>

lemma counter_at_instances:
  assumes "counter_at f r s = Inr (u, t)"
  shows "map_option elInstance (cell (stNodes t) a) = map_option elInstance (cell (stNodes s) a)"
    and "map_option elInstance (cell (stTopics t) a) = map_option elInstance (cell (stTopics s) a)"
  using assms
  by (auto simp: counter_at_def modify_def deref_Inr split: option.splits member_ref.splits dest: cell_Some_less)

lemma deref_instance:
  "bindR (deref d (Some a)) (\<lambda>e. k (elInstance e))
    = (case map_option elInstance (cell d a) of None \<Rightarrow> Inl UseAfterFree | Some i \<Rightarrow> k i)"
  by (auto simp: deref_def split: option.split)

lemma counter_at_reads:
  assumes "counter_at f r s = Inr (u, t)"
  shows "ptr_isTopic p t = ptr_isTopic p s" "asNode p t = asNode p s" "asTopic p t = asTopic p s"
    "ptr_key p t = ptr_key p s"
proof -
  note d = deref_instance [of _ _ "\<lambda>i. Inr (mIsTopic i)"] deref_instance [of _ _ "\<lambda>i. Inr (mPrimaryKey i)"]
    deref_instance [of _ _ Inr] counter_at_instances [OF assms]
  show i: "ptr_isTopic p t = ptr_isTopic p s" by (simp add: ptr_isTopic_def d split: option.split member_ref.split)
  show "asNode p t = asNode p s" "asTopic p t = asTopic p s" "ptr_key p t = ptr_key p s"
    by (simp_all add: asNode_def asTopic_def ptr_key_def i d split: option.split member_ref.split cong: if_cong)
qed

end
