(* ===== verification/Fault_Detection_Properties.thy ===== *)
theory Fault_Detection_Properties
  imports Fault_Detection
begin

text \<open>
  Properties of the fault detection: what the three sigma rule can find, when a member is examined,
  what its window holds, and that every alert is handed out once.
\<close>

section \<open>Reading a member while its pointers are copied\<close>

lemma dead_node_reads: "counter_at f r s = Inr (u, t) \<Longrightarrow> dead_node p t = dead_node p s"
  by (simp add: dead_node_def counter_at_reads cong: if_cong)

lemma ptr_copy_reads:
  assumes "ptr_copy p s = Inr (q, t)"
  shows "dead_node q' t = dead_node q' s" "mpMember q = mpMember p"
  using assms by (auto simp: ptr_copy_def ptr_null_def dead_node_reads split: if_splits)

lemma ptr_assign_reads:
  assumes "ptr_assign p q s = Inr (r, t)"
  shows "dead_node q' t = dead_node q' s" "mpMember r = mpMember q"
  using assms by (auto simp: ptr_assign_def dead_node_reads split: if_splits)

lemma dead_node_member: "mpMember p = mpMember q \<Longrightarrow> dead_node p s = dead_node q s"
  by (simp add: dead_node_def ptr_isTopic_def asNode_def cong: if_cong option.case_cong member_ref.case_cong)

lemma dead_node_world [simp]: "dead_node p (s\<lparr>dsWorld := w\<rparr>) = dead_node p s"
  for s :: "('w, 'z) data_store_scheme"
  by (simp add: dead_node_def ptr_isTopic_def asNode_def cong: if_cong option.case_cong member_ref.case_cong)

text \<open>What \<open>detectFaults\<close> reports, in terms of the two checks it makes.\<close>

lemma detectFaults_result:
  assumes "detectFaults ipc caller window s = Inr ((fault, alert), t)"
  shows "\<exists>dead affected. dead_node caller s = Inr dead \<and> fault = (dead \<or> affected \<noteq> []) \<and> alAffected alert = affected
    \<and> (if dead then affected = [] else affected_attributes window [] = Inr affected)
    \<and> mpMember (alMember alert) = mpMember caller"
proof -
  from assms obtain member a am b now c dead where
    a: "ptr_copy caller s = Inr (member, a)" "ptr_assign ptr_null member a = Inr (am, b)"
    "world (systemNow ipc) b = Inr (now, c)" "dead_node member c = Inr dead" and
    k: "bindS (if dead then returnS [] else liftR (affected_attributes window [])) (\<lambda>affected.
     bindS (ptr_destroy member) (\<lambda>_.
     returnS (dead \<or> affected \<noteq> [], \<lparr>alMember = am, alAffected = affected, alTimestamp = now,
       alSeverity = SEVERITY_NORMAL\<rparr>))) c = Inr ((fault, alert), t)"
    unfolding detectFaults_def by auto
  have "dead_node caller s = Inr dead"
    using a(3,4) ptr_copy_reads [OF a(1)] ptr_assign_reads(1) [OF a(2)] dead_node_member [of member caller s]
    by (auto simp: world_def split: prod.splits)
  moreover have "mpMember am = mpMember caller"
    using ptr_copy_reads(2) [OF a(1)] ptr_assign_reads(2) [OF a(2)] by simp
  moreover have "(dead \<longrightarrow> alAffected alert = []) \<and> (\<not> dead \<longrightarrow> affected_attributes window [] = Inr (alAffected alert))
      \<and> fault = (dead \<or> alAffected alert \<noteq> []) \<and> alMember alert = am"
    using k by (cases dead) (clarsimp elim!: bindS_InrE)+
  ultimately show ?thesis by (intro exI [of _ dead] exI [of _ "alAffected alert"]) simp
qed

lemma affected_acc:
  "affected_attributes window acc = Inr out \<Longrightarrow> \<exists>new. out = acc @ new
    \<and> set new = {d. \<exists>b. (d, b) \<in> set window \<and> \<not> cb_empty b \<and> buffer_faulty b = Inr True}"
proof (induction window acc rule: affected_attributes.induct)
  case (2 d b window acc)
  show ?case
  proof (cases "cb_empty b")
    case True
    then show ?thesis using 2 by auto
  next
    case False
    then obtain f where f: "buffer_faulty b = Inr f"
      "affected_attributes window (if f then acc @ [d] else acc) = Inr out" using 2(3) by auto
    from 2(2) [OF False f(2)] f(1) False show ?thesis
      by (cases f) auto
  qed
qed auto

lemma affected_set:
  assumes "affected_attributes window [] = Inr out" "\<forall>(d, b)\<in>set window. cb_wf b"
  shows "set out = {d. \<exists>b. (d, b) \<in> set window \<and> mBuffer b \<noteq> [] \<and> buffer_faulty b = Inr True}"
  using affected_acc [OF assms(1)] by (simp add: cb_empty_def)

lemma affected_total: "\<exists>out. affected_attributes window acc = Inr out" if "\<forall>(d, b)\<in>set window. cb_wf b"
  using that by (induction window acc rule: affected_attributes.induct) (auto simp: cb_empty_def buffer_faulty_eq)

section \<open>Properties\<close>

definition demo_fd :: "alert list \<Rightarrow> peer fault_detection" where
  "demo_fd alerts = watchlist.extend (demo_wl demo_store [])
     \<lparr>fdAlerts = alerts, fdMovingWindow = [], fdMovingWindowSize = 10\<rparr>"





section \<open>When a member is examined\<close>

text \<open>The operations on the watchlist and on pointers leave the alerts alone.\<close>

lemma more_alerts:
  assumes "watchlist.more t = watchlist.more s"
  shows "fdAlerts t = fdAlerts s" "fdMovingWindow t = fdMovingWindow s" "fdMovingWindowSize t = fdMovingWindowSize s"
    "fault_detection.more t = fault_detection.more s"
  using assms by (cases s, cases t, simp)+

lemma keeps_watchlist:
  assumes "keeps_more m" "m s = Inr (x, t)"
  shows "watchlist.more t = watchlist.more s"
  using keeps_wl_same [OF assms] by (simp add: wl_same_def)

lemma watchlist_more_frame [simp]:
  "watchlist.more (u\<lparr>dsTrace := tr\<rparr>) = watchlist.more u" "watchlist.more (u\<lparr>wlMembers := m\<rparr>) = watchlist.more u"
  for u :: "('a, 'b) watchlist_scheme"
  by (cases u, simp)+

lemma notifyUsed_more:
  assumes "notifyUsed k s = Inr (b, t)"
  shows "watchlist.more t = watchlist.more s"
proof -
  from assms obtain a i c where c: "watchlist.more a = watchlist.more s"
    "(if i = length (wlMembers a) \<or> snd (wlMembers a ! i) \<noteq> TYPE_BLINDSPOT then Inr (False, a)
        else bindS (ptr_destroy (fst (wlMembers a ! i))) (\<lambda>_ s.
             Inr (True, s\<lparr>wlMembers := erase_at i (wlMembers s)\<rparr>)) a) = Inr (b, c)"
    "t = c\<lparr>dsHeld := remove1 MembersMutex (dsHeld c)\<rparr>"
    unfolding notifyUsed_def
  proof (elim locked_InrE bindS_InrE, goal_cases)
    case (1 t1 x a i a')
    then show ?case using 1(1) [of a' i t1] by (simp add: wl_get_Inr)
  qed
  then have "watchlist.more c = watchlist.more a"
    by (auto split: if_splits dest!: keeps_watchlist [OF keeps_ptr(2)])
  then show ?thesis using c by simp
qed

lemma keeps_detectFaults [keeps]: "keeps_more (detectFaults ipc p w)"
  unfolding detectFaults_def by (intro keeps allI impI)

lemma push_alert_fields:
  "push_alert a s = Inr (u, t) \<Longrightarrow> fdAlerts t = fdAlerts s @ [a] \<and> dsHeld t = dsHeld s"
  unfolding push_alert_def by (elim locked_InrE bindS_InrE) auto

lemma detect_entry_alerts:
  assumes "detect_entry ipc (member, (d, b) # w) s = Inr (stays, t)" "cb_full b"
  shows "\<exists>fault alert u. detectFaults ipc member ((d, b) # w) s = Inr ((fault, alert), u)
    \<and> fdAlerts t = fdAlerts s @ (if fault then [alert] else [])"
proof -
  from assms obtain fault alert u v k x used y z where
    a: "detectFaults ipc member ((d, b) # w) s = Inr ((fault, alert), u)"
    "(if fault then push_alert alert else returnS ()) u = Inr (x, v)" "notifyUsed k v = Inr (used, y)"
    and b: "(if used then ptr_destroy member else returnS ()) y = Inr (x, z)"
    "(if fault then returnS () else ptr_destroy (alMember alert)) z = Inr (x, t)"
    unfolding detect_entry_def by auto
  have "fdAlerts u = fdAlerts s"
    using keeps_watchlist [OF keeps_detectFaults a(1)] by (rule more_alerts)
  moreover have "fdAlerts v = fdAlerts u @ (if fault then [alert] else [])"
    using a(2) push_alert_fields [of alert u x v] by (auto split: if_splits)
  moreover have "watchlist.more t = watchlist.more v"
    using notifyUsed_more [OF a(3)] b by (auto split: if_splits dest!: keeps_watchlist [OF keeps_ptr(2)])
  then have "fdAlerts t = fdAlerts v" by (rule more_alerts)
  ultimately show ?thesis using a(1) by auto
qed

text \<open>C18: A member's window keeps every sample (newest first), so its length is the number of samples. An
  entry of the moving window is examined, and can raise an alert, exactly while that number equals
  the configured window size: with any other number of samples, also with more, it is skipped.\<close>

theorem examined_at_window_size_only:
  assumes "2 \<le> n" "ms \<noteq> []" "same_attributes ms ks" "ks \<noteq> {}" "window_after n ms = Inr window"
  shows "(\<forall>(d, b)\<in>set window. mBuffer b = rev (map (\<lambda>m. the (map_of m d)) ms))
    \<and> (length ms \<noteq> n \<longrightarrow> detect_entry ipc (member, window) s = Inr (True, s))
    \<and> (length ms = n \<and> detect_entry ipc (member, window) s = Inr (stays, t) \<longrightarrow>
        (\<exists>fault alert u. detectFaults ipc member window s = Inr ((fault, alert), u)
          \<and> fdAlerts t = fdAlerts s @ (if fault then [alert] else [])))"
proof -
  from window_after_spec [OF assms(1-3)] assms(5) have w: "map_ok string_less window"
    "map_of window = (\<lambda>d. if d \<in> ks then Some (sampled n (rev (map (\<lambda>m. the (map_of m d)) ms))) else None)" by auto
  have all: "b = sampled n (rev (map (\<lambda>m. the (map_of m d)) ms))" if "(d, b) \<in> set window" for d b
    using that map_of_ok_set [OF w(1)] w(2) by (auto split: if_splits)
  then have "\<forall>(d, b)\<in>set window. mBuffer b = rev (map (\<lambda>m. the (map_of m d)) ms)" by (auto dest!: all)
  moreover from assms(4) obtain k where "k \<in> ks" by auto
  then have "map_of window k \<noteq> None" using w(2) by simp
  then obtain d b w' where hd: "window = (d, b) # w'" by (cases window) auto
  moreover have "cb_full b \<longleftrightarrow> length ms = n" using all [of d b] hd by (simp add: cb_full_def)
  ultimately show ?thesis using detect_entry_alerts [of ipc member d b w' s stays t]
    by (auto simp: detect_entry_def)
qed

lemma examined_at_window_size_only_witness:
  "\<exists>window. window_after 2 [[(''cpu'', 1)], [(''cpu'', 1)], [(''cpu'', 9)]] = Inr window
    \<and> detect_entry demo_ipc (make_member_ptr (TopicRef 0), window) (demo_fd []) = Inr (True, demo_fd [])"
proof -
  let ?ms = "[[(''cpu'', 1)], [(''cpu'', 1)], [(''cpu'', 9 :: real)]]"
  have ms: "same_attributes ?ms {''cpu''}" by (simp add: same_attributes_def)
  then obtain w where w: "window_after 2 ?ms = Inr w" using window_after_spec [of 2 ?ms "{''cpu''}"] by auto
  show ?thesis
    using w examined_at_window_size_only [OF _ _ ms _ w, where ipc = demo_ipc and s = "demo_fd []"] by auto
qed

section \<open>Handing out the alerts\<close>

lemma balanced_fields [simp]:
  "balanced live (s\<lparr>dsTrace := tr\<rparr>) = balanced live s" "balanced live (s\<lparr>dsHeld := h\<rparr>) = balanced live s"
  for s :: "('w, 'z) data_store_scheme"
  by (simp_all add: balanced_def counter_of_def cong: member_ref.case_cong)

lemma balanced_alerts [simp]:
  "balanced live (s\<lparr>fdAlerts := a\<rparr>) = balanced live s" for s :: "('w, 'z) fault_detection_scheme"
  by (simp add: balanced_def counter_of_def cong: member_ref.case_cong)

text \<open>An alert without the identity of its pointer: what it says.\<close>

definition alert_says :: "alert \<Rightarrow> member_ref option \<times> string list \<times> int \<times> severity" where
  "alert_says a = (mpMember (alMember a), alAffected a, alTimestamp a, alSeverity a)"

lemma copy_alerts_balanced:
  "balanced live s \<Longrightarrow> alMember ` set alerts \<subseteq> set live \<Longrightarrow> length live + length alerts < 2 ^ 64 \<Longrightarrow>
    \<exists>out t. mapS copy_alert alerts s = Inr (out, t) \<and> map alert_says out = map alert_says alerts
      \<and> balanced (live @ map alMember out) t"
proof (induction alerts arbitrary: live s)
  case (Cons a alerts)
  from Cons.prems obtain q u where q: "ptr_copy (alMember a) s = Inr (q, u)" "mpMember q = mpMember (alMember a)"
    "balanced (live @ [q]) u"
    using copy_balanced [of live s "alMember a"] by auto
  with Cons.IH [of "live @ [q]" u] Cons.prems obtain out t where
    "mapS copy_alert alerts u = Inr (out, t)" "map alert_says out = map alert_says alerts"
    "balanced ((live @ [q]) @ map alMember out) t" by auto
  moreover have "copy_alert a s = Inr (a\<lparr>alMember := q\<rparr>, u)" using q(1) by (simp add: copy_alert_def)
  moreover have "alert_says (a\<lparr>alMember := q\<rparr>) = alert_says a" using q(2) by (simp add: alert_says_def)
  ultimately show ?case using q by simp
qed simp



lemma keeps_copy_alert [keeps]: "keeps_more (copy_alert a)"
  unfolding copy_alert_def by (intro keeps)

lemma balanced_permute: "mset ps = mset qs \<Longrightarrow> balanced ps s \<Longrightarrow> balanced qs s"
proof -
  assume a: "mset ps = mset qs" "balanced ps s"
  then have "set ps = set qs" "live_count r ps = live_count r qs" for r
    by (auto simp: live_count_def dest: mset_eq_setD) (metis mset_filter size_mset)
  then show ?thesis using a(2) by (simp add: balanced_def)
qed

text \<open>C19: \<open>getEmittedAlerts\<close> hands out every alert raised since the last call, in the order they were raised, and
  empties the list, so no alert is handed out twice. The pointers in the alerts it hands out take
  over the shares of the ones it destroys: every use counter stays the number of live pointers.\<close>

theorem alerts_handed_out_once:
  assumes "balanced (rest @ map alMember (fdAlerts s)) s" "AlertMutex \<notin> set (dsHeld s)"
    and "length rest + 2 * length (fdAlerts s) < 2 ^ 64"
  shows "\<exists>out t. getEmittedAlerts s = Inr (out, t) \<and> map alert_says out = map alert_says (fdAlerts s)
    \<and> fdAlerts t = [] \<and> dsHeld t = dsHeld s \<and> balanced (rest @ map alMember out) t
    \<and> (\<exists>t'. getEmittedAlerts t = Inr ([], t'))"
proof -
  let ?s = "s\<lparr>dsHeld := AlertMutex # dsHeld s,
    dsTrace := dsTrace s @ [Locked AlertMutex (dsHeld s), Touched AlertList (AlertMutex # dsHeld s)]\<rparr>"
  have "balanced (map alMember (fdAlerts s) @ rest) ?s"
    using assms(1) by (simp add: balanced_permute [OF _ assms(1)])
  then obtain out u where u: "mapS copy_alert (fdAlerts s) ?s = Inr (out, u)"
    "map alert_says out = map alert_says (fdAlerts s)" "balanced (map alMember (fdAlerts s) @ rest @ map alMember out) u"
    using copy_alerts_balanced [of "map alMember (fdAlerts s) @ rest" ?s "fdAlerts s"] assms(3) by auto
  from destroy_all_balanced [OF u(3)] obtain v where
    v: "forS (map alMember (fdAlerts s)) ptr_destroy u = Inr ((), v)" "balanced (rest @ map alMember out) v" by blast
  let ?t = "v\<lparr>fdAlerts := [], dsHeld := remove1 AlertMutex (dsHeld v)\<rparr>"
  have h: "dsHeld v = AlertMutex # dsHeld s"
    using keeps_moreD [OF keeps_rules(9) [OF keeps_copy_alert] u(1)] keeps_moreD [OF keeps_rules(8) [OF keeps_ptr(2)] v(1)] by simp
  have "getEmittedAlerts s = Inr (out, ?t)"
    using assms(2) u(1) v(1) h by (simp add: getEmittedAlerts_def locked_def)
  moreover have "\<exists>t'. getEmittedAlerts ?t = Inr ([], t')"
    using assms(2) h by (simp add: getEmittedAlerts_def locked_def)
  moreover have "balanced (rest @ map alMember out) ?t" using v(2) by simp
  ultimately show ?thesis using u(2) h by (intro exI [of _ out] exI [of _ ?t]) simp
qed

lemma alerts_handed_out_once_witness:
  defines "a \<equiv> \<lparr>alMember = make_member_ptr (TopicRef 0), alAffected = [''cpu''], alTimestamp = 3, alSeverity = SEVERITY_NORMAL\<rparr>"
  shows "\<exists>out t. getEmittedAlerts (demo_fd [a]) = Inr (out, t) \<and> map alert_says out = [alert_says a] \<and> fdAlerts t = []"
proof -
  have "balanced [make_member_ptr (TopicRef 0)] demo_store" using pool_inv [OF demo_pool] by blast
  then have "balanced ([] @ map alMember (fdAlerts (demo_fd [a]))) (demo_fd [a])"
    by (simp add: a_def demo_fd_def demo_wl_def balanced_def counter_of_def watchlist.defs cong: member_ref.case_cong)
  from alerts_handed_out_once [OF this] show ?thesis
    by (auto simp: demo_fd_def demo_wl_def watchlist.defs)
qed

end
