(* ===== verification/Dynamic_Subgraph.thy ===== *)
theory Dynamic_Subgraph
  imports Fault_Detection_Properties Blind_Spots Graph_View
begin

text \<open>
  \<^verbatim>\<open>src/dynamic-subgraph/dynamic-subgraph.{hpp,cpp}\<close>: the main loop. It samples the CPU load, looks
  for blind spots every so often, offers the members that new edges lead to to the watchlist,
  grows the subgraph by the members with alerts and decides when to stop. Its state extends the
  fault detection's, which extends the watchlist's, which extends the data store's: one object
  owns or points to the others.
\<close>

section \<open>State and construction\<close>

record 'w dynamic_subgraph = "'w fault_detection" +
  sgSAG :: graph
  sgCpuUtilisationSource :: string
  sgSomethingIsGoingOn :: bool
  sgLastNrAlerts :: circular_buffer
  sgBlindSpotCheckCounter :: size_t
  sgLoopTargetInterval :: int
  sgBlindspotInterval :: size_t
  sgAbortionCriteriaThreshold :: real
  sgMaximumCpuUtilisation :: real

text \<open>The conversions the configuration needs besides those of \<open>json\<close>.\<close>

record 'j config_json = "'j json" +
  jsSize :: "'j \<Rightarrow> size_t result"
  jsReal :: "'j \<Rightarrow> real result"
  jsInt :: "'j \<Rightarrow> int result"
  jsBool :: "'j \<Rightarrow> bool result"

definition config_size :: "('j, 'y) config_json_scheme \<Rightarrow> string \<Rightarrow> 'j \<Rightarrow> size_t result" where
  "config_size js key config = bindR (jsAt js key config) (jsSize js)"

definition config_real :: "('j, 'y) config_json_scheme \<Rightarrow> string \<Rightarrow> 'j \<Rightarrow> real result" where
  "config_real js key config = bindR (jsAt js key config) (jsReal js)"

text \<open>\<open>duration_cast\<close> of a second divided by the frequency to milliseconds; for the frequency zero the
  quotient is infinite and the conversion is undefined.\<close>

definition target_interval :: "real \<Rightarrow> int result" where
  "target_interval f = (if f = 0 then Inl DivisionByZero
     else Inr (if 0 < f then \<lfloor>1000 / f\<rfloor> else \<lceil>1000 / f\<rceil>))"

definition dsg_new ::
  "'w ipc \<Rightarrow> ('j, 'y) config_json_scheme \<Rightarrow> 'j \<Rightarrow> 'w data_store \<Rightarrow> 'w dynamic_subgraph result" where
  "dsg_new ipc js config dataStore =
     bindR (jsAt js ''initial-watchlist-members'' config) (\<lambda>wl.
     bindR (wl_new js wl dataStore) (\<lambda>watchlist.
     bindR (config_size js ''moving-window-size'' config) (\<lambda>windowSize.
     bindR (jsAt js ''alert-rate'' config) (\<lambda>alertRate.
     bindR (config_size js ''nr-normalisation-values'' alertRate) (\<lambda>nr.
     bindR (cb_new (unat nr)) (\<lambda>lastNrAlerts.
     bindR (bindR (config_real js ''target-frequency'' config) target_interval) (\<lambda>loopTargetInterval.
     bindR (config_size js ''blindspot-interval'' config) (\<lambda>blindspotInterval.
     bindR (config_real js ''abortion-criteria-threshold'' alertRate) (\<lambda>threshold.
     bindR (config_real js ''blindspot-cpu-threshold'' config) (\<lambda>maximumCpu.
     bindR (getCpuUtilisationMemory ipc (fd_new (unat windowSize) watchlist)) (\<lambda>(source, fd).
     Inr (fault_detection.extend fd \<lparr>sgSAG = graph_new, sgCpuUtilisationSource = source,
       sgSomethingIsGoingOn = False, sgLastNrAlerts = lastNrAlerts, sgBlindSpotCheckCounter = 0,
       sgLoopTargetInterval = loopTargetInterval, sgBlindspotInterval = blindspotInterval,
       sgAbortionCriteriaThreshold = threshold, sgMaximumCpuUtilisation = maximumCpu\<rparr>))))))))))))"

section \<open>Blind spots\<close>

text \<open>The first part of the loop: sample the load, perhaps check, and count.\<close>

definition blindSpotCheck :: "'w ipc \<Rightarrow> 'j json \<Rightarrow> (('w, 'z) dynamic_subgraph_scheme, unit) op" where
  "blindSpotCheck ipc js =
     bindS (getFullGraphView ipc js) (\<lambda>fullGraph.
     forS (getBlindspots fullGraph) (\<lambda>member. addMember_proxy ipc member TYPE_BLINDSPOT))"

definition cpu_utilisation :: "'w ipc \<Rightarrow> (('w, 'z) dynamic_subgraph_scheme, real) op" where
  "cpu_utilisation ipc s =
     bindS (world (shmReceive ipc (sgCpuUtilisationSource s))) (\<lambda>resp.
     bindS (liftR (assertR (rsType resp = NUMERICAL))) (\<lambda>_.
     bindS (liftR (assertR (rsNumber resp = 1 \<and> rsTotal resp = 1))) (\<lambda>_.
     returnS (rsValue resp)))) s"

definition advance_counter :: "(('w, 'z) dynamic_subgraph_scheme, unit) op" where
  "advance_counter s = (if sgBlindspotInterval s = 0 then Inl DivisionByZero
     else Inr ((), s\<lparr>sgBlindSpotCheckCounter := (sgBlindSpotCheckCounter s + 1) mod sgBlindspotInterval s\<rparr>))"

definition check_blind_spots :: "'w ipc \<Rightarrow> 'j json \<Rightarrow> (('w, 'z) dynamic_subgraph_scheme, unit) op" where
  "check_blind_spots ipc js =
     bindS (cpu_utilisation ipc) (\<lambda>cpuUtilisation.
     bindS (\<lambda>s. if sgBlindSpotCheckCounter s = 0 \<and> cpuUtilisation < sgMaximumCpuUtilisation s
                then blindSpotCheck ipc js s else Inr ((), s)) (\<lambda>_.
     advance_counter))"

section \<open>New edges\<close>

definition sag_contains :: "member_proxy \<Rightarrow> (('w, 'z) dynamic_subgraph_scheme, bool) op" where
  "sag_contains m = bindS (touch Vertices) (\<lambda>_. getsR (\<lambda>s. graph_contains (sgSAG s) m s))"

definition offer_connection :: "'w ipc \<Rightarrow> member_proxy \<Rightarrow> (('w, 'z) dynamic_subgraph_scheme, unit) op" where
  "offer_connection ipc member = bindS (wl_contains (pxPrimaryKey member)) (\<lambda>contained.
     if contained then returnS () else addMember_proxy ipc member TYPE_NORMAL)"

definition follow_updates :: "'w ipc \<Rightarrow> (('w, 'z) dynamic_subgraph_scheme, unit) op" where
  "follow_updates ipc = bindS getUpdates (\<lambda>updates. forS updates (\<lambda>update.
     bindS (sag_contains (mcMember update)) (\<lambda>contained.
       if \<not> contained then returnS () else forS (mcConnections update) (offer_connection ipc))))"

section \<open>Alerts\<close>

definition sag_add :: "member_ptr \<Rightarrow> (('w, 'z) dynamic_subgraph_scheme, bool) op" where
  "sag_add member = locked VerticesMutex (bindS (touch Vertices) (\<lambda>_ s.
     bindR (graph_add member (sgSAG s) s) (\<lambda>((added, g), t). Inr (added, t\<lparr>sgSAG := g\<rparr>))))"

definition sag_incoming :: "member_ptr \<Rightarrow> (('w, 'z) dynamic_subgraph_scheme, member_proxies) op" where
  "sag_incoming member = bindS (touch Vertices) (\<lambda>_. getsR (\<lambda>s. graph_getIncoming (sgSAG s) member s))"

definition sag_reset :: "(('w, 'z) dynamic_subgraph_scheme, unit) op" where
  "sag_reset = bindS (touch Vertices) (\<lambda>_ s.
     bindR (graph_reset (sgSAG s) s) (\<lambda>(g, t). Inr ((), t\<lparr>sgSAG := g\<rparr>)))"

text \<open>What \<open>visualise\<close> does on its own thread if a new drawing is asked for: it reads the vertices under the
  lock and, after giving it back, clears the flag.\<close>

definition sag_draw :: "(('w, 'z) dynamic_subgraph_scheme, draw_call list) op" where
  "sag_draw = locked VerticesMutex (bindS (touch Vertices) (\<lambda>_. getsR (\<lambda>s. graph_draw (sgSAG s) s)))"

definition sag_clear_flag :: "(('w, 'z) dynamic_subgraph_scheme, unit) op" where
  "sag_clear_flag s = Inr ((), s\<lparr>sgSAG := (sgSAG s)\<lparr>mUpdateVisualisation := False\<rparr>\<rparr>)"

definition sag_visualise :: "(('w, 'z) dynamic_subgraph_scheme, draw_call list) op" where
  "sag_visualise s =
     (if \<not> mUpdateVisualisation (sgSAG s) then Inr ([], s)
      else bindS sag_draw (\<lambda>calls. bindS sag_clear_flag (\<lambda>_. returnS calls)) s)"

text \<open>The request for a new drawing, by the main thread.\<close>

definition sag_request_drawing :: "(('w, 'z) dynamic_subgraph_scheme, unit) op" where
  "sag_request_drawing s = Inr ((), s\<lparr>sgSAG := graph_updateVisualisation (sgSAG s)\<rparr>)"

definition expand_by :: "'w ipc \<Rightarrow> alert \<Rightarrow> (('w, 'z) dynamic_subgraph_scheme, unit) op" where
  "expand_by ipc alert = bindS (sag_add (alMember alert)) (\<lambda>added.
     if \<not> added then returnS ()
     else bindS (sag_incoming (alMember alert)) (\<lambda>incoming.
          forS incoming (\<lambda>incomingMember. addMember_proxy ipc incomingMember TYPE_NORMAL)))"

definition expandSubgraph :: "'w ipc \<Rightarrow> alert list \<Rightarrow> (('w, 'z) dynamic_subgraph_scheme, unit) op" where
  "expandSubgraph ipc newAlerts = bindS (forS newAlerts (expand_by ipc)) (\<lambda>_. sag_request_drawing)"

definition checkAbortCirteria :: "alert list \<Rightarrow> (('w, 'z) dynamic_subgraph_scheme, bool) op" where
  "checkAbortCirteria newAlerts s =
     bindR (cb_push (real (length newAlerts)) (sgLastNrAlerts s)) (\<lambda>(_, buffer).
     bindR (cb_getMean buffer) (\<lambda>meanNewAlerts.
       let s' = s\<lparr>sgLastNrAlerts := buffer\<rparr> in
       if \<not> sgSomethingIsGoingOn s
       then Inr (False, if meanNewAlerts > sgAbortionCriteriaThreshold s then s'\<lparr>sgSomethingIsGoingOn := True\<rparr> else s')
       else Inr (meanNewAlerts \<le> sgAbortionCriteriaThreshold s, s')))"

text \<open>What happens once the criteria are met; the result is the list of alerts raised meanwhile.\<close>

definition abort_investigation :: "(('w, 'z) dynamic_subgraph_scheme, alert list) op" where
  "abort_investigation =
     bindS (\<lambda>s. Inr ((), s\<lparr>sgSomethingIsGoingOn := False\<rparr>)) (\<lambda>_.
     bindS wl_reset (\<lambda>_. bindS fd_reset (\<lambda>_. bindS sag_reset (\<lambda>_. getEmittedAlerts))))"

text \<open>The alerts of one iteration are destroyed at its end, with their pointers.\<close>

definition handle_alerts :: "'w ipc \<Rightarrow> (('w, 'z) dynamic_subgraph_scheme, unit) op" where
  "handle_alerts ipc =
     bindS getEmittedAlerts (\<lambda>emittedAlerts.
     bindS (if emittedAlerts = [] then returnS () else expandSubgraph ipc emittedAlerts) (\<lambda>_.
     bindS (checkAbortCirteria emittedAlerts) (\<lambda>abort.
     bindS (if abort then abort_investigation else returnS []) (\<lambda>lastAlerts.
     forS (map alMember (emittedAlerts @ lastAlerts)) ptr_destroy))))"

text \<open>The body of the loop of \<open>run\<close> (without the pause at its end).\<close>

definition dsg_body :: "'w ipc \<Rightarrow> 'j json \<Rightarrow> (('w, 'z) dynamic_subgraph_scheme, unit) op" where
  "dsg_body ipc js = seqS [check_blind_spots ipc js, follow_updates ipc, handle_alerts ipc]"

end
