(* ===== verification/Lock_Order.thy ===== *)
theory Lock_Order
  imports Dynamic_Subgraph
begin

text \<open>
  The order in which the threads take the mutexes. Every operation of the program appends to the
  trace of lock and access events; the theory shows that each asks for a mutex only while it holds
  mutexes of smaller rank, and gives back what it took. The counters' own mutexes are left out: no
  other mutex is taken under one.
\<close>

fun rank :: "mutex \<Rightarrow> nat" where
  "rank MembersMutex = 0"
| "rank NodesMutex = 1"
| "rank AlertMutex = 1"
| "rank VerticesMutex = 1"
| "rank TopicsMutex = 2"
| "rank UpdatesMutex = 3"

fun in_order :: "event \<Rightarrow> bool" where
  "in_order (Locked m held) = (\<forall>h\<in>set held. rank h < rank m)"
| "in_order (Touched c held) = True"

text \<open>Run while holding only mutexes of rank below \<open>n\<close>, the operation keeps the order.\<close>

definition ordered_step :: "nat \<Rightarrow> ('w, 'z) data_store_scheme \<Rightarrow> ('w, 'z) data_store_scheme \<Rightarrow> bool" where
  "ordered_step n s t \<longleftrightarrow> ((\<forall>h\<in>set (dsHeld s). rank h < n) \<longrightarrow>
     dsHeld t = dsHeld s \<and> (\<exists>ev. dsTrace t = dsTrace s @ ev \<and> (\<forall>e\<in>set ev. in_order e)))"

lemma ordered_step_trans: "ordered_step n s t \<Longrightarrow> ordered_step n t u \<Longrightarrow> ordered_step n s u"
proof -
  assume st: "ordered_step n s t" and tu: "ordered_step n t u"
  show ?thesis unfolding ordered_step_def
  proof
    assume h: "\<forall>h\<in>set (dsHeld s). rank h < n"
    with st have a: "dsHeld t = dsHeld s" "\<exists>ev. dsTrace t = dsTrace s @ ev \<and> (\<forall>e\<in>set ev. in_order e)"
      unfolding ordered_step_def by blast+
    with tu h have "dsHeld u = dsHeld t" "\<exists>ev. dsTrace u = dsTrace t @ ev \<and> (\<forall>e\<in>set ev. in_order e)"
      unfolding ordered_step_def by auto
    with a obtain ev ev' where "dsHeld u = dsHeld s" "dsTrace t = dsTrace s @ ev" "\<forall>e\<in>set ev. in_order e"
      "dsTrace u = dsTrace t @ ev'" "\<forall>e\<in>set ev'. in_order e" by auto
    then show "dsHeld u = dsHeld s \<and> (\<exists>ev. dsTrace u = dsTrace s @ ev \<and> (\<forall>e\<in>set ev. in_order e))"
      by (intro conjI exI [of _ "ev @ ev'"]) auto
  qed
qed

interpretation ordered: frame "ordered_step n"
  by unfold_locales (use ordered_step_trans in \<open>auto simp: ordered_step_def\<close>)

definition orderly :: "nat \<Rightarrow> (('w, 'z) data_store_scheme, 'a) op \<Rightarrow> bool" where
  "orderly n m \<longleftrightarrow> obeys (ordered_step n) m"

lemma orderly_iff:
  "orderly n m \<longleftrightarrow> (\<forall>s x t. m s = Inr (x, t) \<longrightarrow> (\<forall>h\<in>set (dsHeld s). rank h < n) \<longrightarrow>
     dsHeld t = dsHeld s \<and> (\<exists>ev. dsTrace t = dsTrace s @ ev \<and> (\<forall>e\<in>set ev. in_order e)))"
  by (simp add: orderly_def obeys_def ordered_step_def)

named_theorems orderly_intros \<open>operations that keep the lock order\<close>

lemmas orderly_rules [orderly_intros] = ordered.rules [folded orderly_def]
lemmas orderly_seqS = ordered.sequence [folded orderly_def]
lemmas orderly_state = ordered.apply_state [folded orderly_def]

lemma orderlyD:
  assumes "orderly n m" "m s = Inr (x, t)" "\<forall>h\<in>set (dsHeld s). rank h < n"
  shows "dsHeld t = dsHeld s" "\<exists>ev. dsTrace t = dsTrace s @ ev \<and> (\<forall>e\<in>set ev. in_order e)"
    "set (dsTrace s) \<subseteq> set (dsTrace t)"
proof -
  have "dsHeld t = dsHeld s \<and> (\<exists>ev. dsTrace t = dsTrace s @ ev \<and> (\<forall>e\<in>set ev. in_order e))"
    using assms unfolding orderly_iff by blast
  then show "dsHeld t = dsHeld s" "\<exists>ev. dsTrace t = dsTrace s @ ev \<and> (\<forall>e\<in>set ev. in_order e)"
    "set (dsTrace s) \<subseteq> set (dsTrace t)" by auto
qed

lemma orderly_locked [orderly_intros]:
  assumes "n \<le> rank x" "orderly (Suc (rank x)) m"
  shows "orderly n (locked x m)"
  unfolding orderly_iff
proof (intro allI impI)
  fix s y t assume "locked x m s = Inr (y, t)" and h: "\<forall>h\<in>set (dsHeld s). rank h < n"
  then obtain u where u: "m (s\<lparr>dsTrace := dsTrace s @ [Locked x (dsHeld s)], dsHeld := x # dsHeld s\<rparr>) = Inr (y, u)"
    "t = u\<lparr>dsHeld := remove1 x (dsHeld u)\<rparr>" by (elim locked_InrE)
  have "\<forall>h\<in>set (dsHeld (s\<lparr>dsTrace := dsTrace s @ [Locked x (dsHeld s)], dsHeld := x # dsHeld s\<rparr>)). rank h < Suc (rank x)"
    using h assms(1) by fastforce
  note o = orderlyD [OF assms(2) u(1) this]
  from o(2) obtain ev where "dsTrace u = dsTrace s @ Locked x (dsHeld s) # ev" "\<forall>e\<in>set ev. in_order e" by auto
  then show "dsHeld t = dsHeld s \<and> (\<exists>ev. dsTrace t = dsTrace s @ ev \<and> (\<forall>e\<in>set ev. in_order e))"
    using o(1) u(2) h assms(1) by (intro conjI exI [of _ "Locked x (dsHeld s) # ev"]) (auto dest: less_le_trans)
qed

lemma orderly_silent: "(\<And>s x t. m s = Inr (x, t) \<Longrightarrow> dsTrace t = dsTrace s \<and> dsHeld t = dsHeld s) \<Longrightarrow> orderly n m"
  by (fastforce simp: orderly_iff)

lemma orderly_touch [orderly_intros]: "orderly n (touch c)"
  by (auto simp: orderly_iff)

lemma orderly_world [orderly_intros]: "orderly n (world g)" "orderly n (receive_value h)"
  by (auto intro!: orderly_silent simp: world_def split: prod.splits)

lemma orderly_update [orderly_intros]:
  "(\<And>s. dsTrace (f s) = dsTrace s \<and> dsHeld (f s) = dsHeld s) \<Longrightarrow> orderly n (\<lambda>s. Inr (x s, f s))"
  by (rule orderly_silent) auto



section \<open>The store\<close>

lemma orderly_list_op [orderly_intros]: "orderly n (list_op stNodes put_nodes f)" "orderly n (list_op stTopics put_topics g)"
  by (auto intro!: orderly_silent simp: list_op_Inr put_nodes_def put_topics_def)

lemma orderly_add_source [orderly_intros]:
  "orderly n (add_source ipc stNodes put_nodes it r)" "orderly n (add_source ipc stTopics put_topics it r)"
  by (auto intro!: orderly_silent simp: add_source_def put_nodes_def put_topics_def)

lemma orderly_counter: "orderly n (counter_at f p)"
  by (rule orderly_silent) (auto simp: counter_at_def split: option.splits member_ref.splits)

lemma orderly_ptr [orderly_intros]: "orderly n (ptr_copy p)" "orderly n (ptr_destroy p)" "orderly n (ptr_assign p q)"
  unfolding ptr_copy_def [abs_def] ptr_destroy_def [abs_def] ptr_assign_def [abs_def]
  by (auto intro!: orderly_intros orderly_counter)

lemma orderly_request [orderly_intros]:
  "n \<le> 2 \<Longrightarrow> orderly n (requestNode ipc k u)" "n \<le> 2 \<Longrightarrow> orderly n (requestTopic ipc k u)"
  unfolding requestNode_def requestTopic_def request_cpu_def by (intro orderly_intros; simp)+

lemma orderly_get [orderly_intros]:
  "n \<le> 2 \<Longrightarrow> orderly n (getNode ipc k)" "n \<le> 2 \<Longrightarrow> orderly n (getTopic ipc k)" "n \<le> 2 \<Longrightarrow> orderly n (ds_get ipc q)"
  "n \<le> 2 \<Longrightarrow> orderly n (getNodeByName ipc k)" "n \<le> 2 \<Longrightarrow> orderly n (getTopicByName ipc k)"
  unfolding ds_get_def getNode_def getTopic_def getNodeByName_def getTopicByName_def search_key_def
  by (intro orderly_intros; assumption)+

lemma orderly_sweep:
  assumes "n \<le> rank m" "\<And>n it. orderly n (list_op get put (dll_erase it))"
  shows "orderly n (sweep_list k get put m c ipc it)"
proof (induction k arbitrary: it)
  case 0
  show ?case unfolding sweep_list.simps(1) by (intro orderly_intros)
next
  case (Suc k)
  show ?case unfolding sweep_list.simps(2)
    by (auto intro!: orderly_intros Suc.IH assms split: prod.split)
qed

lemma orderly_sweeps [orderly_intros]: "orderly 0 (sweep_nodes ipc)" "orderly 0 (sweep_topics ipc)"
proof -
  have "orderly 0 (case a of (k, it) \<Rightarrow> sweep_list k stNodes put_nodes NodesMutex NodeList ipc it)" for a
    by (cases a) (auto intro!: orderly_sweep orderly_intros)
  from orderly_state [OF this, of "\<lambda>s. (Suc (length (dlMem (stNodes s))), mBegin (stNodes s))"]
  show "orderly 0 (sweep_nodes ipc)" by (simp add: sweep_nodes_def [abs_def])
  have "orderly 0 (case a of (k, it) \<Rightarrow> sweep_list k stTopics put_topics TopicsMutex TopicList ipc it)" for a
    by (cases a) (auto intro!: orderly_sweep orderly_intros)
  from orderly_state [OF this, of "\<lambda>s. (Suc (length (dlMem (stTopics s))), mBegin (stTopics s))"]
  show "orderly 0 (sweep_topics ipc)" by (simp add: sweep_topics_def [abs_def])
qed

lemma orderly_update_list: "n \<le> 3 \<Longrightarrow> orderly n (add_update get b b' it k)"
proof -
  assume n: "n \<le> 3"
  have "orderly m (\<lambda>s. bindR (deref (get s) it) (\<lambda>e. Inr ((), s\<lparr>dsUpdates := add_connection
      (proxy_of_key (mPrimaryKey (elInstance e)) b) (proxy_of_key k b') (dsUpdates s)\<rparr>)))" for m
    by (rule orderly_silent) auto
  with n show ?thesis unfolding add_update_def by (intro orderly_intros) simp_all
qed

lemma orderly_add [orderly_intros]:
  "n \<le> 3 \<Longrightarrow> orderly n (addSubUpdate it k)" "n \<le> 3 \<Longrightarrow> orderly n (addSendUpdate it k)" "n \<le> 3 \<Longrightarrow> orderly n (addPubUpdate it k)"
  unfolding addSubUpdate_def addSendUpdate_def addPubUpdate_def by (rule orderly_update_list, assumption)+

lemma orderly_getUpdates [orderly_intros]: "n \<le> 3 \<Longrightarrow> orderly n getUpdates"
  unfolding getUpdates_def by (intro orderly_intros) simp_all

lemma orderly_handle:
  "n \<le> 1 \<Longrightarrow> (\<And>it. orderly 2 (after it)) \<Longrightarrow> orderly n (handle_node ipc u after)"
  "n \<le> 2 \<Longrightarrow> (\<And>it. orderly 3 (after' it)) \<Longrightarrow> orderly n (handle_topic ipc u' after')"
  unfolding handle_node_def handle_topic_def by (intro orderly_intros; simp add: numeral_2_eq_2 numeral_3_eq_3)+

lemma orderly_message:
  "(\<And>v. orderly n (h v)) \<Longrightarrow> orderly n (on_message r h)"
  unfolding on_message_def by (intro orderly_intros) (auto intro: orderly_intros split: option.split)

lemma orderly_run_body: "m \<in> {sweep_nodes ipc, sweep_topics ipc, update_publishersTo ipc, update_subscribersTo ipc,
     update_isServerFor ipc, update_isClientOf ipc, update_isActionServerFor ipc, update_isActionClientOf ipc,
     update_state ipc, update_publishers ipc, update_subscribers ipc} \<Longrightarrow> orderly 0 m"
  unfolding update_publishersTo_def update_subscribersTo_def update_isServerFor_def update_isClientOf_def
    update_isActionServerFor_def update_isActionClientOf_def update_state_def update_publishers_def update_subscribers_def
  by (auto intro!: orderly_message orderly_handle orderly_intros split: prod.split)

lemma orderly_store_body [orderly_intros]: "orderly 0 (run_body ipc)"
  unfolding run_body_def by (rule orderly_seqS) (rule orderly_run_body, simp)

section \<open>The watchlist and the fault detection\<close>

lemma orderly_emplace [orderly_intros]: "orderly n (emplace_member p type)"
proof -
  have eq: "emplace_member p type = (\<lambda>s. if snd (map_emplace ptr_less p type (wlMembers s))
     then (\<lambda>s. Inr (True, s\<lparr>wlMembers := fst (map_emplace ptr_less p type (wlMembers s))\<rparr>)) s
     else bindS (ptr_destroy p) (\<lambda>_. returnS False) s)"
    by (auto simp: emplace_member_def fun_eq_iff split: prod.split)
  show ?thesis unfolding eq by (intro orderly_intros) simp
qed

lemma orderly_wl_get [orderly_intros]: "orderly n (wl_get k)"
  unfolding wl_get_def by (intro orderly_intros)

lemma orderly_addMember [orderly_intros]: "orderly 0 (addMember_proxy ipc q type)" "orderly 0 (addMember_ptr p type)"
proof -
  have eq: "addMember_proxy ipc q type = (\<lambda>s. if pxIsTopic q \<and> checkTopicPrimaryIgnored (pxPrimaryKey q) s then returnS () s
     else locked MembersMutex (bindS (touch WatchedMembers) (\<lambda>_. bindS (wl_get (pxPrimaryKey q)) (\<lambda>i s.
      if i = length (wlMembers s) then returnS () s
      else bindS (ds_get ipc q) (\<lambda>p. bindS (emplace_member p type) (\<lambda>e. liftR (assertR e))) s))) s)"
    by (simp add: addMember_proxy_def fun_eq_iff cong: if_cong)
  show "orderly 0 (addMember_proxy ipc q type)" unfolding eq by (intro orderly_intros) simp_all
  show "orderly 0 (addMember_ptr p type)" unfolding addMember_ptr_def by (intro orderly_intros) simp_all
qed

lemma orderly_initialise: "n \<le> 2 \<Longrightarrow> orderly n (initialise_loop ipc names)"
proof (induction names)
  case (Cons name names)
  then show ?case by (auto intro!: orderly_intros)
qed (simp add: orderly_intros)

lemma orderly_getMembers [orderly_intros]: "orderly 0 (getMembers ipc)"
proof -
  have "orderly n (bindS (initialise_loop ipc names) (\<lambda>names s. Inr ((), s\<lparr>wlInitialMemberNames := names\<rparr>)))"
    if "n \<le> 2" for n names using that by (intro orderly_intros orderly_initialise) simp_all
  then have loop: "orderly n (\<lambda>s. bindS (initialise_loop ipc (wlInitialMemberNames s)) (\<lambda>names s. Inr ((), s\<lparr>wlInitialMemberNames := names\<rparr>)) s)"
    if "n \<le> 2" for n by (rule orderly_state) (rule that)

  have eq: "tryInitialise ipc = (\<lambda>s. if wlInitialMemberNames s = [] then returnS () s
      else bindS (initialise_loop ipc (wlInitialMemberNames s)) (\<lambda>names s. Inr ((), s\<lparr>wlInitialMemberNames := names\<rparr>)) s)"
    by (simp add: tryInitialise_def fun_eq_iff)
  have init: "orderly n (tryInitialise ipc)" if "n \<le> 2" for n unfolding eq using loop [OF that] by (intro orderly_intros)

  have copy: "orderly n (\<lambda>s. mapS ptr_copy (watched s) s)" for n
    by (rule orderly_state) (intro orderly_intros)
  show ?thesis unfolding getMembers_def by (intro orderly_intros init copy) simp_all
qed

lemma orderly_watchlist [orderly_intros]: "orderly 0 (wl_contains k)" "orderly 0 wl_reset" "orderly 0 (notifyUsed k)"
proof -
  show "orderly 0 (wl_contains k)" unfolding wl_contains_def by (intro orderly_intros) simp_all
  have "orderly n (\<lambda>s. bindS (forS (watched s) ptr_destroy) (\<lambda>_ s. Inr ((), s\<lparr>wlMembers := []\<rparr>)) s)" for n
    by (rule orderly_state) (intro orderly_intros, simp)
  then show "orderly 0 wl_reset" unfolding wl_reset_def by (intro orderly_intros) simp_all
  have "orderly n (\<lambda>s. bindS (ptr_destroy (fst (wlMembers s ! it))) (\<lambda>_ s.
             Inr (True, s\<lparr>wlMembers := erase_at it (wlMembers s)\<rparr>)) s)" for n it
    by (rule orderly_state) (intro orderly_intros, simp)
  then show "orderly 0 (notifyUsed k)" unfolding notifyUsed_def by (intro orderly_intros) simp_all
qed

lemma orderly_get_attributes: "orderly n (get_attributes ipc p)"
  by (rule orderly_silent)
    (auto simp: get_attributes_def put_nodes_def put_topics_def split: option.splits member_ref.splits)

lemma orderly_observe [orderly_intros]: "orderly 0 (observe_member ipc p)"
proof -
  have "orderly 0 (\<lambda>s. case map_find ptr_less p (fdMovingWindow s) of
       None \<Rightarrow> bindR (createAttrWindow (fdMovingWindowSize s) attributes) (\<lambda>window.
         Inr (snd (ptr_move p),
              s\<lparr>fdMovingWindow := fst (map_emplace ptr_less (fst (ptr_move p)) window (fdMovingWindow s))\<rparr>))
     | Some window \<Rightarrow> bindR (updateAttrWindow window attributes) (\<lambda>window'.
         Inr (p, s\<lparr>fdMovingWindow := map_modify ptr_less p (\<lambda>_. window') (fdMovingWindow s)\<rparr>)))" for attributes
    by (rule orderly_silent) (auto split: option.splits)
  then show ?thesis unfolding observe_member_def by (intro orderly_intros orderly_get_attributes)
qed

lemma orderly_detectFaults [orderly_intros]: "orderly n (detectFaults ipc p w)"
  unfolding detectFaults_def by (intro orderly_intros)

lemma orderly_push_alert [orderly_intros]: "orderly 0 (push_alert a)"
  unfolding push_alert_def by (intro orderly_intros) simp_all

lemma orderly_detect_entry [orderly_intros]: "orderly 0 (detect_entry ipc e)"
proof -
  obtain p w where e: "e = (p, w)" by force
  show ?thesis
  proof (cases w)
    case (Cons x xs)
    then show ?thesis unfolding e detect_entry_def
      by (cases x) (auto intro!: orderly_intros split: prod.split)
  qed (simp add: e detect_entry_def orderly_intros)
qed

lemma orderly_detect_entries [orderly_intros]: "orderly 0 (detect_entries ipc es)"
  by (induction es) (auto intro!: orderly_intros)

lemma orderly_fd_body [orderly_intros]: "orderly 0 (fd_body ipc)"
proof -
  have "orderly 0 (\<lambda>s. detect_entries ipc (fdMovingWindow s) s)"
    by (rule orderly_state) (rule orderly_detect_entries)
  then show ?thesis unfolding fd_body_def fd_detect_def by (intro orderly_intros) simp_all
qed

lemma orderly_getEmittedAlerts [orderly_intros]: "orderly 0 getEmittedAlerts"
proof -
  have "orderly n (bindS (mapS copy_alert a) (\<lambda>out. bindS (forS (map alMember a) ptr_destroy)
      (\<lambda>_ s. Inr (out, s\<lparr>fdAlerts := []\<rparr>))))" for a n
    unfolding copy_alert_def [abs_def] by (intro orderly_intros) simp
  then have "orderly n (\<lambda>s. bindS (mapS copy_alert (fdAlerts s)) (\<lambda>out. bindS (forS (map alMember (fdAlerts s)) ptr_destroy)
      (\<lambda>_ s. Inr (out, s\<lparr>fdAlerts := []\<rparr>))) s)" for n by (rule orderly_state)
  then show ?thesis unfolding getEmittedAlerts_def by (intro orderly_intros) simp_all
qed

text \<open>The two clearings without a lock, after their first access.\<close>

lemma orderly_clears:
  "orderly n (\<lambda>s. bindS (forS (map fst (fdMovingWindow s)) ptr_destroy) (\<lambda>_ s. Inr ((), s\<lparr>fdMovingWindow := []\<rparr>)) s)"
  "orderly n (\<lambda>s. bindR (graph_reset (sgSAG s) s) (\<lambda>(g, t). Inr ((), t\<lparr>sgSAG := g\<rparr>)))"
proof -
  have "orderly n (bindS (forS (map fst a) ptr_destroy) (\<lambda>_ s. Inr ((), s\<lparr>fdMovingWindow := []\<rparr>)))"
    for a :: "(member_ptr \<times> attribute_window) list"
    by (intro orderly_intros) simp
  then show "orderly n (\<lambda>s. bindS (forS (map fst (fdMovingWindow s)) ptr_destroy) (\<lambda>_ s. Inr ((), s\<lparr>fdMovingWindow := []\<rparr>)) s)"
    by (rule orderly_state)
  have g: "orderly n (graph_reset g)" for g unfolding graph_reset_def by (intro orderly_intros)
  show "orderly n (\<lambda>s. bindR (graph_reset (sgSAG s) s) (\<lambda>(g, t). Inr ((), t\<lparr>sgSAG := g\<rparr>)))"
    unfolding orderly_iff by (auto dest: orderlyD(1,2) [OF g])
qed

lemma orderly_resets [orderly_intros]: "orderly 0 fd_reset" "orderly 0 sag_reset"
  unfolding fd_reset_def sag_reset_def by (intro orderly_intros orderly_clears)+

section \<open>The main loop\<close>

lemma orderly_sag [orderly_intros]: "orderly 0 (sag_add p)" "orderly 0 (sag_incoming p)" "orderly 0 (sag_contains q)"
  "orderly 0 sag_visualise" "orderly 0 sag_draw" "orderly n sag_clear_flag" "orderly n sag_request_drawing"
proof -
  have a: "orderly n (graph_add p g)" for n g unfolding graph_add_def Let_def by (intro orderly_intros)
  have "orderly n (\<lambda>s. bindR (graph_add p (sgSAG s) s) (\<lambda>((added, g), t). Inr (added, t\<lparr>sgSAG := g\<rparr>)))" for n
    unfolding orderly_iff by (auto dest: orderlyD(1,2) [OF a])
  then show "orderly 0 (sag_add p)" unfolding sag_add_def by (intro orderly_intros) simp_all
  show "orderly 0 (sag_incoming p)" "orderly 0 (sag_contains q)"
    unfolding sag_incoming_def sag_contains_def by (intro orderly_intros)+
  have d: "orderly 0 sag_draw" unfolding sag_draw_def by (intro orderly_intros) simp_all
  have c: "orderly n sag_clear_flag" "orderly n sag_request_drawing" for n
    unfolding sag_clear_flag_def [abs_def] sag_request_drawing_def [abs_def] by (rule orderly_update; simp)+
  have eq: "sag_visualise = (\<lambda>s. if \<not> mUpdateVisualisation (sgSAG s) then returnS [] s
      else bindS sag_draw (\<lambda>calls. bindS sag_clear_flag (\<lambda>_. returnS calls)) s)"
    by (simp add: sag_visualise_def fun_eq_iff)
  show "orderly 0 sag_visualise" unfolding eq by (intro orderly_intros d c)
  show "orderly 0 sag_draw" "orderly n sag_clear_flag" "orderly n sag_request_drawing" by (fact d c)+
qed

lemma orderly_graph_view [orderly_intros]: "orderly 0 (getFullGraphView ipc js)"
proof -
  have "orderly n (\<lambda>s. bindR (f s) (\<lambda>(x, w). Inr (x, s\<lparr>dsWorld := w\<rparr>)))" for f n
    by (rule orderly_silent) auto
  then show ?thesis unfolding getFullGraphView_def by (intro orderly_intros)
qed

lemma orderly_check_blind_spots [orderly_intros]: "orderly 0 (check_blind_spots ipc js)"
proof -
  have "orderly 0 (bindS (world (shmReceive ipc a)) (\<lambda>resp. bindS (liftR (assertR (rsType resp = NUMERICAL))) (\<lambda>_.
       bindS (liftR (assertR (rsNumber resp = 1 \<and> rsTotal resp = 1))) (\<lambda>_. returnS (rsValue resp)))))" for a
    by (intro orderly_intros)
  then have cpu: "orderly 0 (cpu_utilisation ipc)" unfolding cpu_utilisation_def [abs_def] by (rule orderly_state)
  have check: "orderly 0 (\<lambda>s. if sgBlindSpotCheckCounter s = 0 \<and> c < sgMaximumCpuUtilisation s then blindSpotCheck ipc js s
      else Inr ((), s))" for c
    unfolding blindSpotCheck_def by (intro orderly_intros) simp
  have count: "orderly 0 advance_counter" by (rule orderly_silent) (auto simp: advance_counter_def split: if_splits)
  show ?thesis unfolding check_blind_spots_def by (intro orderly_rules(1) cpu check count)
qed

lemma orderly_follow_updates [orderly_intros]: "orderly 0 (follow_updates ipc)"
  unfolding follow_updates_def offer_connection_def by (intro orderly_intros) simp

lemma orderly_handle_alerts [orderly_intros]: "orderly 0 (handle_alerts ipc)"
proof -
  have e: "orderly 0 (expandSubgraph ipc as)" for as
    unfolding expandSubgraph_def expand_by_def by (intro orderly_intros)
  have c: "orderly 0 (checkAbortCirteria as)" for as
    by (rule orderly_silent) (auto simp: checkAbortCirteria_def Let_def split: if_splits)
  have a: "orderly 0 abort_investigation"
    unfolding abort_investigation_def by (intro orderly_intros) simp
  show ?thesis unfolding handle_alerts_def by (intro orderly_intros e c a)
qed

end
