(* ===== verification/Dynamic_Subgraph_Properties.thy ===== *)
theory Dynamic_Subgraph_Properties
  imports Lock_Order
begin

text \<open>
  Properties of the main loop: when it starts and stops an investigation, how often it looks for
  blind spots and what comes of them, how the subgraph grows, and which shared data it touches
  without a lock.
\<close>

section \<open>When an investigation stops\<close>

text \<open>One round of the loop as far as the criteria are concerned: the check, and the flag that is
  taken back when they are met.\<close>

definition abort_round :: "alert list \<Rightarrow> (('w, 'z) dynamic_subgraph_scheme, bool) op" where
  "abort_round alerts = bindS (checkAbortCirteria alerts) (\<lambda>abort s.
     Inr (abort, if abort then s\<lparr>sgSomethingIsGoingOn := False\<rparr> else s))"

text \<open>The specification: only the mean of all numbers of alerts so far counts. \<open>over th ns\<close> holds if
  it exceeds the threshold; an investigation stops in the round where it no longer does.\<close>

definition over :: "real \<Rightarrow> nat list \<Rightarrow> bool" where
  "over th ns \<longleftrightarrow> ns \<noteq> [] \<and> mean_of (map real ns) > th"

definition stops_at :: "real \<Rightarrow> nat list \<Rightarrow> nat \<Rightarrow> bool" where
  "stops_at th ns k \<longleftrightarrow> over th (take k ns) \<and> \<not> over th (take (Suc k) ns)"

text \<open>The state that has seen the numbers \<open>ns\<close>, oldest first.\<close>

definition has_seen :: "nat list \<Rightarrow> ('w, 'z) dynamic_subgraph_scheme \<Rightarrow> bool" where
  "has_seen ns s \<longleftrightarrow> cb_wf (sgLastNrAlerts s) \<and> mBuffer (sgLastNrAlerts s) = rev (map real ns)
     \<and> sgSomethingIsGoingOn s = over (sgAbortionCriteriaThreshold s) ns"

lemma mean_of_rev [simp]: "mean_of (rev xs) = mean_of xs"
  by (simp add: mean_of_def sum_list_rev)

lemma abort_round_spec:
  assumes "has_seen ns s" and [simp]: "th = sgAbortionCriteriaThreshold s"
  shows "\<exists>t. abort_round alerts s = Inr (over th ns \<and> \<not> over th (ns @ [length alerts]), t)
    \<and> has_seen (ns @ [length alerts]) t \<and> sgAbortionCriteriaThreshold t = th"
proof -
  let ?n = "real (length alerts)" and ?b = "sgLastNrAlerts s"
  have b: "cb_wf ?b" "mBuffer ?b = rev (map real ns)" "sgSomethingIsGoingOn s = over th ns"
    using assms(1) by (simp_all add: has_seen_def)
  have "?n # rev (map real ns) = rev (map real (ns @ [length alerts]))" by simp
  then have "mean_of (?n # rev (map real ns)) = mean_of (map real (ns @ [length alerts]))" by (metis mean_of_rev)
  then have m: "cb_getMean (?b\<lparr>mBuffer := ?n # mBuffer ?b\<rparr>) = Inr (mean_of (map real ns @ [?n]))"
    using b(2) by (simp add: cb_getMean_eq)
  have "cb_wf (?b\<lparr>mBuffer := ?n # mBuffer ?b\<rparr>)" using b(1) by (simp add: cb_wf_def)
  then show ?thesis using b m cb_push_wf_eq [OF b(1), of ?n]
    by (auto simp: abort_round_def checkAbortCirteria_def bindS_def Let_def has_seen_def over_def)
qed

lemma stops_at_append: "length ns = k \<Longrightarrow> stops_at th (ns @ n # ns') k = (over th ns \<and> \<not> over th (ns @ [n]))"
  by (simp add: stops_at_def)

lemma abort_rounds_spec:
  "has_seen ns s \<Longrightarrow> th = sgAbortionCriteriaThreshold s \<Longrightarrow>
    \<exists>t. mapS abort_round rounds s
        = Inr (map (stops_at th (ns @ map length rounds)) [length ns ..< length ns + length rounds], t)
      \<and> has_seen (ns @ map length rounds) t"
proof (induction rounds arbitrary: ns s)
  case (Cons r rounds)
  from abort_round_spec [OF Cons.prems, of r] obtain t where
    t: "abort_round r s = Inr (over th ns \<and> \<not> over th (ns @ [length r]), t)"
      "has_seen (ns @ [length r]) t" "th = sgAbortionCriteriaThreshold t" by auto
  from Cons.IH [OF t(2,3)] obtain u where
    u: "mapS abort_round rounds t = Inr (map (stops_at th (ns @ length r # map length rounds))
          [Suc (length ns) ..< length ns + Suc (length rounds)], u)"
      "has_seen (ns @ length r # map length rounds) u" by auto
  have "[length ns ..< length ns + Suc (length rounds)] = length ns # [Suc (length ns) ..< length ns + Suc (length rounds)]"
    by (subst upt_conv_Cons) (simp_all del: upt_Suc)
  then show ?case using t u by (simp add: stops_at_append del: upt_Suc)
qed simp

text \<open>C12: Over any run of the loop, starting with an empty buffer, the criteria are met in exactly those
  rounds where the mean of the numbers of alerts of all rounds so far no longer exceeds the
  threshold although it did one round earlier. Every round counts, however small the configured
  number of normalisation values: the buffer never drops one.\<close>

theorem investigation_stops_by_overall_mean:
  assumes "has_seen [] s"
  shows "\<exists>t. mapS abort_round rounds s
      = Inr (map (stops_at (sgAbortionCriteriaThreshold s) (map length rounds)) [0 ..< length rounds], t)
    \<and> sgSomethingIsGoingOn t = over (sgAbortionCriteriaThreshold t) (map length rounds)"
  using abort_rounds_spec [OF assms refl, of rounds] by (auto simp: has_seen_def)

definition demo_dsg :: "size_t \<Rightarrow> peer dynamic_subgraph" where
  "demo_dsg interval = fault_detection.extend (demo_fd []) \<lparr>sgSAG = graph_new, sgCpuUtilisationSource = ''m'',
     sgSomethingIsGoingOn = False, sgLastNrAlerts = sampled 10 [], sgBlindSpotCheckCounter = 0,
     sgLoopTargetInterval = 100, sgBlindspotInterval = interval, sgAbortionCriteriaThreshold = 1 / 20,
     sgMaximumCpuUtilisation = 4 / 5\<rparr>"

lemma demo_dsg_fields [simp]:
  "sgSAG (demo_dsg i) = graph_new" "sgSomethingIsGoingOn (demo_dsg i) = False" "sgLastNrAlerts (demo_dsg i) = sampled 10 []"
  "sgBlindSpotCheckCounter (demo_dsg i) = 0" "sgBlindspotInterval (demo_dsg i) = i"
  "sgAbortionCriteriaThreshold (demo_dsg i) = 1 / 20" "sgMaximumCpuUtilisation (demo_dsg i) = 4 / 5" "wlMembers (demo_dsg i) = []" "wlInitialMemberNames (demo_dsg i) = []"
  "fdMovingWindow (demo_dsg i) = []" "fdAlerts (demo_dsg i) = []" "dsHeld (demo_dsg i) = []" "dsUpdates (demo_dsg i) = []"
  "stNodes (demo_dsg i) = stNodes demo_store" "stTopics (demo_dsg i) = stTopics demo_store"
  by (simp_all add: demo_dsg_def demo_fd_def demo_wl_def watchlist.defs fault_detection.defs)

definition demo_alert :: alert where
  "demo_alert = \<lparr>alMember = make_member_ptr (TopicRef 0), alAffected = [''cpu''], alTimestamp = 0, alSeverity = SEVERITY_NORMAL\<rparr>"

lemma investigation_stops_by_overall_mean_witness:
  "\<exists>t. mapS abort_round [[demo_alert], [], [], []] ((demo_dsg 15)\<lparr>sgAbortionCriteriaThreshold := 2 / 5\<rparr>)
    = Inr ([False, False, True, False], t)"
proof -
  have s: "has_seen [] ((demo_dsg 15)\<lparr>sgAbortionCriteriaThreshold := 2 / 5\<rparr>)"
    by (simp add: has_seen_def over_def sampled_wf)
  show ?thesis
    using investigation_stops_by_overall_mean [OF s, of "[[demo_alert], [], [], []]"]
    by (auto simp del: mapS.simps simp: stops_at_def over_def mean_of_def upt_rec)
qed

section \<open>Looking for blind spots\<close>

text \<open>The operations of the store and the watchlist leave the other fields alone.\<close>

definition same_beyond :: "('w, 'z) watchlist_scheme \<Rightarrow> ('w, 'z) watchlist_scheme \<Rightarrow> bool" where
  "same_beyond s t \<longleftrightarrow> watchlist.more t = watchlist.more s"

interpretation beyond: frame same_beyond
  by unfold_locales (auto simp: same_beyond_def)

definition keeps_beyond :: "(('w, 'z) watchlist_scheme, 'a) op \<Rightarrow> bool" where
  "keeps_beyond m \<longleftrightarrow> obeys same_beyond m"

lemma keeps_beyond_iff: "keeps_beyond m \<longleftrightarrow> (\<forall>s x t. m s = Inr (x, t) \<longrightarrow> watchlist.more t = watchlist.more s)"
  by (simp add: keeps_beyond_def obeys_def same_beyond_def)

lemma keeps_beyondD: "keeps_beyond m \<Longrightarrow> m s = Inr (x, t) \<Longrightarrow> watchlist.more t = watchlist.more s"
  by (simp add: keeps_beyond_iff)

named_theorems beyond \<open>operations that leave what extends the watchlist alone\<close>

lemmas beyond_rules [beyond] = beyond.rules [folded keeps_beyond_def]

lemma beyond_keeps: "keeps_more m \<Longrightarrow> keeps_beyond m"
  using keeps_watchlist by (fastforce simp: keeps_beyond_iff)

lemma beyond_held [simp]:
  "watchlist.more (u\<lparr>dsTrace := tr, dsHeld := h\<rparr>) = watchlist.more u" for u :: "('a, 'b) watchlist_scheme"
  by (cases u) simp

lemma beyond_locked [beyond]:
  assumes "keeps_beyond m"
  shows "keeps_beyond (locked x m)"
  unfolding keeps_beyond_iff
proof (intro allI impI)
  fix s y t assume "locked x m s = Inr (y, t)"
  then obtain u where "m (s\<lparr>dsTrace := dsTrace s @ [Locked x (dsHeld s)], dsHeld := x # dsHeld s\<rparr>) = Inr (y, u)"
    "t = u\<lparr>dsHeld := remove1 x (dsHeld u)\<rparr>" by (rule locked_InrE)
  then show "watchlist.more t = watchlist.more s" using keeps_beyondD [OF assms] by fastforce
qed

lemma beyond_basic [beyond]: "keeps_beyond (wl_get k)" "keeps_beyond (emplace_member p type)"
  "keeps_beyond (touch c)" "keeps_beyond (world h)"
  "keeps_beyond (ds_get ipc q)" "keeps_beyond (ptr_destroy p)" "keeps_beyond (ptr_copy p)"
proof -
  show "keeps_beyond (emplace_member p type)"
    using keeps_watchlist [OF keeps_ptr(2)] by (fastforce simp: keeps_beyond_iff emplace_member_def split: prod.splits if_splits)
qed (auto simp: keeps_beyond_iff wl_get_def intro: keeps_watchlist keeps)



lemma beyond_addMember [beyond]: "keeps_beyond (addMember_proxy ipc q type)"
proof -
  have eq: "addMember_proxy ipc q type = (\<lambda>s. if pxIsTopic q \<and> checkTopicPrimaryIgnored (pxPrimaryKey q) s then returnS () s
     else locked MembersMutex (bindS (touch WatchedMembers) (\<lambda>_. bindS (wl_get (pxPrimaryKey q)) (\<lambda>i s.
      if i = length (wlMembers s) then returnS () s
      else bindS (ds_get ipc q) (\<lambda>p. bindS (emplace_member p type) (\<lambda>e. liftR (assertR e))) s))) s)"
    by (simp add: addMember_proxy_def fun_eq_iff cong: if_cong)
  show ?thesis unfolding eq by (intro beyond)
qed

lemma beyond_contains [beyond]: "keeps_beyond (wl_contains k)"
proof -
  have eq: "wl_contains k = locked MembersMutex (bindS (touch WatchedMembers) (\<lambda>_. bindS (wl_get k)
      (\<lambda>it. getsR (\<lambda>s. Inr (it \<noteq> length (wlMembers s))))))"
    by (simp add: wl_contains_def getsR_def [abs_def])
  show ?thesis unfolding eq by (intro beyond)
qed

lemma keeps_getFullGraphView [keeps]: "keeps_more (getFullGraphView ipc js)"
proof -
  have "keeps_more (\<lambda>s. bindR (f s) (\<lambda>(x, w). Inr (x, s\<lparr>dsWorld := w\<rparr>)))" for f
    by (auto simp: keeps_more_iff)
  then show ?thesis unfolding getFullGraphView_def by (intro keeps)
qed

lemma beyond_blindSpotCheck [beyond]: "keeps_beyond (blindSpotCheck ipc js)"
  unfolding blindSpotCheck_def by (intro beyond beyond_keeps [OF keeps_getFullGraphView])

lemma more_subgraph:
  assumes "watchlist.more t = watchlist.more s"
  shows "sgSAG t = sgSAG s" "sgSomethingIsGoingOn t = sgSomethingIsGoingOn s" "sgLastNrAlerts t = sgLastNrAlerts s"
    "sgBlindSpotCheckCounter t = sgBlindSpotCheckCounter s" "sgBlindspotInterval t = sgBlindspotInterval s"
    "sgMaximumCpuUtilisation t = sgMaximumCpuUtilisation s" "sgCpuUtilisationSource t = sgCpuUtilisationSource s"
    "sgAbortionCriteriaThreshold t = sgAbortionCriteriaThreshold s"
  using more_alerts(4) [OF assms] by (cases s, cases t, simp)+

lemma cpu_utilisation_keeps: "cpu_utilisation ipc s = Inr (x, t) \<Longrightarrow> watchlist.more t = watchlist.more s"
proof -
  have f: "watchlist.more (u\<lparr>dsWorld := w\<rparr>) = watchlist.more u" for u :: "('a, 'b) watchlist_scheme" and w by (cases u) simp
  show "cpu_utilisation ipc s = Inr (x, t) \<Longrightarrow> watchlist.more t = watchlist.more s"
    by (auto simp: cpu_utilisation_def world_def f split: prod.splits)
qed

lemma advance_counter_unat:
  assumes "advance_counter s = Inr (u, t)" "sgBlindSpotCheckCounter s < sgBlindspotInterval s"
  shows "unat (sgBlindSpotCheckCounter t) = Suc (unat (sgBlindSpotCheckCounter s)) mod unat (sgBlindspotInterval s)"
    "sgBlindspotInterval t = sgBlindspotInterval s" "sgBlindSpotCheckCounter t < sgBlindspotInterval t"
proof -
  let ?c = "sgBlindSpotCheckCounter s" and ?i = "sgBlindspotInterval s"
  have i: "?i \<noteq> 0" "t = s\<lparr>sgBlindSpotCheckCounter := (?c + 1) mod ?i\<rparr>"
    using assms(1) by (auto simp: advance_counter_def split: if_splits)
  have "unat ?c < unat ?i" "unat ?i < 2 ^ 64"
    using assms(2) unsigned_less [of ?i, where ?'a = nat] by (simp_all add: word_less_nat_alt)
  then have "unat (?c + 1) = Suc (unat ?c)" by (simp add: unat_word_ariths)
  then show "unat (sgBlindSpotCheckCounter t) = Suc (unat ?c) mod unat ?i" using i(2) by (simp add: unat_mod)
  show "sgBlindspotInterval t = ?i" using i(2) by simp
  show "sgBlindSpotCheckCounter t < sgBlindspotInterval t" using i by (simp add: word_mod_less_divisor word_neq_0_conv)
qed

lemma check_round_unat:
  assumes "check_blind_spots ipc js s = Inr (u, t)" "sgBlindSpotCheckCounter s < sgBlindspotInterval s"
  shows "unat (sgBlindSpotCheckCounter t) = Suc (unat (sgBlindSpotCheckCounter s)) mod unat (sgBlindspotInterval s)
    \<and> sgBlindspotInterval t = sgBlindspotInterval s \<and> sgBlindSpotCheckCounter t < sgBlindspotInterval t"
proof -
  from assms(1) obtain c a b where a: "cpu_utilisation ipc s = Inr (c, a)"
    and b: "(if sgBlindSpotCheckCounter a = 0 \<and> c < sgMaximumCpuUtilisation a then blindSpotCheck ipc js a else Inr ((), a)) = Inr ((), b)"
    and t: "advance_counter b = Inr (u, t)" unfolding check_blind_spots_def by auto
  have "watchlist.more b = watchlist.more a"
    using b keeps_beyondD [OF beyond_blindSpotCheck, of ipc js a "()" b] by (auto split: if_splits)
  then have "watchlist.more b = watchlist.more s" using cpu_utilisation_keeps [OF a] by simp
  note m = more_subgraph(4,5) [OF this]
  from advance_counter_unat [OF t] assms(2) m show ?thesis by simp
qed

lemma check_rounds_unat:
  assumes "sgBlindSpotCheckCounter s < sgBlindspotInterval s"
    and "seqS (replicate k (check_blind_spots ipc js)) s = Inr (u, t)"
  shows "unat (sgBlindSpotCheckCounter t) = (unat (sgBlindSpotCheckCounter s) + k) mod unat (sgBlindspotInterval s)
    \<and> sgBlindspotInterval t = sgBlindspotInterval s"
  using assms
proof (induction k arbitrary: s)
  case 0
  then show ?case by (simp add: word_less_nat_alt)
next
  case (Suc k)
  from Suc.prems(2) obtain v a where a: "check_blind_spots ipc js s = Inr (v, a)"
    "seqS (replicate k (check_blind_spots ipc js)) a = Inr (u, t)" by auto
  note r = check_round_unat [OF a(1) Suc.prems(1)]
  have "unat (sgBlindSpotCheckCounter t) = (unat (sgBlindSpotCheckCounter a) + k) mod unat (sgBlindspotInterval a)
      \<and> sgBlindspotInterval t = sgBlindspotInterval a" using Suc.IH a(2) r by blast
  then show ?case using r by (simp add: mod_simps)
qed

text \<open>C30: The blind spot check comes round every \<open>blindspot-interval\<close> iterations, in the first one and then
  again each time that many have passed, and then only while the CPU load is below the threshold;
  in the others only the load is sampled. An interval of zero makes every iteration divide by zero.\<close>

theorem blind_spot_check_due:
  assumes "sgBlindSpotCheckCounter s = 0"
    and "seqS (replicate k (check_blind_spots ipc js)) s = Inr ((), t)"
  shows "(0 < sgBlindspotInterval s \<longrightarrow>
      check_blind_spots ipc js t = bindS (cpu_utilisation ipc) (\<lambda>load. bindS
        (\<lambda>s'. if k mod unat (sgBlindspotInterval s) = 0 \<and> load < sgMaximumCpuUtilisation t
              then blindSpotCheck ipc js s' else returnS () s') (\<lambda>_. advance_counter)) t)
    \<and> (sgBlindspotInterval s = 0 \<longrightarrow> (\<forall>r. check_blind_spots ipc js s \<noteq> Inr r))"
proof (intro conjI impI allI)
  assume "0 < sgBlindspotInterval s"
  with check_rounds_unat [OF _ assms(2)] assms(1)
  have k: "sgBlindSpotCheckCounter t = 0 \<longleftrightarrow> k mod unat (sgBlindspotInterval s) = 0" by (simp add: unat_eq_zero [symmetric])
  show "check_blind_spots ipc js t = bindS (cpu_utilisation ipc) (\<lambda>load. bindS
        (\<lambda>s'. if k mod unat (sgBlindspotInterval s) = 0 \<and> load < sgMaximumCpuUtilisation t
              then blindSpotCheck ipc js s' else returnS () s') (\<lambda>_. advance_counter)) t"
  proof (cases "cpu_utilisation ipc t")
    case (Inr r)
    then obtain c a where a: "cpu_utilisation ipc t = Inr (c, a)" by (cases r) auto
    show ?thesis using more_subgraph [OF cpu_utilisation_keeps [OF a]] a k
      by (simp add: check_blind_spots_def bindS_def cong: if_cong)
  qed (simp add: check_blind_spots_def)
next
  fix r assume i: "sgBlindspotInterval s = 0"
  show "check_blind_spots ipc js s \<noteq> Inr r"
  proof
    assume "check_blind_spots ipc js s = Inr r"
    then obtain c a b where a: "cpu_utilisation ipc s = Inr (c, a)"
      and b: "(if sgBlindSpotCheckCounter a = 0 \<and> c < sgMaximumCpuUtilisation a then blindSpotCheck ipc js a else Inr ((), a)) = Inr ((), b)"
      and t: "advance_counter b = Inr r" unfolding check_blind_spots_def by auto
    have "watchlist.more b = watchlist.more s"
      using b keeps_beyondD [OF beyond_blindSpotCheck, of ipc js a "()" b] cpu_utilisation_keeps [OF a] by (auto split: if_splits)
    from more_subgraph(5) [OF this] i t show False by (simp add: advance_counter_def)
  qed
qed

lemma demo_dsg_load:
  "sgMaximumCpuUtilisation s = 4 / 5 \<Longrightarrow> cpu_utilisation demo_ipc (s :: (peer, 'z) dynamic_subgraph_scheme) = Inr (1, s)"
  by (simp add: cpu_utilisation_def bindS_def world_def demo_ipc_def demo_response_def)

lemma demo_dsg_round:
  "sgMaximumCpuUtilisation s = 4 / 5 \<Longrightarrow> sgBlindspotInterval s \<noteq> 0 \<Longrightarrow>
    check_blind_spots demo_ipc js s = Inr ((), s\<lparr>sgBlindSpotCheckCounter := (sgBlindSpotCheckCounter s + 1) mod sgBlindspotInterval s\<rparr>)"
  by (simp add: check_blind_spots_def bindS_def demo_dsg_load advance_counter_def)

lemma blind_spot_check_due_witness:
  "\<forall>js :: unit json. \<exists>t. seqS (replicate 2 (check_blind_spots demo_ipc js)) (demo_dsg 15) = Inr ((), t)
    \<and> check_blind_spots demo_ipc js t
      = bindS (cpu_utilisation demo_ipc) (\<lambda>_. bindS (\<lambda>s'. returnS () s') (\<lambda>_. advance_counter)) t"
proof
  fix js :: "unit json"
  have "\<exists>t. check_blind_spots demo_ipc js (demo_dsg 15) = Inr ((), t) \<and> sgMaximumCpuUtilisation t = 4 / 5 \<and> sgBlindspotInterval t \<noteq> 0"
    using demo_dsg_round [of "demo_dsg 15" js] by simp
  then obtain a where a: "check_blind_spots demo_ipc js (demo_dsg 15) = Inr ((), a)"
    "sgMaximumCpuUtilisation a = 4 / 5" "sgBlindspotInterval a \<noteq> 0" by blast
  then have "\<exists>t. seqS (replicate 2 (check_blind_spots demo_ipc js)) (demo_dsg 15) = Inr ((), t)"
    using demo_dsg_round [OF a(2,3), of js] by (simp add: numeral_2_eq_2)
  then obtain t where t: "seqS (replicate 2 (check_blind_spots demo_ipc js)) (demo_dsg 15) = Inr ((), t)" by blast
  have "0 < sgBlindspotInterval (demo_dsg 15)" by simp
  with blind_spot_check_due [OF _ t] t show "\<exists>t. seqS (replicate 2 (check_blind_spots demo_ipc js)) (demo_dsg 15) = Inr ((), t)
    \<and> check_blind_spots demo_ipc js t
      = bindS (cpu_utilisation demo_ipc) (\<lambda>_. bindS (\<lambda>s'. returnS () s') (\<lambda>_. advance_counter)) t"
    by (intro exI [of _ t] conjI) (simp_all cong: if_cong)
qed

section \<open>What reaches the watchlist\<close>

text \<open>While the watchlist holds at most one member, nothing the main loop offers changes anything but
  the trace of locks and accesses.\<close>

lemma offers_trace:
  assumes "wl_single s" "forS ms (\<lambda>m. addMember_proxy ipc m type) s = Inr (u, t)"
  shows "\<exists>tr. t = s\<lparr>dsTrace := tr\<rparr>"
  using assms
proof (induction ms arbitrary: s)
  case Nil
  then have "t = s\<lparr>dsTrace := dsTrace s\<rparr>" by simp
  then show ?case by blast
next
  case (Cons m ms)
  from Cons.prems(2) obtain a where a: "addMember_proxy ipc m type s = Inr ((), a)"
    "forS ms (\<lambda>m. addMember_proxy ipc m type) a = Inr (u, t)" by auto
  from addMember_proxy_traces [OF Cons.prems(1) a(1)] obtain tr where tr: "a = s\<lparr>dsTrace := tr\<rparr>" by blast
  have "wl_single a" using Cons.prems(1) tr by (simp add: wl_single_def)
  from Cons.IH [OF this a(2)] tr show ?case by auto
qed

text \<open>Operations that, while at most one member is watched, add none: they leave the watchlist as it is or
  empty it.\<close>

definition none_more :: "('w, 'z) watchlist_scheme \<Rightarrow> ('w, 'z) watchlist_scheme \<Rightarrow> bool" where
  "none_more s t \<longleftrightarrow> (wl_single s \<longrightarrow> (wlMembers t = wlMembers s \<or> wlMembers t = [])
     \<and> wlInitialMemberNames t = wlInitialMemberNames s)"

interpretation none: frame none_more
  by unfold_locales (auto simp: none_more_def wl_single_def)

definition adds_none :: "(('w, 'z) watchlist_scheme, 'a) op \<Rightarrow> bool" where
  "adds_none m \<longleftrightarrow> obeys none_more m"

lemma adds_none_iff:
  "adds_none m \<longleftrightarrow> (\<forall>s x t. wl_single s \<longrightarrow> m s = Inr (x, t) \<longrightarrow>
     (wlMembers t = wlMembers s \<or> wlMembers t = []) \<and> wlInitialMemberNames t = wlInitialMemberNames s)"
  unfolding adds_none_def obeys_def none_more_def by blast

lemma adds_noneD:
  assumes "adds_none m" "wl_single s" "m s = Inr (x, t)"
  shows "wlMembers t = wlMembers s \<or> wlMembers t = []" "wlInitialMemberNames t = wlInitialMemberNames s" "wl_single t"
proof -
  have "(wlMembers t = wlMembers s \<or> wlMembers t = []) \<and> wlInitialMemberNames t = wlInitialMemberNames s"
    using assms unfolding adds_none_iff by blast
  then show m: "wlMembers t = wlMembers s \<or> wlMembers t = []" "wlInitialMemberNames t = wlInitialMemberNames s" by blast+
  show "wl_single t" using m(1) assms(2) by (auto simp: wl_single_def)
qed

named_theorems none_added \<open>operations that add no member to a watchlist of at most one\<close>

lemmas none_rules [none_added] = none.rules [folded adds_none_def]
lemmas none_seqS = none.sequence [folded adds_none_def]
lemmas none_state = none.apply_state [folded adds_none_def]

lemma none_same: "(\<And>s x t. wl_single s \<Longrightarrow> m s = Inr (x, t) \<Longrightarrow> wl_same s t) \<Longrightarrow> adds_none m"
  by (simp add: adds_none_iff wl_same_def)

lemma none_keeps: "keeps_more m \<Longrightarrow> adds_none m"
  by (rule none_same) (rule keeps_wl_same)

lemma none_fields: "(\<And>s x t. m s = Inr (x, t) \<Longrightarrow> wlMembers t = wlMembers s \<and> wlInitialMemberNames t = wlInitialMemberNames s)
    \<Longrightarrow> adds_none m"
  by (simp add: adds_none_iff)



lemma none_locked [none_added]:
  assumes "adds_none m"
  shows "adds_none (locked x m)"
  unfolding adds_none_iff
proof (intro allI impI)
  fix s y t assume s: "wl_single s" "locked x m s = Inr (y, t)"
  from s(2) obtain u where u: "m (s\<lparr>dsTrace := dsTrace s @ [Locked x (dsHeld s)], dsHeld := x # dsHeld s\<rparr>) = Inr (y, u)"
    "t = u\<lparr>dsHeld := remove1 x (dsHeld u)\<rparr>" by (rule locked_InrE)
  have "wl_single (s\<lparr>dsTrace := dsTrace s @ [Locked x (dsHeld s)], dsHeld := x # dsHeld s\<rparr>)"
    using s(1) by (simp add: wl_single_def)
  from adds_noneD(1,2) [OF assms this u(1)] u(2)
  show "(wlMembers t = wlMembers s \<or> wlMembers t = []) \<and> wlInitialMemberNames t = wlInitialMemberNames s" by simp
qed

lemma none_watchlist [none_added]:
  "adds_none (addMember_proxy ipc q type)" "adds_none (wl_contains k)" "adds_none (notifyUsed k)" "adds_none wl_reset"
  "adds_none (touch c)" "adds_none (ptr_destroy p)" "adds_none (ptr_copy p)" "adds_none (world h)"
proof -
  show "adds_none (addMember_proxy ipc q type)" by (rule none_same) (rule addMember_proxy_same)
  show "adds_none (wl_contains k)" by (rule none_same) (rule contains_same)
  show "adds_none (notifyUsed k)" by (rule none_same) (blast dest: notifyUsed_same)
  show "adds_none wl_reset" using wl_reset_empty by (fastforce simp: adds_none_iff)
qed (rule none_keeps, rule keeps)+

lemma none_wl_update [none_added]: "(\<And>s. wlMembers (f s) = wlMembers s \<and> wlInitialMemberNames (f s) = wlInitialMemberNames s)
    \<Longrightarrow> adds_none (\<lambda>s. Inr (x s, f s))"
  by (simp add: adds_none_iff)

lemma keeps_getUpdates [keeps]: "keeps_more getUpdates"
proof -
  have "keeps_more (\<lambda>s. Inr (dsUpdates s, s\<lparr>dsUpdates := []\<rparr>))" by (auto simp: keeps_more_iff)
  then show ?thesis unfolding getUpdates_def by (intro keeps)
qed

lemma store_op_fields:
  assumes "keeps_more m" "m s = Inr (x, t)"
  shows "wlMembers t = wlMembers s" "wlInitialMemberNames t = wlInitialMemberNames s"
  using keeps_wl_same [OF assms] by (simp_all add: wl_same_def)

lemma keeps_graph [keeps]: "keeps_more (graph_add p g)" "keeps_more (graph_reset g)"
  unfolding graph_add_def [abs_def] graph_reset_def [abs_def] Let_def by (intro keeps)+

lemma none_sag [none_added]: "adds_none (sag_add p)" "adds_none sag_reset" "adds_none (sag_incoming p)" "adds_none (sag_contains q)"
proof -
  have "adds_none (\<lambda>s. bindR (graph_add p (sgSAG s) s) (\<lambda>((added, g), t). Inr (added, t\<lparr>sgSAG := g\<rparr>)))"
    by (auto simp: adds_none_iff store_op_fields [OF keeps_graph(1)])
  then show "adds_none (sag_add p)" unfolding sag_add_def by (intro none_added)
  have "adds_none (\<lambda>s. bindR (graph_reset (sgSAG s) s) (\<lambda>(g, t). Inr ((), t\<lparr>sgSAG := g\<rparr>)))"
    by (auto simp: adds_none_iff store_op_fields [OF keeps_graph(2)])
  then show "adds_none sag_reset" unfolding sag_reset_def by (intro none_added)
  show "adds_none (sag_incoming p)" "adds_none (sag_contains q)"
    unfolding sag_incoming_def sag_contains_def by (intro none_added)+
qed



lemma none_alerts [none_added]: "adds_none getEmittedAlerts" "adds_none fd_reset" "adds_none (checkAbortCirteria as)"
proof -
  have m: "adds_none (mapS copy_alert as)" for as
    by (rule none_keeps, rule keeps, rule keeps)
  have "adds_none (bindS (mapS copy_alert a) (\<lambda>out. bindS (forS (map alMember a) ptr_destroy)
      (\<lambda>_ s. Inr (out, s\<lparr>fdAlerts := []\<rparr>))))" for a
    by (intro none_added m) simp
  then have "adds_none (\<lambda>s. bindS (mapS copy_alert (fdAlerts s)) (\<lambda>out. bindS (forS (map alMember (fdAlerts s)) ptr_destroy)
      (\<lambda>_ s. Inr (out, s\<lparr>fdAlerts := []\<rparr>))) s)"
    by (rule none_state)
  then show "adds_none getEmittedAlerts" unfolding getEmittedAlerts_def by (intro none_added)
  have "adds_none (bindS (forS (map fst a) ptr_destroy) (\<lambda>_ s. Inr ((), s\<lparr>fdMovingWindow := []\<rparr>)))"
    for a :: "(member_ptr \<times> attribute_window) list"
    by (intro none_added) simp
  then have "adds_none (\<lambda>s. bindS (forS (map fst (fdMovingWindow s)) ptr_destroy) (\<lambda>_ s. Inr ((), s\<lparr>fdMovingWindow := []\<rparr>)) s)"
    by (rule none_state)
  then show "adds_none fd_reset" unfolding fd_reset_def by (intro none_added)
  show "adds_none (checkAbortCirteria as)"
    by (auto simp: adds_none_iff checkAbortCirteria_def Let_def split: if_splits)
qed

lemma none_check_blind_spots: "adds_none (check_blind_spots ipc js)"
proof -
  have cpu: "adds_none (cpu_utilisation ipc)"
  proof -
    have "adds_none (bindS (world (shmReceive ipc a)) (\<lambda>resp. bindS (liftR (assertR (rsType resp = NUMERICAL))) (\<lambda>_.
       bindS (liftR (assertR (rsNumber resp = 1 \<and> rsTotal resp = 1))) (\<lambda>_. returnS (rsValue resp)))))" for a
      by (intro none_added)
    then show ?thesis unfolding cpu_utilisation_def [abs_def] by (rule none_state)
  qed
  have "adds_none (\<lambda>s. if sgBlindSpotCheckCounter s = 0 \<and> c < sgMaximumCpuUtilisation s then blindSpotCheck ipc js s
      else returnS () s)" for c
    unfolding blindSpotCheck_def by (intro none_added none_keeps [OF keeps_getFullGraphView])
  moreover have "adds_none advance_counter" by (simp add: adds_none_iff advance_counter_def)
  ultimately show ?thesis unfolding check_blind_spots_def
    by (intro none_rules(1) cpu) (simp_all cong: if_cong)
qed

lemma none_follow_updates: "adds_none (follow_updates ipc)"
  unfolding follow_updates_def offer_connection_def by (intro none_added none_keeps [OF keeps_getUpdates])

lemma none_handle_alerts: "adds_none (handle_alerts ipc)"
proof -
  have e: "adds_none (expandSubgraph ipc as)" for as
    unfolding expandSubgraph_def expand_by_def sag_request_drawing_def [abs_def] by (intro none_added) simp
  have a: "adds_none abort_investigation"
    unfolding abort_investigation_def by (intro none_added) simp
  show ?thesis unfolding handle_alerts_def by (intro none_added e a)
qed

lemma none_dsg_body: "adds_none (dsg_body ipc js)"
  unfolding dsg_body_def
  by (rule none_seqS) (auto intro: none_check_blind_spots none_follow_updates none_handle_alerts)

text \<open>One iteration of the main loop, with all its offers (blind spots, members new edges lead to,
  members with an edge into an alerted one), never puts a member on the watchlist. It keeps the one
  that is there, or takes it away when an investigation stops.\<close>

theorem main_loop_watches_no_one:
  assumes "wl_reachable ipc s" "dsg_body ipc js s = Inr ((), t)"
  shows "set (wlMembers t) \<subseteq> set (wlMembers s) \<and> length (wlMembers t) \<le> 1
    \<and> wlInitialMemberNames t = wlInitialMemberNames s"
proof -
  have s: "wl_single s" by (rule wl_reachable_single [OF assms(1)])
  note t = adds_noneD [OF none_dsg_body s assms(2)]
  from t(3) have "length (wlMembers t) \<le> 1" by (auto simp: wl_single_def)
  with t show ?thesis using t by auto
qed

lemma demo_dsg_body: "\<exists>t. dsg_body demo_ipc js (demo_dsg 15) = Inr ((), t)"
proof -
  let ?s = "(demo_dsg 15)\<lparr>sgBlindSpotCheckCounter := 1\<rparr>"
  have "check_blind_spots demo_ipc js (demo_dsg 15) = Inr ((), ?s)"
    using demo_dsg_round [of "demo_dsg 15" js] by simp
  moreover have "\<exists>a. follow_updates demo_ipc ?s = Inr ((), a) \<and> fdAlerts a = [] \<and> dsHeld a = []
    \<and> sgLastNrAlerts a = sampled 10 [] \<and> \<not> sgSomethingIsGoingOn a"
    by (simp add: follow_updates_def getUpdates_def locked_def bindS_def touch_def)
  then obtain a where a: "follow_updates demo_ipc ?s = Inr ((), a)" "fdAlerts a = []" "dsHeld a = []"
    "sgLastNrAlerts a = sampled 10 []" "\<not> sgSomethingIsGoingOn a" by blast
  moreover obtain t where "handle_alerts demo_ipc a = Inr ((), t)"
    using a(2-) cb_push_wf_eq [OF sampled_wf, of 10 0 "[]"]
    by (simp add: handle_alerts_def getEmittedAlerts_def locked_def bindS_def touch_def checkAbortCirteria_def cb_getMean_eq Let_def)
  ultimately show ?thesis by (simp add: dsg_body_def bindS_def)
qed

lemma main_loop_watches_no_one_witness:
  "\<forall>js :: unit json. \<exists>t. dsg_body demo_ipc js (demo_dsg 15) = Inr ((), t) \<and> wlMembers t = []"
proof
  fix js :: "unit json"
  obtain t where t: "dsg_body demo_ipc js (demo_dsg 15) = Inr ((), t)" using demo_dsg_body by blast
  have "wl_reachable demo_ipc (demo_dsg 15)" by (rule wl_reachable.empty) simp
  from main_loop_watches_no_one [OF this t] t show "\<exists>t. dsg_body demo_ipc js (demo_dsg 15) = Inr ((), t) \<and> wlMembers t = []"
    by simp
qed

section \<open>How the subgraph grows\<close>

lemma balanced_sag [simp]:
  "balanced live (s\<lparr>sgSAG := g\<rparr>) = balanced live s" for s :: "('w, 'z) dynamic_subgraph_scheme"
  by (simp add: balanced_def counter_of_def cong: member_ref.case_cong)

lemma sag_add_spec:
  assumes "balanced (rest @ mVertices (sgSAG s)) s" "member \<in> set rest"
    and "length (rest @ mVertices (sgSAG s)) < 2 ^ 64 - 1" "sag_add member s = Inr (added, t)"
  shows "balanced (rest @ mVertices (sgSAG t)) t
    \<and> (added \<longleftrightarrow> mpMember member \<notin> mpMember ` set (mVertices (sgSAG s)))
    \<and> map mpMember (mVertices (sgSAG t)) = map mpMember (mVertices (sgSAG s)) @ (if added then [mpMember member] else [])"
proof -
  let ?u = "s\<lparr>dsHeld := VerticesMutex # dsHeld s,
    dsTrace := dsTrace s @ [Locked VerticesMutex (dsHeld s), Touched Vertices (VerticesMutex # dsHeld s)]\<rparr>"
  from assms(4) obtain g v where v: "graph_add member (sgSAG s) ?u = Inr ((added, g), v)"
    "t = v\<lparr>sgSAG := g, dsHeld := remove1 VerticesMutex (dsHeld v)\<rparr>"
    unfolding sag_add_def by (auto elim!: locked_InrE)
  have "balanced (rest @ mVertices (sgSAG s)) ?u" using assms(1) by simp
  from graph_add_balanced [OF this assms(2,3)] v(1)
  have g: "added \<longleftrightarrow> (\<forall>w\<in>set (mVertices (sgSAG s)). \<not> ptr_eq w member)"
    "map mpMember (mVertices g) = map mpMember (mVertices (sgSAG s)) @ (if added then [mpMember member] else [])"
    "balanced (rest @ mVertices g) v" by auto
  moreover have "(\<forall>w\<in>set (mVertices (sgSAG s)). \<not> ptr_eq w member) \<longleftrightarrow> mpMember member \<notin> mpMember ` set (mVertices (sgSAG s))"
    by (auto simp: ptr_eq_def image_iff)
  ultimately show ?thesis using v(2) by simp
qed

text \<open>One alert: its member becomes a vertex unless it is one.\<close>

lemma expand_by_spec:
  assumes "wl_single s" "balanced (rest @ mVertices (sgSAG s)) s" "alMember a \<in> set rest"
    and "length (rest @ mVertices (sgSAG s)) < 2 ^ 64 - 1" "expand_by ipc a s = Inr (u, t)"
    and "distinct (map mpMember (mVertices (sgSAG s)))"
  shows "wl_single t \<and> balanced (rest @ mVertices (sgSAG t)) t \<and> distinct (map mpMember (mVertices (sgSAG t)))
    \<and> mpMember ` set (mVertices (sgSAG t)) = insert (mpMember (alMember a)) (mpMember ` set (mVertices (sgSAG s)))
    \<and> length (mVertices (sgSAG t)) \<le> Suc (length (mVertices (sgSAG s)))"
proof -
  from assms(5) obtain added v where v: "sag_add (alMember a) s = Inr (added, v)"
    "(if \<not> added then returnS () else bindS (sag_incoming (alMember a)) (\<lambda>incoming.
          forS incoming (\<lambda>m. addMember_proxy ipc m TYPE_NORMAL))) v = Inr (u, t)"
    unfolding expand_by_def by auto
  note g = sag_add_spec [OF assms(2-4) v(1)]
  have w: "wl_single v" using none_sag(1) assms(1) v(1) by (rule adds_noneD(3))
  have "\<exists>tr. t = v\<lparr>dsTrace := tr\<rparr>"
  proof (cases added)
    case False
    then have "t = v\<lparr>dsTrace := dsTrace v\<rparr>" using v(2) by simp
    then show ?thesis by blast
  next
    case True
    then obtain inc x where x: "forS inc (\<lambda>m. addMember_proxy ipc m TYPE_NORMAL) (v\<lparr>dsTrace := x\<rparr>) = Inr (u, t)"
      using v(2) by (auto simp: sag_incoming_def)
    have "wl_single (v\<lparr>dsTrace := x\<rparr>)" using w by (simp add: wl_single_def)
    from offers_trace [OF this x] show ?thesis by auto
  qed
  then obtain tr where t: "t = v\<lparr>dsTrace := tr\<rparr>" by blast
  have m: "map mpMember (mVertices (sgSAG t)) = map mpMember (mVertices (sgSAG s))
      @ (if mpMember (alMember a) \<notin> mpMember ` set (mVertices (sgSAG s)) then [mpMember (alMember a)] else [])"
    using g t by simp
  have "set (map mpMember (mVertices (sgSAG t))) = insert (mpMember (alMember a)) (set (map mpMember (mVertices (sgSAG s))))"
    unfolding m by auto
  note st = this [unfolded set_map]
  have d: "distinct (map mpMember (mVertices (sgSAG t)))" unfolding m using assms(6) by auto
  have "length (map mpMember (mVertices (sgSAG t))) \<le> Suc (length (map mpMember (mVertices (sgSAG s))))" unfolding m by auto
  note l = this [unfolded length_map]
  have "balanced (rest @ mVertices (sgSAG t)) t" "wl_single t" using g w t by (simp_all add: wl_single_def)
  then show ?thesis using st d l by blast
qed

lemma expand_alerts_spec:
  assumes "forS as (expand_by ipc) s = Inr (u, t)" "wl_single s" "balanced (rest @ mVertices (sgSAG s)) s"
    and "alMember ` set as \<subseteq> set rest" "length rest + length (mVertices (sgSAG s)) + length as < 2 ^ 64 - 1"
    and "distinct (map mpMember (mVertices (sgSAG s)))"
  shows "balanced (rest @ mVertices (sgSAG t)) t \<and> distinct (map mpMember (mVertices (sgSAG t)))
    \<and> mpMember ` set (mVertices (sgSAG t)) = mpMember ` alMember ` set as \<union> mpMember ` set (mVertices (sgSAG s))"
  using assms
proof (induction as arbitrary: s)
  case (Cons a as)
  from Cons.prems(1) obtain v where v: "expand_by ipc a s = Inr ((), v)" "forS as (expand_by ipc) v = Inr (u, t)" by auto
  have "alMember a \<in> set rest" "length (rest @ mVertices (sgSAG s)) < 2 ^ 64 - 1" using Cons.prems(4,5) by auto
  note e = expand_by_spec [OF Cons.prems(2,3) this v(1) Cons.prems(6)]
  have "length rest + length (mVertices (sgSAG v)) + length as < 2 ^ 64 - 1" using e Cons.prems(5) by auto
  with Cons.IH [OF v(2)] e Cons.prems(4) show ?case by auto
qed auto

text \<open>C20: Expanding the subgraph by the alerts of an iteration makes exactly their members new vertices, each
  once, asks for the picture to be redrawn, and keeps every use counter equal to the number of live
  pointers, the vertices included.\<close>

theorem subgraph_grows_by_alerts:
  assumes "wl_reachable ipc s" "balanced (rest @ mVertices (sgSAG s)) s" "alMember ` set alerts \<subseteq> set rest"
    and "length rest + length (mVertices (sgSAG s)) + length alerts < 2 ^ 64 - 1"
    and "distinct (map mpMember (mVertices (sgSAG s)))" "expandSubgraph ipc alerts s = Inr (u, t)"
  shows "mpMember ` set (mVertices (sgSAG t)) = mpMember ` alMember ` set alerts \<union> mpMember ` set (mVertices (sgSAG s))
    \<and> distinct (map mpMember (mVertices (sgSAG t))) \<and> mUpdateVisualisation (sgSAG t)
    \<and> balanced (rest @ mVertices (sgSAG t)) t"
proof -
  from assms(6) obtain v where v: "forS alerts (expand_by ipc) s = Inr ((), v)"
    "t = v\<lparr>sgSAG := graph_updateVisualisation (sgSAG v)\<rparr>" unfolding expandSubgraph_def sag_request_drawing_def by auto
  from expand_alerts_spec [OF v(1) wl_reachable_single [OF assms(1)] assms(2-5)] v(2) show ?thesis
    by (simp add: graph_updateVisualisation_def)
qed

lemma subgraph_grows_by_alerts_witness:
  "\<exists>t. expandSubgraph demo_ipc [demo_alert] (demo_dsg 15) = Inr ((), t)
    \<and> mpMember ` set (mVertices (sgSAG t)) = {Some (TopicRef 0)}"
proof -
  have "\<exists>t. expandSubgraph demo_ipc [demo_alert] (demo_dsg 15) = Inr ((), t)"
    by (simp add: expandSubgraph_def sag_request_drawing_def expand_by_def sag_add_def sag_incoming_def locked_def touch_def bindS_def graph_add_def
      ptr_copy_def counter_at_def modify_def deref_def cell_def demo_alert_def make_member_ptr_def demo_store_def
      demo_topics_def demo_el_def graph_new_def set_cell_def graph_getIncoming_def ptr_isTopic_def asTopic_def getsR_def
      demo_topic_def topic_of_response_def)
  then obtain t where t: "expandSubgraph demo_ipc [demo_alert] (demo_dsg 15) = Inr ((), t)" by blast
  have "wl_reachable demo_ipc (demo_dsg 15)" by (rule wl_reachable.empty) simp
  moreover have "balanced [make_member_ptr (TopicRef 0)] demo_store" using pool_inv [OF demo_pool] by blast
  then have "balanced ([make_member_ptr (TopicRef 0)] @ mVertices (sgSAG (demo_dsg 15))) (demo_dsg 15)"
    by (simp add: graph_new_def balanced_def counter_of_def cong: member_ref.case_cong)
  moreover have "alMember ` set [demo_alert] \<subseteq> set [make_member_ptr (TopicRef 0)]" by (simp add: demo_alert_def)
  ultimately have "mpMember ` set (mVertices (sgSAG t)) = mpMember ` alMember ` set [demo_alert] \<union> mpMember ` set (mVertices (sgSAG (demo_dsg 15)))"
    using subgraph_grows_by_alerts [OF _ _ _ _ _ t] by (simp add: graph_new_def)
  then show ?thesis using t by (simp add: graph_new_def demo_alert_def make_member_ptr_def)
qed

section \<open>Unprotected resets\<close>

lemma touch_stays:
  assumes "bindS (touch c) k s = Inr (x, t)" "\<And>u. orderly 0 (k u)" "dsHeld s = []"
  shows "Touched c [] \<in> set (dsTrace t)"
proof -
  from assms(1) obtain u where "k u (s\<lparr>dsTrace := dsTrace s @ [Touched c (dsHeld s)]\<rparr>) = Inr (x, t)" by auto
  from orderlyD(3) [OF assms(2) this] assms(3) show ?thesis by auto
qed

text \<open>When an investigation stops, the main loop clears the windows of the fault detection and the vertices
  of the subgraph without holding any lock, although the threads of the fault detection and of the
  visualisation run. The visualisation reads the vertices under their mutex, so that mutex does not
  keep the two apart.\<close>

theorem resets_are_unprotected:
  assumes "abort_investigation s = Inr (alerts, t)" "dsHeld s = []"
  shows "Touched MovingWindow [] \<in> set (dsTrace t) \<and> Touched Vertices [] \<in> set (dsTrace t)
    \<and> (sag_visualise v = Inr (edges, v') \<and> mUpdateVisualisation (sgSAG v) \<longrightarrow>
        Touched Vertices (VerticesMutex # dsHeld v) \<in> set (dsTrace v'))"
proof -
  from assms obtain a b c where a: "wl_reset (s\<lparr>sgSomethingIsGoingOn := False\<rparr>) = Inr ((), a)" "fd_reset a = Inr ((), b)"
    "sag_reset b = Inr ((), c)" "getEmittedAlerts c = Inr (alerts, t)"
    unfolding abort_investigation_def by auto
  have h: "dsHeld a = []" "dsHeld b = []" "dsHeld c = []"
  proof -
    show ha: "dsHeld a = []" using orderlyD(1) [OF orderly_watchlist(2) a(1)] assms(2) by simp
    then show hb: "dsHeld b = []" using orderlyD(1) [OF orderly_resets(1) a(2)] by simp
    then show "dsHeld c = []" using orderlyD(1) [OF orderly_resets(2) a(3)] by simp
  qed
  have "Touched MovingWindow [] \<in> set (dsTrace b)"
    by (rule touch_stays [OF a(2) [unfolded fd_reset_def] orderly_clears(1) h(1)])
  moreover have "Touched Vertices [] \<in> set (dsTrace c)"
    by (rule touch_stays [OF a(3) [unfolded sag_reset_def] orderly_clears(2) h(2)])
  moreover have "Touched Vertices (VerticesMutex # dsHeld v) \<in> set (dsTrace v')"
    if "sag_visualise v = Inr (edges, v')" "mUpdateVisualisation (sgSAG v)"
    using that by (auto simp: sag_visualise_def sag_draw_def sag_clear_flag_def elim!: locked_InrE)
  ultimately show ?thesis
    using orderlyD(3) [OF orderly_resets(2) a(3)] orderlyD(3) [OF orderly_getEmittedAlerts a(4)] h by auto
qed

lemma resets_are_unprotected_witness:
  "\<exists>t. abort_investigation (demo_dsg 15) = Inr ([], t) \<and> Touched Vertices [] \<in> set (dsTrace t)"
proof -
  have "\<exists>t. abort_investigation (demo_dsg 15) = Inr ([], t)"
    by (simp add: abort_investigation_def wl_reset_def fd_reset_def sag_reset_def locked_def touch_def bindS_def
      watched_def graph_reset_def graph_new_def getEmittedAlerts_def)
  then obtain t where t: "abort_investigation (demo_dsg 15) = Inr ([], t)" by blast
  then show ?thesis using resets_are_unprotected [OF t] by auto
qed

end
