(* ===== verification/System.thy ===== *)
theory System
  imports Dynamic_Subgraph_Properties
begin

text \<open>
  The whole program: construction from the configuration, the threads taking turns, and \<open>main\<close> of
  \<^verbatim>\<open>src/main.cpp\<close>. A schedule is a list of turns; a turn is one of the steps the loop of a thread is
  made of, or a change of the world outside. The properties hold for every schedule.
\<close>

section \<open>Construction\<close>

text \<open>\<open>connect\<close> is the constructor of the IPC client for a project id. The timeout between attempts is read
  too; waiting is not modelled.\<close>

definition make_data_store :: "'w ipc \<Rightarrow> (int \<Rightarrow> 'w \<Rightarrow> bool \<times> 'w) \<Rightarrow> ('j, 'y) config_json_scheme \<Rightarrow> 'j \<Rightarrow> 'w \<Rightarrow>
    'w data_store result" where
  "make_data_store ipc connect js config w =
     bindR (jsAt js ''ipc'' config) (\<lambda>c.
     bindR (bindR (jsAt js ''project-id'' c) (jsInt js)) (\<lambda>projectId.
     bindR (bindR (jsAt js ''retry-connection'' c) (jsBool js)) (\<lambda>retry.
     bindR (if retry then bindR (jsAt js ''retry-attempts'' c) (jsInt js) else Inr 1) (\<lambda>attempts.
     bindR (if retry then config_size js ''retry-timeout-ms'' c else Inr 0) (\<lambda>_.
     data_store_new ipc (connect projectId) retry attempts w)))))"

definition make_system :: "'w ipc \<Rightarrow> (int \<Rightarrow> 'w \<Rightarrow> bool \<times> 'w) \<Rightarrow> ('j, 'y) config_json_scheme \<Rightarrow> 'j \<Rightarrow> 'w \<Rightarrow>
    'w dynamic_subgraph result" where
  "make_system ipc connect js config w =
     bindR (make_data_store ipc connect js config w) (\<lambda>dataStore. dsg_new ipc js config dataStore)"

section \<open>Turns\<close>

text \<open>The steps of the store's loop are numbered in their order in \<open>run_body\<close>, those of the main loop in
  theirs in \<open>dsg_body\<close>.\<close>

datatype 'w turn = StoreTurn nat | DetectionTurn | MainTurn nat | DrawTurn | Outside "'w \<Rightarrow> 'w"

definition store_steps :: "'w ipc \<Rightarrow> (('w, 'z) data_store_scheme, unit) op list" where
  "store_steps ipc = [sweep_nodes ipc, sweep_topics ipc, update_publishersTo ipc, update_subscribersTo ipc,
     update_isServerFor ipc, update_isClientOf ipc, update_isActionServerFor ipc, update_isActionClientOf ipc,
     update_state ipc, update_publishers ipc, update_subscribers ipc]"

definition main_steps :: "'w ipc \<Rightarrow> 'j json \<Rightarrow> (('w, 'z) dynamic_subgraph_scheme, unit) op list" where
  "main_steps ipc js = [check_blind_spots ipc js, follow_updates ipc, handle_alerts ipc]"

lemma number_of_steps [simp]: "length (store_steps ipc) = 11" "length (main_steps ipc js) = 3"
  by (simp_all add: store_steps_def main_steps_def)

fun take_turn :: "'w ipc \<Rightarrow> 'j json \<Rightarrow> 'w turn \<Rightarrow> (('w, 'z) dynamic_subgraph_scheme, unit) op" where
  "take_turn ipc js (StoreTurn i) = (if i < 11 then store_steps ipc ! i else returnS ())"
| "take_turn ipc js DetectionTurn = fd_body ipc"
| "take_turn ipc js (MainTurn i) = (if i < 3 then main_steps ipc js ! i else returnS ())"
| "take_turn ipc js DrawTurn = bindS sag_visualise (\<lambda>_. returnS ())"
| "take_turn ipc js (Outside f) = world (\<lambda>w. ((), f w))"

definition run_schedule :: "'w ipc \<Rightarrow> 'j json \<Rightarrow> 'w turn list \<Rightarrow> (('w, 'z) dynamic_subgraph_scheme, unit) op" where
  "run_schedule ipc js schedule = seqS (map (take_turn ipc js) schedule)"

lemma run_schedule_append: "run_schedule ipc js (xs @ ys) = bindS (run_schedule ipc js xs) (\<lambda>_. run_schedule ipc js ys)"
  by (simp add: run_schedule_def seqS_append)

lemma run_schedule_one: "run_schedule ipc js [x] s = take_turn ipc js x s"
  by (cases "take_turn ipc js x s") (auto simp: run_schedule_def bindS_def)

lemma run_schedule_Cons: "run_schedule ipc js (x # xs) = bindS (take_turn ipc js x) (\<lambda>_. run_schedule ipc js xs)"
  by (simp add: run_schedule_def)

lemma bodies_are_turns:
  "run_body ipc = seqS (store_steps ipc)" "dsg_body ipc js = seqS (main_steps ipc js)"
  by (simp_all add: run_body_def store_steps_def dsg_body_def main_steps_def)

text \<open>The turns, for proofs about all of them.\<close>

lemma turn_cases:
  assumes "\<And>m. m \<in> set (store_steps ipc) \<Longrightarrow> P m" "P (fd_body ipc)" "\<And>m. m \<in> set (main_steps ipc js) \<Longrightarrow> P m"
    and "P (bindS sag_visualise (\<lambda>_. returnS ()))" "P (returnS ())" "\<And>f. P (world f)"
  shows "P (take_turn ipc js x)"
proof (cases x)
  case (StoreTurn i)
  then show ?thesis using StoreTurn assms(1) [OF nth_mem, of i] assms(5) by simp
next
  case (MainTurn i)
  then show ?thesis using MainTurn assms(3) [OF nth_mem, of i] assms(5) by simp
qed (use assms in simp_all)

lemma schedule_invariant:
  assumes "run_schedule ipc js schedule s = Inr (u, t)" "I s"
    and "\<And>x s t v. I s \<Longrightarrow> take_turn ipc js x s = Inr (v, t) \<Longrightarrow> I t"
  shows "I t"
  using assms(1) unfolding run_schedule_def
  by (rule seqS_invariant [where P = I]) (auto intro: assms(2,3))

section \<open>The order of the locks\<close>

lemma orderly_turn: "orderly 0 (take_turn ipc js x)"
proof (rule turn_cases [where P = "orderly 0"])
  show "orderly 0 m" if "m \<in> set (store_steps ipc)" for m
    using that orderly_run_body [of m ipc] by (simp add: store_steps_def)
  show "orderly 0 m" if "m \<in> set (main_steps ipc js)" for m
    using that by (auto simp: main_steps_def intro: orderly_intros)
qed (intro orderly_intros)+

lemma orderly_schedule: "orderly 0 (run_schedule ipc js schedule)"
  unfolding run_schedule_def by (rule orderly_seqS) (auto intro: orderly_turn)



section \<open>What the store's loop leaves alone\<close>

lemma keeps_sweep:
  "(\<And>it. keeps_more (list_op get put (dll_erase it))) \<Longrightarrow> keeps_more (sweep_list k get put m c ipc it)"
  by (induction k arbitrary: it) (auto intro!: keeps split: prod.split)



lemma keeps_update_list [keeps]: "keeps_more (add_update get b b' it k)"
proof -
  have "keeps_more (\<lambda>s. bindR (deref (get s) it) (\<lambda>e. Inr ((), s\<lparr>dsUpdates := add_connection
      (proxy_of_key (mPrimaryKey (elInstance e)) b) (proxy_of_key k b') (dsUpdates s)\<rparr>)))"
    by (auto simp: keeps_more_iff)
  then show ?thesis unfolding add_update_def by (intro keeps)
qed

lemma keeps_handle:
  "(\<And>it. keeps_more (after it)) \<Longrightarrow> keeps_more (handle_node ipc u after)"
  "(\<And>it. keeps_more (after' it)) \<Longrightarrow> keeps_more (handle_topic ipc u' after')"
  unfolding handle_node_def handle_topic_def by (intro keeps; assumption)+

lemma keeps_message: "(\<And>v. keeps_more (h v)) \<Longrightarrow> keeps_more (on_message r h)"
  unfolding on_message_def by (intro keeps) (auto intro: keeps split: option.split)

lemma keeps_store_step: "m \<in> set (store_steps ipc) \<Longrightarrow> keeps_more m"
proof -
  have "keeps_more (case a of (k, it) \<Rightarrow> sweep_list k stNodes put_nodes NodesMutex NodeList ipc it)" for a
    by (cases a) (auto intro!: keeps_sweep keeps)
  from keeps_apply [OF this, of "\<lambda>s. (Suc (length (dlMem (stNodes s))), mBegin (stNodes s))"]
  have n: "keeps_more (sweep_nodes ipc)" by (simp add: sweep_nodes_def [abs_def])
  have "keeps_more (case a of (k, it) \<Rightarrow> sweep_list k stTopics put_topics TopicsMutex TopicList ipc it)" for a
    by (cases a) (auto intro!: keeps_sweep keeps)
  from keeps_apply [OF this, of "\<lambda>s. (Suc (length (dlMem (stTopics s))), mBegin (stTopics s))"]
  have t: "keeps_more (sweep_topics ipc)" by (simp add: sweep_topics_def [abs_def])
  assume "m \<in> set (store_steps ipc)"
  then show ?thesis using n t
    unfolding store_steps_def update_publishersTo_def update_subscribersTo_def update_isServerFor_def update_isClientOf_def
      update_isActionServerFor_def update_isActionClientOf_def update_state_def update_publishers_def update_subscribers_def
      addSubUpdate_def addSendUpdate_def addPubUpdate_def
    by (auto intro!: keeps_message keeps_handle keeps split: prod.split)
qed

section \<open>Who is watched\<close>

lemma keeps_get_attributes [keeps]: "keeps_more (get_attributes ipc p)"
  by (auto simp: keeps_more_iff get_attributes_def put_nodes_def put_topics_def split: option.splits member_ref.splits)

lemma none_observe [none_added]: "adds_none (observe_member ipc p)"
proof -
  have "adds_none (\<lambda>s. case map_find ptr_less p (fdMovingWindow s) of
       None \<Rightarrow> bindR (createAttrWindow (fdMovingWindowSize s) attributes) (\<lambda>window.
         Inr (snd (ptr_move p),
              s\<lparr>fdMovingWindow := fst (map_emplace ptr_less (fst (ptr_move p)) window (fdMovingWindow s))\<rparr>))
     | Some window \<Rightarrow> bindR (updateAttrWindow window attributes) (\<lambda>window'.
         Inr (p, s\<lparr>fdMovingWindow := map_modify ptr_less p (\<lambda>_. window') (fdMovingWindow s)\<rparr>)))" for attributes
    by (rule none_fields) (auto split: option.splits)
  then show ?thesis unfolding observe_member_def by (intro none_added none_keeps [OF keeps_get_attributes])
qed



lemma none_detect_entry: "adds_none (detect_entry ipc e)"
proof -
  obtain p w where e: "e = (p, w)" by force
  have push: "adds_none (push_alert a)" for a
    unfolding push_alert_def by (intro none_added) simp
  have "adds_none (failS x)" for x by (simp add: adds_none_iff)
  then show ?thesis unfolding e detect_entry_def
    by (auto intro!: none_added push none_keeps [OF keeps_detectFaults] split: list.split prod.split)
qed

lemma none_fd_detect: "adds_none (fd_detect ipc)"
proof -
  have "adds_none (detect_entries ipc es)" for es
    by (induction es) (auto intro!: none_added none_detect_entry)
  then have d: "adds_none (\<lambda>s. detect_entries ipc (fdMovingWindow s) s)" by (rule none_state)
  show ?thesis unfolding fd_detect_def by (intro none_added d) simp_all
qed

lemma fd_body_single: "fd_body ipc s = Inr (u, t) \<Longrightarrow> wl_single s \<Longrightarrow> wl_single t"
proof -
  assume s: "wl_single s" and "fd_body ipc s = Inr (u, t)"
  then obtain ms a where a: "getMembers ipc s = Inr (ms, a)"
    "bindS (mapS (observe_member ipc) ms) (\<lambda>left. bindS (fd_detect ipc) (\<lambda>_. forS left ptr_destroy)) a = Inr (u, t)"
    unfolding fd_body_def by auto
  have "adds_none (bindS (mapS (observe_member ipc) ms) (\<lambda>left. bindS (fd_detect ipc) (\<lambda>_. forS left ptr_destroy)))"
    by (intro none_added none_fd_detect)
  from adds_noneD(3) [OF this _ a(2)] getMembers_single [OF a(1) s] show "wl_single t" by blast
qed

lemma turn_single: "take_turn ipc js x s = Inr (u, t) \<Longrightarrow> wl_single s \<Longrightarrow> wl_single t"
proof -
  have v: "adds_none (bindS sag_visualise (\<lambda>_. returnS ()))"
  proof -
    have d: "adds_none sag_draw" unfolding sag_draw_def by (intro none_added)
    have c: "adds_none sag_clear_flag" by (rule none_fields) (auto simp: sag_clear_flag_def)
    have "adds_none (\<lambda>s. if \<not> mUpdateVisualisation (sgSAG s) then returnS [] s
      else bindS sag_draw (\<lambda>calls. bindS sag_clear_flag (\<lambda>_. returnS calls)) s)"
      by (intro none_added d c)
    then have "adds_none sag_visualise" by (simp add: sag_visualise_def [abs_def] cong: if_cong)
    then show ?thesis by (intro none_added)
  qed
  have "\<forall>s t u. take_turn ipc js x s = Inr (u, t) \<longrightarrow> wl_single s \<longrightarrow> wl_single t"
  proof (rule turn_cases [where P = "\<lambda>m. \<forall>s t u. m s = Inr (u, t) \<longrightarrow> wl_single s \<longrightarrow> wl_single t"])
    show "\<forall>s t u. m s = Inr (u, t) \<longrightarrow> wl_single s \<longrightarrow> wl_single t" if "m \<in> set (store_steps ipc)" for m
      using adds_noneD(3) [OF none_keeps [OF keeps_store_step [OF that]]] by blast
    show "\<forall>s t u. m s = Inr (u, t) \<longrightarrow> wl_single s \<longrightarrow> wl_single t" if "m \<in> set (main_steps ipc js)" for m
      using that adds_noneD(3) [OF none_check_blind_spots] adds_noneD(3) [OF none_follow_updates] adds_noneD(3) [OF none_handle_alerts]
      unfolding main_steps_def by auto
    show "\<forall>s t u. bindS sag_visualise (\<lambda>_. returnS ()) s = Inr (u, t) \<longrightarrow> wl_single s \<longrightarrow> wl_single t"
      by (intro allI impI) (rule adds_noneD(3) [OF v])
    show "\<forall>s t u. world f s = Inr (u, t) \<longrightarrow> wl_single s \<longrightarrow> wl_single t" for f
      by (intro allI impI) (rule adds_noneD(3) [OF none_watchlist(8)])
  qed (use fd_body_single in auto)
  then show "take_turn ipc js x s = Inr (u, t) \<Longrightarrow> wl_single s \<Longrightarrow> wl_single t" by blast
qed

text \<open>What construction leaves behind.\<close>

lemma dsg_new_fields:
  assumes "dsg_new ipc js config ds = Inr s"
  shows "wlMembers s = []" "fdMovingWindow s = []" "fdAlerts s = []" "sgSAG s = graph_new" "has_seen [] s"
    and "\<exists>wl. jsAt js ''initial-watchlist-members'' config = Inr wl \<and> initial_names js wl = Inr (wlInitialMemberNames s)"
    and "\<exists>rate. jsAt js ''alert-rate'' config = Inr rate
      \<and> config_real js ''abortion-criteria-threshold'' rate = Inr (sgAbortionCriteriaThreshold s)"
proof -
  from assms obtain wl names n rate nr buf lti bi th cpu source fd where
    a: "jsAt js ''initial-watchlist-members'' config = Inr wl" "initial_names js wl = Inr names"
      "jsAt js ''alert-rate'' config = Inr rate" "cb_new nr = Inr buf"
      "config_real js ''abortion-criteria-threshold'' rate = Inr th"
    and b: "getCpuUtilisationMemory ipc (fd_new n (data_store.extend ds \<lparr>wlInitialMemberNames = names, wlMembers = []\<rparr>)) = Inr (source, fd)"
    and s: "s = fault_detection.extend fd \<lparr>sgSAG = graph_new, sgCpuUtilisationSource = source,
       sgSomethingIsGoingOn = False, sgLastNrAlerts = buf, sgBlindSpotCheckCounter = 0,
       sgLoopTargetInterval = lti, sgBlindspotInterval = bi,
       sgAbortionCriteriaThreshold = th, sgMaximumCpuUtilisation = cpu\<rparr>"
    unfolding dsg_new_def wl_new_def by auto
  have k: "keeps_more (getCpuUtilisationMemory ipc)" unfolding getCpuUtilisationMemory_def by (intro keeps)
  have m: "data_store.more fd = data_store.more (fd_new n (data_store.extend ds \<lparr>wlInitialMemberNames = names, wlMembers = []\<rparr>))"
    by (rule conjunct1 [OF keeps_moreD [OF k]]) (rule b)
  note f = more_watchlist(1,2) [OF m] more_alerts(1,2) [OF more_watchlist(3) [OF m]]
  note f = f [unfolded fd_new_def data_store.defs watchlist.defs, simplified]
  show "wlMembers s = []" "fdMovingWindow s = []" "fdAlerts s = []" "sgSAG s = graph_new"
    using f s by (simp_all add: fault_detection.defs)
  show "has_seen [] s" using s cb_new_wf [OF a(4)] by (simp add: has_seen_def over_def fault_detection.defs)
  show "\<exists>wl. jsAt js ''initial-watchlist-members'' config = Inr wl \<and> initial_names js wl = Inr (wlInitialMemberNames s)"
    using a(1,2) f(2) s by (auto simp: fault_detection.defs)
  show "\<exists>rate. jsAt js ''alert-rate'' config = Inr rate
      \<and> config_real js ''abortion-criteria-threshold'' rate = Inr (sgAbortionCriteriaThreshold s)"
    using a(3,5) s by (auto simp: fault_detection.defs)
qed

text \<open>C1: However the program is configured and however its threads take turns, never more than one member is
  watched at a time, and it is one of the configured ones: blind spots and neighbours of
  members with alerts never are.\<close>

theorem system_watches_at_most_one:
  assumes "make_system ipc connect js config w = Inr s" "run_schedule ipc js' schedule s = Inr ((), t)"
  shows "length (wlMembers t) \<le> 1 \<and> (\<forall>(p, type)\<in>set (wlMembers t). ptr_valid p \<and> type = TYPE_INITIAL)"
proof -
  from assms(1) obtain ds where "dsg_new ipc js config ds = Inr s" by (auto simp: make_system_def)
  from dsg_new_fields(1) [OF this] have "wl_single s" by (simp add: wl_single_def)
  then have "wl_single t" using schedule_invariant [OF assms(2), of wl_single] turn_single by blast
  then show ?thesis by (auto simp: wl_single_def)
qed

text \<open>A configuration: its numbers and flags are all read alike, only the initial members matter here.\<close>

definition demo_config_js :: "demo_json config_json" where
  "demo_config_js = json.extend demo_js \<lparr>jsSize = (\<lambda>_. Inr 10), jsReal = (\<lambda>_. Inr (1 / 20)), jsInt = (\<lambda>_. Inr 5),
     jsBool = (\<lambda>_. Inr True)\<rparr>"

definition demo_config :: demo_json where
  "demo_config = (let v = DString ''x'' in DObject [(''initial-watchlist-members'', DNull), (''moving-window-size'', v),
     (''alert-rate'', DObject [(''nr-normalisation-values'', v), (''abortion-criteria-threshold'', v)]),
     (''target-frequency'', v), (''blindspot-interval'', v), (''blindspot-cpu-threshold'', v),
     (''ipc'', DObject [(''project-id'', v), (''retry-connection'', v), (''retry-attempts'', v), (''retry-timeout-ms'', v)])])"

lemma demo_system: "\<exists>s. make_system demo_ipc (\<lambda>_ w. (True, w)) demo_config_js demo_config peer_init = Inr s"
  by (simp add: make_system_def make_data_store_def demo_config_js_def demo_config_def json.defs demo_js_def
    config_size_def config_real_def data_store_new_def tryMakeIpcClient_def connect_loop.simps demo_sub_def Let_def
    await_topic_key.simps demo_ipc_def peer_send_def c_str_def or_diverges_def dsg_new_def wl_new_def initial_names_def
    cb_new_def target_interval_def getCpuUtilisationMemory_def world_def receive_value_def bindS_def)

lemma demo_run:
  assumes "make_system demo_ipc (\<lambda>_ w. (True, w)) demo_config_js demo_config peer_init = Inr s"
  shows "\<exists>t. run_schedule demo_ipc demo_js [DrawTurn, Outside id] s = Inr ((), t)"
proof -
  from assms obtain ds where "dsg_new demo_ipc demo_config_js demo_config ds = Inr s" by (auto simp: make_system_def)
  from dsg_new_fields(4) [OF this] show ?thesis
    by (simp add: run_schedule_def bindS_def sag_visualise_def graph_new_def world_def)
qed

text \<open>A configuration with one initial member, and a run in which the fault detection takes a turn.\<close>

definition demo_watching_js :: "demo_json config_json" where
  "demo_watching_js = demo_config_js\<lparr>jsStrings := (\<lambda>_. Inr [''n''])\<rparr>"

definition demo_watching :: demo_json where
  "demo_watching = (let v = DString ''x'' in DObject [(''initial-watchlist-members'', DArray [DString ''n'']), (''moving-window-size'', v),
     (''alert-rate'', DObject [(''nr-normalisation-values'', v), (''abortion-criteria-threshold'', v)]),
     (''target-frequency'', v), (''blindspot-interval'', v), (''blindspot-cpu-threshold'', v),
     (''ipc'', DObject [(''project-id'', v), (''retry-connection'', v), (''retry-attempts'', v), (''retry-timeout-ms'', v)])])"

lemma demo_started:
  "\<exists>s. make_system demo_ipc (\<lambda>_ w. (True, w)) demo_watching_js demo_watching peer_init = Inr s
    \<and> stNodes s = dll_new \<and> stTopics s = dll_new \<and> dsHeld s = [] \<and> wlMembers s = [] \<and> wlInitialMemberNames s = [''n'']
    \<and> fdMovingWindow s = [] \<and> fdMovingWindowSize s = 10 \<and> sgSAG s = graph_new"
  by (simp add: make_system_def make_data_store_def demo_watching_js_def demo_config_js_def demo_watching_def json.defs
    demo_js_def config_size_def config_real_def data_store_new_def tryMakeIpcClient_def connect_loop.simps demo_sub_def
    Let_def await_topic_key.simps demo_ipc_def peer_send_def c_str_def or_diverges_def dsg_new_def wl_new_def
    initial_names_def cb_new_def target_interval_def getCpuUtilisationMemory_def world_def receive_value_def bindS_def
    fault_detection.defs data_store.defs watchlist.defs fd_new_def)

lemma demo_detection:
  fixes s :: "peer dynamic_subgraph"
  assumes "stNodes s = dll_new" "stTopics s = dll_new" "dsHeld s = []" "wlMembers s = []"
    and "wlInitialMemberNames s = [''n'']" "fdMovingWindow s = []" "fdMovingWindowSize s = 10"
  shows "\<exists>t. fd_body demo_ipc s = Inr ((), t) \<and> wlMembers t = [(make_member_ptr (NodeRef 0), TYPE_INITIAL)]
    \<and> length (fdMovingWindow t) = 1 \<and> ptr_isTopic (make_member_ptr (NodeRef 0)) t = Inr False \<and> sgSAG t = sgSAG s"
  using assms
  by (simp add: getMembers_def locked_def touch_def bindS_def tryInitialise_def getNodeByName_def node_findName_def
    find_where_def dll_new_def getsR_def search_key_def world_def demo_ipc_def peer_send_def receive_value_def c_str_def
    requestNode_def list_op_def node_emplace_back_def emplace_back_def mk_element_def Let_def request_cpu_def deref_def
    cell_def add_source_def put_nodes_def addAttributeSource_def on_instance_def modify_def demo_response_def
    node_of_response_def emplace_member_def make_member_ptr_def ptr_copy_def counter_at_def watched_def set_cell_def
    ptr_valid_def fd_body_def observe_member_def get_attributes_def getAttributes_def createAttrWindow_def
    create_entry_def cb_new_def cb_push_def cb_move_def ptr_move_def fd_detect_def detect_entry_def cb_full_def
    ptr_destroy_def ptr_isTopic_def)

lemma demo_watching_run:
  obtains s t where "make_system demo_ipc (\<lambda>_ w. (True, w)) demo_watching_js demo_watching peer_init = Inr s"
    and "run_schedule demo_ipc demo_js [DetectionTurn, DrawTurn] s = Inr ((), t)"
    and "length (wlMembers t) = 1" "ptr_isTopic (make_member_ptr (NodeRef 0)) t = Inr False"
proof -
  from demo_started obtain s where
    s: "make_system demo_ipc (\<lambda>_ w. (True, w)) demo_watching_js demo_watching peer_init = Inr s"
      "stNodes s = dll_new" "stTopics s = dll_new" "dsHeld s = []" "wlMembers s = []"
      "wlInitialMemberNames s = [''n'']" "fdMovingWindow s = []" "fdMovingWindowSize s = 10" "sgSAG s = graph_new"
    by blast
  from demo_detection [OF s(2-8)] obtain t where
    t: "fd_body demo_ipc s = Inr ((), t)" "length (wlMembers t) = 1"
      "ptr_isTopic (make_member_ptr (NodeRef 0)) t = Inr False" "sgSAG t = graph_new"
    using s(9) by auto
  from t(1,4) have "run_schedule demo_ipc demo_js [DetectionTurn, DrawTurn] s = Inr ((), t)"
    by (simp add: run_schedule_def bindS_def sag_visualise_def graph_new_def)
  then show ?thesis using that s(1) t(2,3) by blast
qed

lemma system_watches_at_most_one_witness:
  "\<exists>s t p type. make_system demo_ipc (\<lambda>_ w. (True, w)) demo_watching_js demo_watching peer_init = Inr s
    \<and> run_schedule demo_ipc demo_js [DetectionTurn, DrawTurn] s = Inr ((), t)
    \<and> wlMembers t = [(p, type)] \<and> ptr_valid p \<and> type = TYPE_INITIAL"
proof -
  obtain s t where st: "make_system demo_ipc (\<lambda>_ w. (True, w)) demo_watching_js demo_watching peer_init = Inr s"
    "run_schedule demo_ipc demo_js [DetectionTurn, DrawTurn] s = Inr ((), t)" "length (wlMembers t) = 1"
    by (rule demo_watching_run)
  from st(3) obtain p type where "wlMembers t = [(p, type)]" by (cases "wlMembers t") auto
  then show ?thesis using system_watches_at_most_one [OF st(1,2)] st(1,2) by auto
qed

section \<open>Without initial members\<close>

text \<open>Nothing is watched, sampled, alerted or drawn, and the numbers of alerts counted so far do not call for
  an investigation.\<close>

definition idle :: "('w, 'z) dynamic_subgraph_scheme \<Rightarrow> bool" where
  "idle s \<longleftrightarrow> wlMembers s = [] \<and> wlInitialMemberNames s = [] \<and> fdMovingWindow s = [] \<and> fdAlerts s = []
     \<and> mVertices (sgSAG s) = [] \<and> (\<exists>ns. has_seen ns s \<and> \<not> over (sgAbortionCriteriaThreshold s) ns) \<and> 0 \<le> sgAbortionCriteriaThreshold s"

lemma idle_beyond:
  assumes "watchlist.more t = watchlist.more s" "wlMembers t = wlMembers s" "wlInitialMemberNames t = wlInitialMemberNames s"
  shows "idle t = idle s"
  using assms(2,3) more_alerts [OF assms(1)] more_subgraph [OF assms(1)] by (simp add: idle_def has_seen_def)

lemma idle_keeps: "keeps_more m \<Longrightarrow> m s = Inr (x, t) \<Longrightarrow> idle s \<Longrightarrow> idle t"
  using keeps_wl_same [of m s x t] idle_beyond [of t s] by (simp add: wl_same_def)

lemma idle_added:
  assumes "adds_none m" "keeps_beyond m" "m s = Inr (x, t)" "idle s"
  shows "idle t"
proof -
  have "wl_single s" using assms(4) by (simp add: idle_def wl_single_def)
  from adds_noneD(1,2) [OF assms(1) this assms(3)] assms(4)
  have "wlMembers t = wlMembers s" "wlInitialMemberNames t = wlInitialMemberNames s" by (auto simp: idle_def)
  from idle_beyond [OF keeps_beyondD [OF assms(2,3)] this] assms(4) show ?thesis by simp
qed

lemma idle_frame [simp]:
  "idle (s\<lparr>dsTrace := tr\<rparr>) = idle s" "idle (s\<lparr>dsHeld := h\<rparr>) = idle s" "idle (s\<lparr>sgBlindSpotCheckCounter := c\<rparr>) = idle s"
  by (simp_all add: idle_def has_seen_def)

lemma not_over_none [simp]: "\<not> over th []"
  by (simp add: over_def)

lemma quiet_round:
  assumes "\<not> over th ns" "0 \<le> th"
  shows "\<not> over th (ns @ [0])"
proof (cases "ns = []")
  case False
  then have "sum_list (map real ns) \<le> th * length ns"
    using assms(1) by (simp add: over_def mean_of_def divide_le_eq not_less)
  also have "\<dots> \<le> th * Suc (length ns)" using assms(2) by (simp add: mult_left_mono)
  finally show ?thesis by (simp add: over_def mean_of_def divide_le_eq not_less)
qed (use assms in \<open>simp add: over_def mean_of_def\<close>)

lemma idle_detection: "fd_body ipc s = Inr (u, t) \<Longrightarrow> idle s \<Longrightarrow> idle t"
proof -
  assume i: "idle s" and "fd_body ipc s = Inr (u, t)"
  then obtain ms a left b where a: "getMembers ipc s = Inr (ms, a)" "mapS (observe_member ipc) ms a = Inr (left, b)"
    "bindS (fd_detect ipc) (\<lambda>_. forS left ptr_destroy) b = Inr (u, t)" unfolding fd_body_def by auto
  have e: "wlMembers s = []" "wlInitialMemberNames s = []" "fdMovingWindow s = []" using i by (simp_all add: idle_def)
  from a(1) e have "ms = [] \<and> a = s\<lparr>dsTrace := dsTrace a\<rparr>"
    unfolding getMembers_def by (auto simp: tryInitialise_def watched_def elim!: locked_InrE)
  then obtain tr where ms: "ms = []" and as: "a = s\<lparr>dsTrace := tr\<rparr>" by metis
  have "left = []" "b = a" using a(2) ms by simp_all
  with a(3) as e(3) have "t = s\<lparr>dsTrace := dsTrace t, fdMovingWindow := []\<rparr>"
    by (auto simp: fd_detect_def)
  then obtain tr' where "t = s\<lparr>dsTrace := tr', fdMovingWindow := []\<rparr>" by metis
  then show "idle t" using i by (simp add: idle_def has_seen_def)
qed

lemma idle_alerts: "handle_alerts ipc s = Inr (u, t) \<Longrightarrow> idle s \<Longrightarrow> idle t"
proof -
  assume i: "idle s" and "handle_alerts ipc s = Inr (u, t)"
  then obtain em a b abort c ls d where a: "getEmittedAlerts s = Inr (em, a)"
    and b: "(if em = [] then returnS () else expandSubgraph ipc em) a = Inr ((), b)"
    and c: "checkAbortCirteria em b = Inr (abort, c)"
    and d: "(if abort then abort_investigation else returnS []) c = Inr (ls, d)"
    and t: "forS (map alMember (em @ ls)) ptr_destroy d = Inr (u, t)"
    unfolding handle_alerts_def by auto
  have "em = [] \<and> a = s\<lparr>dsTrace := dsTrace a, fdAlerts := []\<rparr>"
    using a i unfolding getEmittedAlerts_def by (auto simp: idle_def elim!: locked_InrE)
  then obtain tr where em: "em = []" and "a = s\<lparr>dsTrace := tr, fdAlerts := []\<rparr>" by metis
  then have ia: "idle a" using i by (simp add: idle_def has_seen_def)
  have ba: "b = a" using b em by simp
  obtain ns where k: "has_seen ns a" "\<not> over (sgAbortionCriteriaThreshold a) ns" "0 \<le> sgAbortionCriteriaThreshold a"
    using ia by (auto simp: idle_def)
  from abort_round_spec [OF k(1) refl, of "[]"] k(2) obtain v where
    v: "abort_round [] a = Inr (False, v)" "has_seen (ns @ [0]) v"
      "sgAbortionCriteriaThreshold v = sgAbortionCriteriaThreshold a" by auto
  have cv: "\<not> abort" "c = v" using v(1) c em ba by (auto simp: abort_round_def bindS_def)
  have "\<exists>ns. has_seen ns c \<and> \<not> over (sgAbortionCriteriaThreshold c) ns"
    using v(2,3) cv(2) quiet_round [OF k(2,3)] by metis
  moreover have "c = a\<lparr>sgLastNrAlerts := sgLastNrAlerts c, sgSomethingIsGoingOn := sgSomethingIsGoingOn c\<rparr>"
    using c em ba by (auto simp: checkAbortCirteria_def Let_def split: if_splits)
  then have "wlMembers c = [] \<and> wlInitialMemberNames c = [] \<and> fdMovingWindow c = [] \<and> fdAlerts c = []
     \<and> mVertices (sgSAG c) = [] \<and> 0 \<le> sgAbortionCriteriaThreshold c"
  proof -
    assume eq: "c = a\<lparr>sgLastNrAlerts := sgLastNrAlerts c, sgSomethingIsGoingOn := sgSomethingIsGoingOn c\<rparr>"
    show ?thesis by (subst (1 2 3 4 5 6) eq) (use ia in \<open>simp add: idle_def\<close>)
  qed
  ultimately have "idle c" by (simp add: idle_def)
  then show "idle t" using d t em cv(1) by simp
qed

lemma idle_visualise: "sag_visualise s = Inr (es, t) \<Longrightarrow> idle s \<Longrightarrow> idle t"
  by (auto simp: sag_visualise_def idle_def has_seen_def sag_draw_def sag_clear_flag_def elim!: locked_InrE split: if_splits)

lemma idle_turn: "take_turn ipc js x s = Inr (u, t) \<Longrightarrow> idle s \<Longrightarrow> idle t"
proof -
  have "\<forall>s t u. take_turn ipc js x s = Inr (u, t) \<longrightarrow> idle s \<longrightarrow> idle t"
  proof (rule turn_cases [where P = "\<lambda>m. \<forall>s t u. m s = Inr (u, t) \<longrightarrow> idle s \<longrightarrow> idle t"])
    show "\<forall>s t u. m s = Inr (u, t) \<longrightarrow> idle s \<longrightarrow> idle t" if "m \<in> set (store_steps ipc)" for m
      by (intro allI impI) (rule idle_keeps [OF keeps_store_step [OF that]])
    have b: "keeps_beyond (follow_updates ipc)"
      unfolding follow_updates_def sag_contains_def offer_connection_def
      by (intro beyond beyond_keeps [OF keeps_getUpdates])
    have c: "idle t" if c: "check_blind_spots ipc js s = Inr (u, t)" and i: "idle s" for s t u
    proof -
      from c obtain l a b where a: "cpu_utilisation ipc s = Inr (l, a)"
        "(if sgBlindSpotCheckCounter a = 0 \<and> l < sgMaximumCpuUtilisation a then blindSpotCheck ipc js a else Inr ((), a)) = Inr ((), b)"
        "advance_counter b = Inr (u, t)" unfolding check_blind_spots_def by auto
      have "watchlist.more b = watchlist.more s"
        using a(2) keeps_beyondD [OF beyond_blindSpotCheck, of ipc js a "()" b] cpu_utilisation_keeps [OF a(1)]
        by (auto split: if_splits)
      moreover have "wlMembers t = wlMembers s" "wlInitialMemberNames t = wlInitialMemberNames s"
        using adds_noneD(1,2) [OF none_check_blind_spots _ c] i by (auto simp: idle_def wl_single_def)
      moreover obtain n where "t = b\<lparr>sgBlindSpotCheckCounter := n\<rparr>"
        using a(3) by (auto simp: advance_counter_def split: if_splits)
      then have "wlMembers t = wlMembers b" "wlInitialMemberNames t = wlInitialMemberNames b" "idle t = idle b"
        by simp_all
      ultimately show "idle t" using idle_beyond [of b s] i by simp
    qed
    show "\<forall>s t u. m s = Inr (u, t) \<longrightarrow> idle s \<longrightarrow> idle t" if "m \<in> set (main_steps ipc js)" for m
      using that c idle_added [OF none_follow_updates b] idle_alerts unfolding main_steps_def by auto
    show "\<forall>s t u. world f s = Inr (u, t) \<longrightarrow> idle s \<longrightarrow> idle t" for f
      by (intro allI impI) (rule idle_keeps [OF keeps_basic(2)])
    show "\<forall>s t u. bindS sag_visualise (\<lambda>_. returnS ()) s = Inr (u, t) \<longrightarrow> idle s \<longrightarrow> idle t"
      by (auto dest!: idle_visualise)
  qed (use idle_detection in auto)
  then show "take_turn ipc js x s = Inr (u, t) \<Longrightarrow> idle s \<Longrightarrow> idle t" by blast
qed



end
