(* ===== verification/Store_Relation.thy ===== *)
theory Store_Relation
  imports System
begin

text \<open>
  Relations between the store before and after, whatever the program does in between. The program changes the
  two lists in few ways: it adds an element, frees one, and changes a living one, whose flag stays and
  whose attributes are never removed. The locale \<open>cell_relation\<close> is the contract of a relation between
  lists that each of these keeps; \<open>store_relation\<close> puts one for each list together, and shows
  that every turn of every thread keeps the pair.
\<close>

section \<open>The contract\<close>

definition attr_names :: "'m member_scheme \<Rightarrow> string set" where
  "attr_names m = atName ` set (mmAttributes m)"

definition grows :: "'m member_scheme \<Rightarrow> 'm member_scheme \<Rightarrow> bool" where
  "grows x y \<longleftrightarrow> mIsTopic y = mIsTopic x \<and> attr_names x \<subseteq> attr_names y"

lemma grows_refl [simp]: "grows x x"
  by (simp add: grows_def)

lemma grows_trans: "grows x y \<Longrightarrow> grows y z \<Longrightarrow> grows x z"
  by (auto simp: grows_def)

lemma grows_apply [simp]: "grows n (node_apply ipc u n)" "grows t (topic_apply u' t)"
proof -
  show "grows n (node_apply ipc u n)" by (cases u) (simp_all add: member_defs Let_def grows_def attr_names_def)
  show "grows t (topic_apply u' t)"
    by (cases u') (simp_all add: topic_publishers_def topic_subscribers_def grows_def attr_names_def)
qed

lemma grows_source: "addAttributeSource ipc n r m w = Inr (m', w') \<Longrightarrow> grows m m'"
  by (auto simp: addAttributeSource_def Let_def grows_def attr_names_def split: prod.splits)

lemma grows_poll: "getAttributes ipc m w = Inr (out, m', w') \<Longrightarrow> grows m m'"
proof -
  assume g: "getAttributes ipc m w = Inr (out, m', w')"
  have "map atName (map (atLastValue_update (\<lambda>_. 0)) as) = map atName as" for as :: "attribute list"
    by (simp add: comp_def)
  then have "map atName (mmAttributes m') = map atName (mmAttributes m)"
    using getAttributes_values [OF g] unfolding attr_ids_def by metis
  then have "attr_names m' = attr_names m" by (metis attr_names_def set_map)
  then show "grows m m'" using g by (auto simp: grows_def getAttributes_def)
qed

locale cell_relation =
  fixes flag :: bool and R :: "'m member_scheme dll \<Rightarrow> 'm member_scheme dll \<Rightarrow> bool"
  assumes refl: "R d d"
    and trans: "R d d1 \<Longrightarrow> R d1 d2 \<Longrightarrow> R d d2"
    and change: "modify p f d = Inr d' \<Longrightarrow> (\<And>e. deref d p = Inr e \<Longrightarrow> grows (elInstance e) (elInstance (f e))) \<Longrightarrow> R d d'"
    and new: "mIsTopic (elInstance e) = flag \<Longrightarrow> R d (d\<lparr>dlMem := dlMem d @ [Some e]\<rparr>)"
    and free: "R d (set_cell a None d)"
    and ends: "R d (d\<lparr>mBegin := q\<rparr>)" "R d (d\<lparr>mEnd := q\<rparr>)"
begin

lemma relink: "modify p f d = Inr d' \<Longrightarrow> (\<And>e. elInstance (f e) = elInstance e) \<Longrightarrow> R d d'"
  by (erule change) simp

lemma emplace:
  assumes "emplace_back x rid d = Inr (it, d')" "mIsTopic x = flag"
  shows "R d d'"
proof -
  let ?d1 = "d\<lparr>dlMem := dlMem d @ [Some (mk_element (mEnd d) None x rid)]\<rparr>"
  from assms(1) obtain d2 where d2: "(case mEnd ?d1 of Some _ \<Rightarrow> modify (mEnd ?d1) (\<lambda>e. e\<lparr>elNext := Some (length (dlMem d))\<rparr>) ?d1
      | None \<Rightarrow> Inr (?d1\<lparr>mBegin := Some (length (dlMem d))\<rparr>)) = Inr d2" "\<exists>q. d' = d2\<lparr>mEnd := q\<rparr>"
    by (auto simp: emplace_back_def Let_def)
  have "R d ?d1" by (rule new) (simp add: assms(2) mk_element_def)
  moreover have "R ?d1 d2" using d2(1) by (cases "mEnd d") (auto intro: ends dest!: relink)
  moreover have "R d2 d'" using d2(2) ends by blast
  ultimately show ?thesis using trans by blast
qed

lemma erase:
  assumes "dll_erase it d = Inr (it', d')"
  shows "R d d'"
proof -
  obtain e where e: "deref d it = Inr e" using assms by (auto simp: dll_erase_def)
  from assms obtain d1 d2 where d:
    "(case elPrev e of Some _ \<Rightarrow> modify (elPrev e) (\<lambda>x. x\<lparr>elNext := elNext e\<rparr>) d | None \<Rightarrow> Inr d) = Inr d1"
    "(case elNext e of Some _ \<Rightarrow> modify (elNext e) (\<lambda>x. x\<lparr>elPrev := elPrev e\<rparr>) d1 | None \<Rightarrow> Inr d1) = Inr d2"
    "d' = set_cell (the it) None d2"
    by (auto simp: dll_erase_def Let_def e)
  have "R d d1" using d(1) by (cases "elPrev e") (auto intro: refl dest!: relink)
  moreover have "R d1 d2" using d(2) by (cases "elNext e") (auto intro: refl dest!: relink)
  moreover have "R d2 d'" unfolding d(3) by (rule free)
  ultimately show ?thesis using trans by blast
qed

lemma object:
  "on_instance it f d = Inr (u, d') \<Longrightarrow> (\<And>e. deref d it = Inr e \<Longrightarrow> grows (elInstance e) (f (elInstance e))) \<Longrightarrow> R d d'"
  unfolding on_instance_def by (auto elim!: change)

lemma count: "modify p (\<lambda>e. e\<lparr>elUseCounter := f (elUseCounter e)\<rparr>) d = Inr d' \<Longrightarrow> R d d'"
  by (erule relink) simp

end

section \<open>The two lists\<close>

definition store_related :: "(node dll \<Rightarrow> node dll \<Rightarrow> bool) \<Rightarrow> (topic dll \<Rightarrow> topic dll \<Rightarrow> bool) \<Rightarrow>
    'z store_scheme \<Rightarrow> 'z store_scheme \<Rightarrow> bool" where
  "store_related RN RT s t \<longleftrightarrow> RN (stNodes s) (stNodes t) \<and> RT (stTopics s) (stTopics t)"

named_theorems related \<open>operations that keep the relation between stores\<close>

locale store_relation = nodes: cell_relation False RN + topics: cell_relation True RT
  for RN :: "node dll \<Rightarrow> node dll \<Rightarrow> bool" and RT :: "topic dll \<Rightarrow> topic dll \<Rightarrow> bool"
begin

lemma related_frame: "frame (store_related RN RT)"
  by unfold_locales (auto simp: store_related_def intro: nodes.refl topics.refl nodes.trans topics.trans)

lemmas related_rules [related] = frame.rules [OF related_frame]

lemma relatedI:
  "(\<And>s x t. m s = Inr (x, t) \<Longrightarrow> RN (stNodes s) (stNodes t) \<and> RT (stTopics s) (stTopics t)) \<Longrightarrow> obeys (store_related RN RT) m"
  by (simp add: obeys_def store_related_def)

lemma relatedD: "obeys (store_related RN RT) m \<Longrightarrow> m s = Inr (x, t) \<Longrightarrow> store_related RN RT s t"
  unfolding obeys_def by blast

lemma related_same:
  "(\<And>s x t. m s = Inr (x, t) \<Longrightarrow> stNodes t = stNodes s \<and> stTopics t = stTopics s) \<Longrightarrow> obeys (store_related RN RT) m"
  by (rule relatedI) (metis nodes.refl topics.refl)

lemma related_basic [related]: "obeys (store_related RN RT) (touch c)" "obeys (store_related RN RT) (world g)"
  "obeys (store_related RN RT) (receive_value h)"
  by (auto intro!: related_same simp: world_def split: prod.splits)

lemma related_locked [related]:
  assumes "obeys (store_related RN RT) m"
  shows "obeys (store_related RN RT) (locked x m)"
proof (rule obeysI)
  fix s y t
  assume "locked x m s = Inr (y, t)"
  then obtain t1 where "m (s\<lparr>dsTrace := dsTrace s @ [Locked x (dsHeld s)], dsHeld := x # dsHeld s\<rparr>) = Inr (y, t1)"
    "t = t1\<lparr>dsHeld := remove1 x (dsHeld t1)\<rparr>" by (rule locked_InrE)
  with relatedD [OF assms] show "store_related RN RT s t" by (fastforce simp: store_related_def)
qed

lemma related_update [related]:
  "(\<And>s. stNodes (f s) = stNodes s \<and> stTopics (f s) = stTopics s) \<Longrightarrow> obeys (store_related RN RT) (\<lambda>s. Inr (x s, f s))"
  by (rule related_same) auto

lemma related_node_op:
  "(\<And>d x d'. f d = Inr (x, d') \<Longrightarrow> RN d d') \<Longrightarrow> obeys (store_related RN RT) (list_op stNodes put_nodes f)"
  by (auto intro!: relatedI topics.refl simp: list_op_Inr put_nodes_def)

lemma related_topic_op:
  "(\<And>d x d'. f d = Inr (x, d') \<Longrightarrow> RT d d') \<Longrightarrow> obeys (store_related RN RT) (list_op stTopics put_topics f)"
  by (auto intro!: relatedI nodes.refl simp: list_op_Inr put_topics_def)

lemma related_list_ops [related]:
  "obeys (store_related RN RT) (list_op stNodes put_nodes (node_emplace_back ipc r rid))"
  "obeys (store_related RN RT) (list_op stTopics put_topics (topic_emplace_back ipc r' rid))"
  "obeys (store_related RN RT) (list_op stNodes put_nodes (dll_erase it))"
  "obeys (store_related RN RT) (list_op stTopics put_topics (dll_erase it))"
  "obeys (store_related RN RT) (list_op stNodes put_nodes (on_instance it (node_apply ipc u)))"
  "obeys (store_related RN RT) (list_op stTopics put_topics (on_instance it (topic_apply u')))"
  by (auto intro!: related_node_op related_topic_op dest: nodes.erase topics.erase
      simp: node_emplace_back_def topic_emplace_back_def node_of_response_def topic_of_response_def
      elim!: nodes.emplace topics.emplace nodes.object topics.object)

lemma related_add_source [related]:
  "obeys (store_related RN RT) (add_source ipc stNodes put_nodes it r)"
  "obeys (store_related RN RT) (add_source ipc stTopics put_topics it r)"
  by (rule relatedI, auto simp: add_source_def put_nodes_def put_topics_def deref_Inr
      intro: nodes.refl topics.refl elim!: nodes.object topics.object, rule grows_source, assumption)+

lemma related_ptr [related]: "obeys (store_related RN RT) (ptr_copy p)" "obeys (store_related RN RT) (ptr_destroy p)"
  "obeys (store_related RN RT) (ptr_assign p q)"
proof -
  have c: "obeys (store_related RN RT) (counter_at f p)" for f p
    by (rule relatedI) (auto simp: counter_at_def split: option.splits member_ref.splits
        intro: nodes.refl topics.refl dest: nodes.count topics.count)
  show "obeys (store_related RN RT) (ptr_copy p)" "obeys (store_related RN RT) (ptr_destroy p)"
    "obeys (store_related RN RT) (ptr_assign p q)"
    unfolding ptr_copy_def [abs_def] ptr_destroy_def [abs_def] ptr_assign_def [abs_def] by (auto intro!: related c)
qed

lemma related_lookups [related]:
  "obeys (store_related RN RT) (requestNode ipc k u)" "obeys (store_related RN RT) (requestTopic ipc k u)" "obeys (store_related RN RT) (ds_get ipc q)"
  "obeys (store_related RN RT) (getNodeByName ipc k)"
  unfolding requestNode_def requestTopic_def request_cpu_def ds_get_def getNode_def getTopic_def getNodeByName_def search_key_def
  by (intro related)+

lemma related_sweep:
  "(\<And>it. obeys (store_related RN RT) (list_op get put (dll_erase it))) \<Longrightarrow> obeys (store_related RN RT) (sweep_list k get put m c ipc it)"
  by (induction k arbitrary: it) (auto intro!: related split: prod.split)

lemma related_update_list [related]: "obeys (store_related RN RT) (add_update get b b' it k)"
proof -
  have "obeys (store_related RN RT) (\<lambda>s. bindR (deref (get s) it) (\<lambda>e. Inr ((), s\<lparr>dsUpdates := add_connection
      (proxy_of_key (mPrimaryKey (elInstance e)) b) (proxy_of_key k b') (dsUpdates s)\<rparr>)))"
    by (rule related_same) auto
  then show ?thesis unfolding add_update_def by (intro related)
qed

lemma related_handle:
  "(\<And>it. obeys (store_related RN RT) (after it)) \<Longrightarrow> obeys (store_related RN RT) (handle_node ipc u after)"
  "(\<And>it. obeys (store_related RN RT) (after' it)) \<Longrightarrow> obeys (store_related RN RT) (handle_topic ipc u' after')"
  unfolding handle_node_def handle_topic_def by (intro related; assumption)+

lemma related_message: "(\<And>v. obeys (store_related RN RT) (h v)) \<Longrightarrow> obeys (store_related RN RT) (on_message r h)"
  unfolding on_message_def by (intro related) (auto intro: related split: option.split)

lemma related_store_step: "m \<in> set (store_steps ipc) \<Longrightarrow> obeys (store_related RN RT) m"
proof -
  have "obeys (store_related RN RT) (case a of (k, it) \<Rightarrow> sweep_list k stNodes put_nodes NodesMutex NodeList ipc it)" for a
    by (cases a) (auto intro!: related_sweep related)
  from frame.apply_state [OF related_frame this, of "\<lambda>s. (Suc (length (dlMem (stNodes s))), mBegin (stNodes s))"]
  have n: "obeys (store_related RN RT) (sweep_nodes ipc)" by (simp add: sweep_nodes_def [abs_def])
  have "obeys (store_related RN RT) (case a of (k, it) \<Rightarrow> sweep_list k stTopics put_topics TopicsMutex TopicList ipc it)" for a
    by (cases a) (auto intro!: related_sweep related)
  from frame.apply_state [OF related_frame this, of "\<lambda>s. (Suc (length (dlMem (stTopics s))), mBegin (stTopics s))"]
  have t: "obeys (store_related RN RT) (sweep_topics ipc)" by (simp add: sweep_topics_def [abs_def])
  assume "m \<in> set (store_steps ipc)"
  then show ?thesis using n t
    unfolding store_steps_def update_publishersTo_def update_subscribersTo_def update_isServerFor_def update_isClientOf_def
      update_isActionServerFor_def update_isActionClientOf_def update_state_def update_publishers_def update_subscribers_def
      addSubUpdate_def addSendUpdate_def addPubUpdate_def
    by (auto intro!: related_message related_handle related split: prod.split)
qed

section \<open>The watchlist and the fault detection\<close>

lemma related_emplace_member [related]: "obeys (store_related RN RT) (emplace_member p type)"
proof -
  have eq: "emplace_member p type = (\<lambda>s. if snd (map_emplace ptr_less p type (wlMembers s))
     then (\<lambda>s. Inr (True, s\<lparr>wlMembers := fst (map_emplace ptr_less p type (wlMembers s))\<rparr>)) s
     else bindS (ptr_destroy p) (\<lambda>_. returnS False) s)"
    by (auto simp: emplace_member_def fun_eq_iff split: prod.split)
  show ?thesis unfolding eq by (intro related) simp
qed

lemma related_addMember [related]: "obeys (store_related RN RT) (addMember_proxy ipc q type)"
proof -
  have eq: "addMember_proxy ipc q type = (\<lambda>s. if pxIsTopic q \<and> checkTopicPrimaryIgnored (pxPrimaryKey q) s then returnS () s
     else locked MembersMutex (bindS (touch WatchedMembers) (\<lambda>_. bindS (wl_get (pxPrimaryKey q)) (\<lambda>i s.
      if i = length (wlMembers s) then returnS () s
      else bindS (ds_get ipc q) (\<lambda>p. bindS (emplace_member p type) (\<lambda>e. liftR (assertR e))) s))) s)"
    by (simp add: addMember_proxy_def fun_eq_iff cong: if_cong)
  show ?thesis unfolding eq wl_get_def by (intro related)
qed

lemma related_getMembers [related]: "obeys (store_related RN RT) (getMembers ipc)"
proof -
  have l: "obeys (store_related RN RT) (initialise_loop ipc names)" for names
    by (induction names) (auto intro!: related)
  have "obeys (store_related RN RT) (bindS (initialise_loop ipc names) (\<lambda>names s. Inr ((), s\<lparr>wlInitialMemberNames := names\<rparr>)))" for names
    by (intro related l) simp
  then have loop: "obeys (store_related RN RT) (\<lambda>s. bindS (initialise_loop ipc (wlInitialMemberNames s)) (\<lambda>names s. Inr ((), s\<lparr>wlInitialMemberNames := names\<rparr>)) s)"
    by (rule frame.apply_state [OF related_frame])
  have eq: "tryInitialise ipc = (\<lambda>s. if wlInitialMemberNames s = [] then returnS () s
      else bindS (initialise_loop ipc (wlInitialMemberNames s)) (\<lambda>names s. Inr ((), s\<lparr>wlInitialMemberNames := names\<rparr>)) s)"
    by (simp add: tryInitialise_def fun_eq_iff)
  have init: "obeys (store_related RN RT) (tryInitialise ipc)" unfolding eq by (intro related loop)
  have copy: "obeys (store_related RN RT) (\<lambda>s. mapS ptr_copy (watched s) s)"
    by (rule frame.apply_state [OF related_frame]) (intro related)
  show ?thesis unfolding getMembers_def by (intro related init copy)
qed

lemma related_watchlist [related]: "obeys (store_related RN RT) (wl_contains k)" "obeys (store_related RN RT) wl_reset" "obeys (store_related RN RT) (notifyUsed k)"
proof -
  show "obeys (store_related RN RT) (wl_contains k)" unfolding wl_contains_def wl_get_def by (intro related) simp
  have r: "obeys (store_related RN RT) (\<lambda>s. bindS (forS (watched s) ptr_destroy) (\<lambda>_ s. Inr ((), s\<lparr>wlMembers := []\<rparr>)) s)"
    by (rule frame.apply_state [OF related_frame]) (intro related, simp)
  then show "obeys (store_related RN RT) wl_reset" unfolding wl_reset_def by (intro related)
  have n: "obeys (store_related RN RT) (\<lambda>s. bindS (ptr_destroy (fst (wlMembers s ! it))) (\<lambda>_ s.
             Inr (True, s\<lparr>wlMembers := erase_at it (wlMembers s)\<rparr>)) s)" for it
    by (rule frame.apply_state [OF related_frame]) (intro related, simp)
  then show "obeys (store_related RN RT) (notifyUsed k)" unfolding notifyUsed_def wl_get_def by (intro related) simp_all
qed

lemma related_get_attributes [related]: "obeys (store_related RN RT) (get_attributes ipc p)"
  by (rule relatedI, auto simp: get_attributes_def put_nodes_def put_topics_def deref_Inr split: option.splits member_ref.splits
      intro: nodes.refl topics.refl elim!: nodes.object topics.object, (rule grows_poll, assumption)+)

lemma related_observe [related]: "obeys (store_related RN RT) (observe_member ipc p)"
proof -
  have "obeys (store_related RN RT) (\<lambda>s. case map_find ptr_less p (fdMovingWindow s) of
       None \<Rightarrow> bindR (createAttrWindow (fdMovingWindowSize s) attributes) (\<lambda>window.
         Inr (snd (ptr_move p),
              s\<lparr>fdMovingWindow := fst (map_emplace ptr_less (fst (ptr_move p)) window (fdMovingWindow s))\<rparr>))
     | Some window \<Rightarrow> bindR (updateAttrWindow window attributes) (\<lambda>window'.
         Inr (p, s\<lparr>fdMovingWindow := map_modify ptr_less p (\<lambda>_. window') (fdMovingWindow s)\<rparr>)))" for attributes
    by (rule related_same) (auto split: option.splits)
  then show ?thesis unfolding observe_member_def by (intro related)
qed

lemma related_fd_detect [related]: "obeys (store_related RN RT) (fd_detect ipc)"
proof -
  have f: "obeys (store_related RN RT) (detectFaults ipc p w)" for p w unfolding detectFaults_def by (intro related)
  have p: "obeys (store_related RN RT) (push_alert a)" for a unfolding push_alert_def by (intro related) simp
  have e: "obeys (store_related RN RT) (detect_entry ipc e)" for e :: "member_ptr \<times> attribute_window"
    by (cases e, cases "snd e") (auto simp: detect_entry_def intro!: related f p split: prod.split list.split)
  have "obeys (store_related RN RT) (detect_entries ipc es)" for es
    by (induction es) (auto intro!: related e)
  then have d: "obeys (store_related RN RT) (\<lambda>s. detect_entries ipc (fdMovingWindow s) s)" by (rule frame.apply_state [OF related_frame])
  show ?thesis unfolding fd_detect_def by (intro related d) simp_all
qed

lemma related_fd_body: "obeys (store_related RN RT) (fd_body ipc)"
  unfolding fd_body_def by (intro related)

section \<open>The main loop\<close>

lemma related_getEmittedAlerts [related]: "obeys (store_related RN RT) getEmittedAlerts"
proof -
  have "obeys (store_related RN RT) (bindS (mapS copy_alert a) (\<lambda>out. bindS (forS (map alMember a) ptr_destroy)
      (\<lambda>_ s. Inr (out, s\<lparr>fdAlerts := []\<rparr>))))" for a
    unfolding copy_alert_def [abs_def] by (intro related) simp
  then have "obeys (store_related RN RT) (\<lambda>s. bindS (mapS copy_alert (fdAlerts s)) (\<lambda>out. bindS (forS (map alMember (fdAlerts s)) ptr_destroy)
      (\<lambda>_ s. Inr (out, s\<lparr>fdAlerts := []\<rparr>))) s)" by (rule frame.apply_state [OF related_frame])
  then show ?thesis unfolding getEmittedAlerts_def by (intro related)
qed

lemma related_sag [related]: "obeys (store_related RN RT) (sag_add p)" "obeys (store_related RN RT) (sag_incoming p)" "obeys (store_related RN RT) (sag_contains q)"
  "obeys (store_related RN RT) sag_visualise" "obeys (store_related RN RT) sag_reset"
proof -
  have a: "obeys (store_related RN RT) (graph_add p g)" "obeys (store_related RN RT) (graph_reset g)" for g
    unfolding graph_add_def Let_def graph_reset_def by (intro related)+
  have "obeys (store_related RN RT) (\<lambda>s. bindR (graph_add p (sgSAG s) s) (\<lambda>((added, g), t). Inr (added, t\<lparr>sgSAG := g\<rparr>)))"
    by (rule obeysI) (auto simp: store_related_def dest!: relatedD [OF a(1)])
  then show "obeys (store_related RN RT) (sag_add p)" unfolding sag_add_def by (intro related)
  have "obeys (store_related RN RT) (\<lambda>s. bindR (graph_reset (sgSAG s) s) (\<lambda>(g, t). Inr ((), t\<lparr>sgSAG := g\<rparr>)))"
    by (rule obeysI) (auto simp: store_related_def dest!: relatedD [OF a(2)])
  then show "obeys (store_related RN RT) sag_reset" unfolding sag_reset_def by (intro related)
  show "obeys (store_related RN RT) (sag_incoming p)" "obeys (store_related RN RT) (sag_contains q)"
    unfolding sag_incoming_def sag_contains_def by (intro related)+
  have d: "obeys (store_related RN RT) sag_draw" unfolding sag_draw_def by (intro related)
  have c: "obeys (store_related RN RT) sag_clear_flag" by (rule related_same) (auto simp: sag_clear_flag_def)
  have "obeys (store_related RN RT) (\<lambda>s. if \<not> mUpdateVisualisation (sgSAG s) then returnS [] s
      else bindS sag_draw (\<lambda>calls. bindS sag_clear_flag (\<lambda>_. returnS calls)) s)"
    by (intro related d c)
  then show "obeys (store_related RN RT) sag_visualise" by (simp add: sag_visualise_def [abs_def] cong: if_cong)
qed

lemma related_main_step: "m \<in> set (main_steps ipc js) \<Longrightarrow> obeys (store_related RN RT) m"
proof -
  have "obeys (store_related RN RT) (bindS (world (shmReceive ipc a)) (\<lambda>resp. bindS (liftR (assertR (rsType resp = NUMERICAL))) (\<lambda>_.
       bindS (liftR (assertR (rsNumber resp = 1 \<and> rsTotal resp = 1))) (\<lambda>_. returnS (rsValue resp)))))" for a
    by (intro related)
  then have cpu: "obeys (store_related RN RT) (cpu_utilisation ipc)" unfolding cpu_utilisation_def [abs_def] by (rule frame.apply_state [OF related_frame])
  have v: "obeys (store_related RN RT) (\<lambda>s. bindR (f s) (\<lambda>(x, w). Inr (x, s\<lparr>dsWorld := w\<rparr>)))" for f
    by (rule related_same) auto
  have check: "obeys (store_related RN RT) (\<lambda>s. if sgBlindSpotCheckCounter s = 0 \<and> c < sgMaximumCpuUtilisation s then blindSpotCheck ipc js s
      else Inr ((), s))" for c
    unfolding blindSpotCheck_def getFullGraphView_def by (intro related v) simp
  have count: "obeys (store_related RN RT) advance_counter" by (rule related_same) (auto simp: advance_counter_def split: if_splits)
  have u: "obeys (store_related RN RT) getUpdates" unfolding getUpdates_def by (intro related) simp
  have e: "obeys (store_related RN RT) (expandSubgraph ipc as)" for as
    unfolding expandSubgraph_def expand_by_def sag_request_drawing_def [abs_def] by (intro related) simp
  have c: "obeys (store_related RN RT) (checkAbortCirteria as)" for as
    by (rule related_same) (auto simp: checkAbortCirteria_def Let_def split: if_splits)
  have f: "obeys (store_related RN RT) (\<lambda>s. bindS (forS (map fst (fdMovingWindow s)) ptr_destroy) (\<lambda>_ s. Inr ((), s\<lparr>fdMovingWindow := []\<rparr>)) s)"
    by (rule frame.apply_state [OF related_frame]) (intro related, simp)
  have a: "obeys (store_related RN RT) abort_investigation"
    unfolding abort_investigation_def fd_reset_def by (intro related f) simp
  assume "m \<in> set (main_steps ipc js)"
  moreover have "obeys (store_related RN RT) (check_blind_spots ipc js)" unfolding check_blind_spots_def by (intro related cpu check count)
  moreover have "obeys (store_related RN RT) (follow_updates ipc)" unfolding follow_updates_def offer_connection_def by (intro related u)
  moreover have "obeys (store_related RN RT) (handle_alerts ipc)" unfolding handle_alerts_def by (intro related e c a)
  ultimately show ?thesis by (auto simp: main_steps_def)
qed

lemma related_turn: "obeys (store_related RN RT) (take_turn ipc js x)"
  by (rule turn_cases [where P = "obeys (store_related RN RT)"])
    (auto intro: related_store_step related_fd_body related_main_step related_rules related_sag related_basic)

lemma related_schedule: "obeys (store_related RN RT) (run_schedule ipc js schedule)"
  unfolding run_schedule_def by (rule frame.sequence [OF related_frame]) (auto intro: related_turn)

end

end
