(* ===== verification/One_Investigation.thy ===== *)
theory One_Investigation
  imports System
begin

text \<open>
  What an investigation leaves behind. When it stops, the watchlist, the windows and the subgraph are
  cleared, and nothing fills the watchlist again: the initial names were erased when they were resolved.
\<close>

section \<open>What counts for starting and stopping\<close>

definition same_count :: "('w, 'z) dynamic_subgraph_scheme \<Rightarrow> ('w, 'z) dynamic_subgraph_scheme \<Rightarrow> bool" where
  "same_count s t \<longleftrightarrow> sgLastNrAlerts t = sgLastNrAlerts s \<and> sgSomethingIsGoingOn t = sgSomethingIsGoingOn s
     \<and> sgAbortionCriteriaThreshold t = sgAbortionCriteriaThreshold s"

interpretation counting: frame same_count
  by unfold_locales (auto simp: same_count_def)

lemma same_count_refl [simp]: "same_count s s"
  by (rule counting.refl)

named_theorems counted \<open>operations that leave the numbers of alerts alone\<close>

lemmas counted_rules [counted] = counting.rules

lemma counted_beyond: "keeps_beyond m \<Longrightarrow> obeys same_count m"
  by (rule obeysI) (auto dest: keeps_beyondD more_subgraph simp: same_count_def)

lemma counted_keeps: "keeps_more m \<Longrightarrow> obeys same_count m"
  by (rule counted_beyond) (rule beyond_keeps)

lemma counted_update [counted]: "(\<And>s. same_count s (f s)) \<Longrightarrow> obeys same_count (\<lambda>s. Inr (x s, f s))"
  by (rule obeysI) auto

lemma counted_locked [counted]:
  assumes "obeys same_count m"
  shows "obeys same_count (locked x m)"
  by (rule obeysI) (auto elim!: locked_InrE dest: obeysD [OF assms] simp: same_count_def)

lemma counted_basic [counted]: "obeys same_count (touch c)" "obeys same_count (world h)" "obeys same_count (ptr_copy p)"
  "obeys same_count (ptr_destroy p)" "obeys same_count (addMember_proxy ipc q type)" "obeys same_count (wl_contains k)"
  by (rule counted_keeps counted_beyond, rule keeps beyond)+

lemma counted_getMembers [counted]: "obeys same_count (getMembers ipc)"
proof -
  have n: "obeys same_count (getNodeByName ipc k)" for k by (rule counted_keeps) (rule keeps)
  have e: "obeys same_count (emplace_member p type)" for p type by (rule counted_beyond) (rule beyond)
  have l: "obeys same_count (initialise_loop ipc names)" for names
    by (induction names) (auto intro!: counted n e)
  have "obeys same_count (bindS (initialise_loop ipc names) (\<lambda>names s. Inr ((), s\<lparr>wlInitialMemberNames := names\<rparr>)))" for names
    by (intro counted l) (simp add: same_count_def)
  then have loop: "obeys same_count (\<lambda>s. bindS (initialise_loop ipc (wlInitialMemberNames s)) (\<lambda>names s. Inr ((), s\<lparr>wlInitialMemberNames := names\<rparr>)) s)"
    by (rule counting.apply_state)
  have eq: "tryInitialise ipc = (\<lambda>s. if wlInitialMemberNames s = [] then returnS () s
      else bindS (initialise_loop ipc (wlInitialMemberNames s)) (\<lambda>names s. Inr ((), s\<lparr>wlInitialMemberNames := names\<rparr>)) s)"
    by (simp add: tryInitialise_def fun_eq_iff)
  have init: "obeys same_count (tryInitialise ipc)" unfolding eq by (intro counted loop)
  have copy: "obeys same_count (\<lambda>s. mapS ptr_copy (watched s) s)"
    by (rule counting.apply_state) (intro counted)
  show ?thesis unfolding getMembers_def by (intro counted init copy)
qed

lemma counted_watchlist [counted]: "obeys same_count wl_reset" "obeys same_count (notifyUsed k)"
proof -
  have r: "obeys same_count (\<lambda>s. bindS (forS (watched s) ptr_destroy) (\<lambda>_ s. Inr ((), s\<lparr>wlMembers := []\<rparr>)) s)"
    by (rule counting.apply_state) (intro counted, simp add: same_count_def)
  then show "obeys same_count wl_reset" unfolding wl_reset_def by (intro counted)
  show "obeys same_count (notifyUsed k)"
  proof (rule obeysI, goal_cases)
    case (1 s b t)
    from more_subgraph [OF notifyUsed_more [OF 1]] show ?case by (simp add: same_count_def)
  qed
qed

lemma counted_fd_body: "obeys same_count (fd_body ipc)"
proof -
  have o: "obeys same_count (observe_member ipc p)" for p
  proof -
    have g: "obeys same_count (get_attributes ipc p)" by (rule counted_keeps) (rule keeps)
    have "obeys same_count (\<lambda>s. case map_find ptr_less p (fdMovingWindow s) of
         None \<Rightarrow> bindR (createAttrWindow (fdMovingWindowSize s) attributes) (\<lambda>window.
           Inr (snd (ptr_move p),
                s\<lparr>fdMovingWindow := fst (map_emplace ptr_less (fst (ptr_move p)) window (fdMovingWindow s))\<rparr>))
       | Some window \<Rightarrow> bindR (updateAttrWindow window attributes) (\<lambda>window'.
           Inr (p, s\<lparr>fdMovingWindow := map_modify ptr_less p (\<lambda>_. window') (fdMovingWindow s)\<rparr>)))" for attributes
      by (rule obeysI) (auto simp: same_count_def split: option.splits)
    then show ?thesis unfolding observe_member_def by (intro counted g)
  qed
  have f: "obeys same_count (detectFaults ipc p w)" for p w by (rule counted_keeps) (rule keeps)
  have p: "obeys same_count (push_alert a)" for a unfolding push_alert_def by (intro counted) (simp add: same_count_def)
  have e: "obeys same_count (detect_entry ipc e)" for e :: "member_ptr \<times> attribute_window"
    by (cases e, cases "snd e") (auto simp: detect_entry_def intro!: counted f p split: prod.split list.split)
  have "obeys same_count (detect_entries ipc es)" for es
    by (induction es) (auto intro!: counted e)
  then have d: "obeys same_count (\<lambda>s. detect_entries ipc (fdMovingWindow s) s)" by (rule counting.apply_state)
  show ?thesis unfolding fd_body_def fd_detect_def by (intro counted d o) (simp_all add: same_count_def)
qed

lemma counted_alerts [counted]: "obeys same_count getEmittedAlerts" "obeys same_count fd_reset"
proof -
  have c: "obeys same_count (copy_alert a)" for a by (rule counted_keeps) (rule keeps)
  have "obeys same_count (bindS (mapS copy_alert a) (\<lambda>out. bindS (forS (map alMember a) ptr_destroy)
      (\<lambda>_ s. Inr (out, s\<lparr>fdAlerts := []\<rparr>))))" for a
    by (intro counted c) (simp add: same_count_def)
  then have "obeys same_count (\<lambda>s. bindS (mapS copy_alert (fdAlerts s)) (\<lambda>out. bindS (forS (map alMember (fdAlerts s)) ptr_destroy)
      (\<lambda>_ s. Inr (out, s\<lparr>fdAlerts := []\<rparr>))) s)" by (rule counting.apply_state)
  then show "obeys same_count getEmittedAlerts" unfolding getEmittedAlerts_def by (intro counted)
  have "obeys same_count (bindS (forS (map fst a) ptr_destroy) (\<lambda>_ s. Inr ((), s\<lparr>fdMovingWindow := []\<rparr>)))"
    for a :: "(member_ptr \<times> attribute_window) list"
    by (intro counted) (simp add: same_count_def)
  then have "obeys same_count (\<lambda>s. bindS (forS (map fst (fdMovingWindow s)) ptr_destroy) (\<lambda>_ s. Inr ((), s\<lparr>fdMovingWindow := []\<rparr>)) s)"
    by (rule counting.apply_state)
  then show "obeys same_count fd_reset" unfolding fd_reset_def by (intro counted)
qed

lemma counted_sag [counted]: "obeys same_count (sag_add p)" "obeys same_count (sag_incoming p)" "obeys same_count (sag_contains q)"
  "obeys same_count sag_visualise" "obeys same_count sag_reset" "obeys same_count sag_request_drawing"
proof -
  have g: "obeys same_count (graph_add p g)" "obeys same_count (graph_reset g)" for g
    by (rule counted_keeps, rule keeps)+
  have "obeys same_count (\<lambda>s. bindR (graph_add p (sgSAG s) s) (\<lambda>((added, g), t). Inr (added, t\<lparr>sgSAG := g\<rparr>)))"
    by (rule obeysI) (auto simp: same_count_def dest: obeysD [OF g(1)])
  then show "obeys same_count (sag_add p)" unfolding sag_add_def by (intro counted)
  have "obeys same_count (\<lambda>s. bindR (graph_reset (sgSAG s) s) (\<lambda>(g, t). Inr ((), t\<lparr>sgSAG := g\<rparr>)))"
    by (rule obeysI) (auto simp: same_count_def dest: obeysD [OF g(2)])
  then show "obeys same_count sag_reset" unfolding sag_reset_def by (intro counted)
  show "obeys same_count (sag_incoming p)" "obeys same_count (sag_contains q)"
    unfolding sag_incoming_def sag_contains_def by (intro counted)+
  show "obeys same_count sag_request_drawing"
    unfolding sag_request_drawing_def [abs_def] by (intro counted) (simp add: same_count_def)
  have d: "obeys same_count sag_draw" unfolding sag_draw_def by (intro counted)
  have c: "obeys same_count sag_clear_flag"
    unfolding sag_clear_flag_def [abs_def] by (intro counted) (simp add: same_count_def)
  have "obeys same_count (\<lambda>s. if \<not> mUpdateVisualisation (sgSAG s) then returnS [] s
      else bindS sag_draw (\<lambda>calls. bindS sag_clear_flag (\<lambda>_. returnS calls)) s)"
    by (intro counted d c)
  then show "obeys same_count sag_visualise" by (simp add: sag_visualise_def [abs_def] cong: if_cong)
qed

lemma counted_expand: "obeys same_count (expandSubgraph ipc as)"
  unfolding expandSubgraph_def expand_by_def by (intro counted)

lemma counted_check: "check_blind_spots ipc js s = Inr (u, t) \<Longrightarrow> same_count s t"
proof -
  assume "check_blind_spots ipc js s = Inr (u, t)"
  then obtain l a b where a: "cpu_utilisation ipc s = Inr (l, a)"
    "(if sgBlindSpotCheckCounter a = 0 \<and> l < sgMaximumCpuUtilisation a then blindSpotCheck ipc js a else Inr ((), a)) = Inr ((), b)"
    "advance_counter b = Inr (u, t)" unfolding check_blind_spots_def by auto
  have "watchlist.more b = watchlist.more s"
    using a(2) keeps_beyondD [OF beyond_blindSpotCheck, of ipc js a "()" b] cpu_utilisation_keeps [OF a(1)]
    by (auto split: if_splits)
  from more_subgraph [OF this] a(3) show "same_count s t"
    by (auto simp: same_count_def advance_counter_def split: if_splits)
qed

lemma counted_follow: "obeys same_count (follow_updates ipc)"
proof -
  have u: "obeys same_count getUpdates" by (rule counted_keeps) (rule keeps)
  show ?thesis unfolding follow_updates_def offer_connection_def by (intro counted u)
qed

lemma counted_turn: "x \<noteq> MainTurn 2 \<Longrightarrow> obeys same_count (take_turn ipc js x)"
proof (cases x)
  case (StoreTurn i)
  then show ?thesis by (auto intro!: counted counted_keeps keeps_store_step nth_mem)
next
  case (MainTurn i)
  moreover assume "x \<noteq> MainTurn 2"
  ultimately consider "i = 0" | "i = 1" | "\<not> i < 3" by force
  then show ?thesis using MainTurn
    by cases (auto simp: main_steps_def intro!: counted counted_follow obeysI [OF counted_check])
qed (auto intro!: counted counted_fd_body)

lemma counted_has_seen: "same_count s t \<Longrightarrow> has_seen ns s \<Longrightarrow> has_seen ns t"
  by (simp add: same_count_def has_seen_def)

section \<open>How an investigation stops\<close>

lemma keeps_all:
  assumes "keeps_more m" "m s = Inr (x, t)"
  shows "wlMembers t = wlMembers s" "fdMovingWindow t = fdMovingWindow s" "fdAlerts t = fdAlerts s" "sgSAG t = sgSAG s"
  using store_op_fields(1) [OF assms] more_alerts [OF keeps_watchlist [OF assms]] more_subgraph(1) [OF keeps_watchlist [OF assms]]
  by simp_all

lemma destroys_all: "keeps_more (forS ps ptr_destroy)"
  by (intro keeps)

lemma emitted_clears:
  assumes "getEmittedAlerts s = Inr (as, t)"
  shows "fdAlerts t = []" "wlMembers t = wlMembers s" "fdMovingWindow t = fdMovingWindow s" "sgSAG t = sgSAG s"
    "length as = length (fdAlerts s)"
proof -
  from assms obtain t1 x a ys b y c where a: "touch AlertList (s\<lparr>dsTrace := dsTrace s @ [Locked AlertMutex (dsHeld s)],
      dsHeld := AlertMutex # dsHeld s\<rparr>) = Inr (x, a)"
    and r: "mapS copy_alert (fdAlerts a) a = Inr (ys, b)" "forS (map alMember (fdAlerts a)) ptr_destroy b = Inr (y, c)"
    and t: "Inr (ys, c\<lparr>fdAlerts := []\<rparr>) = Inr (as, t1)" "t = t1\<lparr>dsHeld := remove1 AlertMutex (dsHeld t1)\<rparr>"
    unfolding getEmittedAlerts_def by (elim locked_InrE bindS_InrE) blast
  have "keeps_more (mapS copy_alert ps)" for ps by (rule keeps, rule keeps)
  note m = keeps_all [OF this r(1)] keeps_all [OF destroys_all r(2)]
  show "fdAlerts t = []" "wlMembers t = wlMembers s" "fdMovingWindow t = fdMovingWindow s" "sgSAG t = sgSAG s"
    "length as = length (fdAlerts s)"
    using m a t mapS_length [OF r(1)] by auto
qed

lemma abort_clears:
  assumes "abort_investigation s = Inr (as, t)"
  shows "wlMembers t = []" "fdMovingWindow t = []" "fdAlerts t = []" "mVertices (sgSAG t) = []"
    "same_count (s\<lparr>sgSomethingIsGoingOn := False\<rparr>) t"
proof -
  from assms obtain a b c where r: "wl_reset (s\<lparr>sgSomethingIsGoingOn := False\<rparr>) = Inr ((), a)" "fd_reset a = Inr ((), b)"
    "sag_reset b = Inr ((), c)" "getEmittedAlerts c = Inr (as, t)" unfolding abort_investigation_def by auto
  have a: "wlMembers a = []" using wl_reset_empty [OF r(1)] by simp
  from r(2) obtain a' tr where "forS (map fst (fdMovingWindow a)) ptr_destroy (a\<lparr>dsTrace := tr\<rparr>) = Inr ((), a')"
    "b = a'\<lparr>fdMovingWindow := []\<rparr>" unfolding fd_reset_def by auto
  then have b: "wlMembers b = []" "fdMovingWindow b = []"
    using keeps_all(1) [OF destroys_all] a by fastforce+
  from r(3) obtain b' g tr where b': "graph_reset (sgSAG b) (b\<lparr>dsTrace := tr\<rparr>) = Inr (g, b')" "c = b'\<lparr>sgSAG := g\<rparr>"
    unfolding sag_reset_def by auto
  have c: "wlMembers c = []" "fdMovingWindow c = []" "mVertices (sgSAG c) = []"
    using b b' keeps_all [OF keeps_graph(2) b'(1)] by (auto simp: graph_reset_def)
  show "wlMembers t = []" "fdMovingWindow t = []" "fdAlerts t = []" "mVertices (sgSAG t) = []"
    using emitted_clears [OF r(4)] c by simp_all
  show "same_count (s\<lparr>sgSomethingIsGoingOn := False\<rparr>) t"
    using obeysD [OF counted_watchlist(1) r(1)] obeysD [OF counted_alerts(2) r(2)] obeysD [OF counted_sag(5) r(3)]
      obeysD [OF counted_alerts(1) r(4)] by (auto simp: same_count_def)
qed

lemma handle_alerts_count:
  assumes "has_seen ns s" "handle_alerts ipc s = Inr (u, t)"
  shows "has_seen (ns @ [length (fdAlerts s)]) t" "sgAbortionCriteriaThreshold t = sgAbortionCriteriaThreshold s"
    and "sgSomethingIsGoingOn s \<Longrightarrow> \<not> sgSomethingIsGoingOn t \<Longrightarrow>
      wlMembers t = [] \<and> fdMovingWindow t = [] \<and> fdAlerts t = [] \<and> mVertices (sgSAG t) = []"
proof -
  from assms(2) obtain em a b abort c ls d where a: "getEmittedAlerts s = Inr (em, a)"
    and b: "(if em = [] then returnS () else expandSubgraph ipc em) a = Inr ((), b)"
    and c: "checkAbortCirteria em b = Inr (abort, c)"
    and d: "(if abort then abort_investigation else returnS []) c = Inr (ls, d)"
    and t: "forS (map alMember (em @ ls)) ptr_destroy d = Inr (u, t)"
    unfolding handle_alerts_def by auto
  have "same_count a b" using b obeysD [OF counted_expand] by (auto split: if_splits)
  then have sb: "same_count s b" using obeysD [OF counted_alerts(1) a] counting.trans by blast
  let ?th = "sgAbortionCriteriaThreshold b" and ?ns = "ns @ [length em]"
  from abort_round_spec [OF counted_has_seen [OF sb assms(1)] refl, of em] obtain v where
    v: "abort_round em b = Inr (over ?th ns \<and> \<not> over ?th ?ns, v)" "has_seen ?ns v" "sgAbortionCriteriaThreshold v = ?th"
    by blast
  have ab: "abort = (over ?th ns \<and> \<not> over ?th ?ns)" "v = (if abort then c\<lparr>sgSomethingIsGoingOn := False\<rparr> else c)"
    using v(1) c by (auto simp: abort_round_def bindS_def)
  have "same_count v d" using d ab(2) abort_clears(5) by (auto split: if_splits)
  moreover have "same_count d t" by (rule obeysD [OF counted_keeps [OF destroys_all] t])
  ultimately have vt: "same_count v t" by (rule counting.trans)
  then have seen: "has_seen ?ns t" using counted_has_seen v(2) by blast
  then show "has_seen (ns @ [length (fdAlerts s)]) t" using emitted_clears(5) [OF a] by simp
  show th: "sgAbortionCriteriaThreshold t = sgAbortionCriteriaThreshold s" using vt v(3) sb by (simp add: same_count_def)
  assume "sgSomethingIsGoingOn s" "\<not> sgSomethingIsGoingOn t"
  then have abort using ab(1) assms(1) seen th sb by (simp add: has_seen_def same_count_def)
  then have "abort_investigation c = Inr (ls, d)" using d by simp
  from abort_clears [OF this] keeps_all [OF destroys_all t]
  show "wlMembers t = [] \<and> fdMovingWindow t = [] \<and> fdAlerts t = [] \<and> mVertices (sgSAG t) = []" by simp
qed

text \<open>What holds in every state the threads reach.\<close>

definition running :: "('w, 'z) dynamic_subgraph_scheme \<Rightarrow> bool" where
  "running s \<longleftrightarrow> (\<exists>ns. has_seen ns s) \<and> 0 \<le> sgAbortionCriteriaThreshold s \<and> wl_single s"

lemma running_turn: "take_turn ipc js x s = Inr (u, t) \<Longrightarrow> running s \<Longrightarrow> running t"
proof -
  assume r: "take_turn ipc js x s = Inr (u, t)" "running s"
  have "(\<exists>ns. has_seen ns t) \<and> sgAbortionCriteriaThreshold t = sgAbortionCriteriaThreshold s"
  proof (cases "x = MainTurn 2")
    case True
    then have "handle_alerts ipc s = Inr (u, t)" using r(1) by (simp add: main_steps_def)
    then show ?thesis using handle_alerts_count(1,2) r(2) unfolding running_def by blast
  next
    case False
    then have "same_count s t" using obeysD [OF counted_turn r(1)] by blast
    then show ?thesis using r(2) counted_has_seen by (auto simp: running_def same_count_def)
  qed
  then show "running t" using r turn_single [OF r(1)] by (simp add: running_def)
qed

text \<open>C7: There is one investigation only. When it stops and no configured name is left to resolve, nothing is
  watched any more, and however the threads take turns from then on nothing ever is: no sample is
  taken, no alert raised, no vertex added and no further investigation started.\<close>

theorem one_investigation_only:
  assumes "make_system ipc connect js config w = Inr s0" "0 \<le> sgAbortionCriteriaThreshold s0"
    and "run_schedule ipc js' before s0 = Inr ((), s)" "wlInitialMemberNames s = []"
    and "take_turn ipc js' (MainTurn 2) s = Inr ((), t)" "sgSomethingIsGoingOn s" "\<not> sgSomethingIsGoingOn t"
    and "run_schedule ipc js' after t = Inr ((), u)"
  shows "wlMembers u = [] \<and> fdMovingWindow u = [] \<and> fdAlerts u = [] \<and> mVertices (sgSAG u) = []
    \<and> \<not> sgSomethingIsGoingOn u"
proof -
  from assms(1) obtain ds where "dsg_new ipc js config ds = Inr s0" by (auto simp: make_system_def)
  note n = dsg_new_fields [OF this]
  have "running s0" using n(1,5) assms(2) by (auto simp: running_def wl_single_def)
  then have s: "running s" using schedule_invariant [OF assms(3), of running] running_turn by blast
  have h: "handle_alerts ipc s = Inr ((), t)" using assms(5) by (simp add: main_steps_def)
  from s obtain ns where "has_seen ns s" by (auto simp: running_def)
  note t = handle_alerts_count(1) [OF this h] handle_alerts_count(3) [OF this h assms(6,7)]
  have "wl_single s" using s by (simp add: running_def)
  then have "wlInitialMemberNames t = []" using adds_noneD(2) [OF none_handle_alerts _ h] assms(4) by simp
  moreover have "running t" by (rule running_turn [OF assms(5) s])
  moreover have "\<not> over (sgAbortionCriteriaThreshold t) (ns @ [length (fdAlerts s)])" using t(1) assms(7) by (simp add: has_seen_def)
  ultimately have "idle t" using t by (auto simp: idle_def running_def)
  then have "idle u" using schedule_invariant [OF assms(8), of idle] idle_turn by blast
  then show ?thesis by (auto simp: idle_def has_seen_def)
qed

section \<open>A run with one investigation\<close>

definition dead_ipc :: "peer ipc" where
  "dead_ipc = demo_ipc\<lparr>receiveNodeResponse := (\<lambda>w. (Some \<lparr>nrPrimaryKey = peKey w, nrName = peKey w, nrPkgName = [],
     nrState = NOT_ACTIVE 0, nrStateChangeTime = 0, nrBootCount = 0, nrPid = 0\<rparr>, w))\<rparr>"

definition dead_js :: "demo_json config_json" where
  "dead_js = demo_watching_js\<lparr>jsSize := (\<lambda>_. Inr 2), jsReal := (\<lambda>_. Inr (1 / 2))\<rparr>"

lemma dead_started:
  "\<exists>s. make_system dead_ipc (\<lambda>_ w. (True, w)) dead_js demo_watching peer_init = Inr s
    \<and> stNodes s = dll_new \<and> stTopics s = dll_new \<and> dsHeld s = [] \<and> wlMembers s = [] \<and> wlInitialMemberNames s = [''n'']
    \<and> fdMovingWindow s = [] \<and> fdMovingWindowSize s = 2 \<and> fdAlerts s = [] \<and> sgSAG s = graph_new
    \<and> \<not> sgSomethingIsGoingOn s \<and> sgAbortionCriteriaThreshold s = 1 / 2 \<and> cb_new 2 = Inr (sgLastNrAlerts s)"
  by (simp add: make_system_def make_data_store_def dead_js_def dead_ipc_def demo_watching_js_def demo_config_js_def demo_watching_def json.defs
    demo_js_def config_size_def config_real_def data_store_new_def tryMakeIpcClient_def connect_loop.simps demo_sub_def
    Let_def await_topic_key.simps demo_ipc_def peer_send_def c_str_def or_diverges_def dsg_new_def wl_new_def
    initial_names_def cb_new_def target_interval_def getCpuUtilisationMemory_def world_def receive_value_def bindS_def
    fault_detection.defs data_store.defs watchlist.defs fd_new_def)

text \<open>After some rounds of the fault detection: one dead node is watched, with as many samples as rounds.\<close>

definition the_node :: member_ptr where
  "the_node = make_member_ptr (NodeRef 0)"

definition sampled_node :: "size_t \<Rightarrow> real list \<Rightarrow> peer dynamic_subgraph \<Rightarrow> bool" where
  "sampled_node k samples s \<longleftrightarrow> dsHeld s = [] \<and> wlMembers s = [(the_node, TYPE_INITIAL)] \<and> wlInitialMemberNames s = []
     \<and> fdMovingWindow s = [(the_node, [(''0'', \<lparr>mMaxSize = 2, mBuffer = samples, mCurrent = 0\<rparr>)])]
     \<and> (\<exists>i r q. stNodes s = \<lparr>dlMem = [Some \<lparr>elPrev = None, elNext = None, elInstance = i, elRequestId = r, elUseCounter = k\<rparr>],
          mBegin = Some 0, mEnd = Some 0\<rparr>
        \<and> mmAttributes i = [\<lparr>atName = ''0'', atSharedMemory = ''n'', atRequestId = q, atLastValue = 1\<rparr>]
        \<and> \<not> mIsTopic i \<and> \<not> mAlive i \<and> mServers i = [] \<and> mActionServers i = [] \<and> mPublishesTo i = [])"

lemmas dead_defs = getMembers_def locked_def touch_def bindS_def tryInitialise_def getNodeByName_def node_findName_def
    find_where_def dll_new_def getsR_def search_key_def world_def dead_ipc_def demo_ipc_def peer_send_def receive_value_def c_str_def
    requestNode_def list_op_def node_emplace_back_def emplace_back_def mk_element_def Let_def request_cpu_def deref_def
    cell_def add_source_def put_nodes_def addAttributeSource_def on_instance_def modify_def demo_response_def
    node_of_response_def emplace_member_def make_member_ptr_def ptr_copy_def counter_at_def watched_def set_cell_def
    ptr_valid_def fd_body_def observe_member_def get_attributes_def getAttributes_def createAttrWindow_def
    create_entry_def cb_new_def cb_push_def cb_move_def ptr_move_def fd_detect_def detect_entry_def cb_full_def
    ptr_destroy_def ptr_isTopic_def detectFaults_def ptr_assign_def ptr_null_def dead_node_def asNode_def
    push_alert_def notifyUsed_def ptr_key_def wl_get_def counter_increase_def counter_decrease_def the_node_def

lemma dead_first:
  fixes s :: "peer dynamic_subgraph"
  assumes "stNodes s = dll_new" "stTopics s = dll_new" "dsHeld s = []" "wlMembers s = []" "fdAlerts s = []"
    and "wlInitialMemberNames s = [''n'']" "fdMovingWindow s = []" "fdMovingWindowSize s = 2"
  shows "\<exists>t. fd_body dead_ipc s = Inr ((), t) \<and> sampled_node 2 [1] t \<and> fdAlerts t = [] \<and> sgSAG t = sgSAG s"
  using assms by (simp add: sampled_node_def dead_defs)

lemma dead_second:
  assumes "sampled_node 2 [1] s" "fdAlerts s = []"
  shows "\<exists>t. fd_body dead_ipc s = Inr ((), t) \<and> sampled_node 3 [1, 1] t \<and> map alMember (fdAlerts t) = [the_node]
    \<and> sgSAG t = sgSAG s"
  using assms
  apply (auto simp: sampled_node_def dead_defs ptr_less_def updateAttrWindow_def update_entry_def)
  done

lemmas alert_defs = handle_alerts_def getEmittedAlerts_def copy_alert_def expandSubgraph_def expand_by_def sag_add_def
  graph_add_def sag_incoming_def graph_getIncoming_def sag_request_drawing_def graph_updateVisualisation_def
  checkAbortCirteria_def cb_push_def cb_getMean_def abort_investigation_def wl_reset_def fd_reset_def sag_reset_def
  graph_reset_def graph_new_def accumulate_def

lemma dead_third:
  assumes "sampled_node 3 samples s" "map alMember (fdAlerts s) = [the_node]" "sgSAG s = graph_new"
    and "sgLastNrAlerts s = \<lparr>mMaxSize = 2, mBuffer = [], mCurrent = 0\<rparr>" "sgAbortionCriteriaThreshold s = 1 / 2"
    and "\<not> sgSomethingIsGoingOn s"
  shows "\<exists>t. handle_alerts dead_ipc s = Inr ((), t) \<and> sampled_node 3 samples t \<and> fdAlerts t = []
    \<and> mVertices (sgSAG t) = [the_node] \<and> sgLastNrAlerts t = \<lparr>mMaxSize = 2, mBuffer = [1], mCurrent = 0\<rparr>
    \<and> sgAbortionCriteriaThreshold t = 1 / 2 \<and> sgSomethingIsGoingOn t"
proof -
  obtain a where "fdAlerts s = [a]" "alMember a = the_node" using assms(2) by auto
  then show ?thesis using assms(1,3-6) by (auto simp: sampled_node_def alert_defs dead_defs)
qed

lemma dead_fourth:
  assumes "sampled_node 3 samples s" "fdAlerts s = []" "mVertices (sgSAG s) = [the_node]"
    and "sgLastNrAlerts s = \<lparr>mMaxSize = 2, mBuffer = [1], mCurrent = 0\<rparr>" "sgAbortionCriteriaThreshold s = 1 / 2"
    and "sgSomethingIsGoingOn s"
  shows "\<exists>t. handle_alerts dead_ipc s = Inr ((), t) \<and> \<not> sgSomethingIsGoingOn t
    \<and> wlMembers t = [] \<and> wlInitialMemberNames t = [] \<and> fdMovingWindow t = [] \<and> dsHeld t = []"
  using assms by (auto simp: sampled_node_def alert_defs dead_defs)

lemma dead_system:
  obtains s0 s t u where "make_system dead_ipc (\<lambda>_ w. (True, w)) dead_js demo_watching peer_init = Inr s0"
    and "0 \<le> sgAbortionCriteriaThreshold s0"
    and "run_schedule dead_ipc demo_js [DetectionTurn, DetectionTurn, MainTurn 2] s0 = Inr ((), s)"
    and "wlInitialMemberNames s = []" "wlMembers s = [(the_node, TYPE_INITIAL)]" "sgSomethingIsGoingOn s"
    and "take_turn dead_ipc demo_js (MainTurn 2) s = Inr ((), t)" "\<not> sgSomethingIsGoingOn t"
    and "run_schedule dead_ipc demo_js [DetectionTurn] t = Inr ((), u)"
    and "fdAlerts s = []" "fdMovingWindow s = [(the_node, [(''0'', \<lparr>mMaxSize = 2, mBuffer = [1, 1], mCurrent = 0\<rparr>)])]"
proof -
  from dead_started obtain s0 where s0: "make_system dead_ipc (\<lambda>_ w. (True, w)) dead_js demo_watching peer_init = Inr s0"
    "stNodes s0 = dll_new" "stTopics s0 = dll_new" "dsHeld s0 = []" "wlMembers s0 = []" "fdAlerts s0 = []" "wlInitialMemberNames s0 = [''n'']"
    "fdMovingWindow s0 = []" "fdMovingWindowSize s0 = 2" "sgSAG s0 = graph_new" "\<not> sgSomethingIsGoingOn s0"
    "sgAbortionCriteriaThreshold s0 = 1 / 2" "cb_new 2 = Inr (sgLastNrAlerts s0)" by blast
  from dead_first [OF s0(2-9)] obtain a where a: "fd_body dead_ipc s0 = Inr ((), a)" "sampled_node 2 [1] a" "fdAlerts a = []"
    "sgSAG a = graph_new" using s0(10) by auto
  from dead_second [OF a(2,3)] obtain b where b: "fd_body dead_ipc a = Inr ((), b)" "sampled_node 3 [1, 1] b"
    "map alMember (fdAlerts b) = [the_node]" "sgSAG b = graph_new" using a(4) by auto
  have "same_count s0 b" using obeysD [OF counted_fd_body] a(1) b(1) counting.trans by blast
  then have c: "sgLastNrAlerts b = \<lparr>mMaxSize = 2, mBuffer = [], mCurrent = 0\<rparr>" "sgAbortionCriteriaThreshold b = 1 / 2"
    "\<not> sgSomethingIsGoingOn b" using s0(11-13) by (auto simp: same_count_def cb_new_def)
  from dead_third [OF b(2-4) c] obtain s where s: "handle_alerts dead_ipc b = Inr ((), s)" "sampled_node 3 [1, 1] s"
    "fdAlerts s = []" "mVertices (sgSAG s) = [the_node]" "sgLastNrAlerts s = \<lparr>mMaxSize = 2, mBuffer = [1], mCurrent = 0\<rparr>"
    "sgAbortionCriteriaThreshold s = 1 / 2" "sgSomethingIsGoingOn s" by blast
  from dead_fourth [OF s(2-7)] obtain t where t: "handle_alerts dead_ipc s = Inr ((), t)" "\<not> sgSomethingIsGoingOn t"
    "wlMembers t = []" "wlInitialMemberNames t = []" "fdMovingWindow t = []" "dsHeld t = []" by blast
  have "\<exists>u. fd_body dead_ipc t = Inr ((), u)" using t(3-6) by (simp add: dead_defs)
  then obtain u where u: "fd_body dead_ipc t = Inr ((), u)" by blast
  have "run_schedule dead_ipc demo_js [DetectionTurn, DetectionTurn, MainTurn 2] s0 = Inr ((), s)"
    using a(1) b(1) s(1) by (simp add: run_schedule_def main_steps_def bindS_def)
  moreover have "take_turn dead_ipc demo_js (MainTurn 2) s = Inr ((), t)" using t(1) by (simp add: main_steps_def)
  moreover have "run_schedule dead_ipc demo_js [DetectionTurn] t = Inr ((), u)" using u by (simp add: run_schedule_def bindS_def)
  ultimately show ?thesis using that s0(1,12) s(2,3,7) t(2) by (auto simp: sampled_node_def)
qed

lemma one_investigation_only_witness:
  "\<exists>s0 s t u. make_system dead_ipc (\<lambda>_ w. (True, w)) dead_js demo_watching peer_init = Inr s0
    \<and> run_schedule dead_ipc demo_js [DetectionTurn, DetectionTurn, MainTurn 2] s0 = Inr ((), s)
    \<and> wlMembers s = [(the_node, TYPE_INITIAL)] \<and> sgSomethingIsGoingOn s
    \<and> take_turn dead_ipc demo_js (MainTurn 2) s = Inr ((), t)
    \<and> run_schedule dead_ipc demo_js [DetectionTurn] t = Inr ((), u) \<and> wlMembers u = []"
proof -
  obtain s0 s t u where r: "make_system dead_ipc (\<lambda>_ w. (True, w)) dead_js demo_watching peer_init = Inr s0"
    "0 \<le> sgAbortionCriteriaThreshold s0"
    "run_schedule dead_ipc demo_js [DetectionTurn, DetectionTurn, MainTurn 2] s0 = Inr ((), s)"
    "wlInitialMemberNames s = []" "wlMembers s = [(the_node, TYPE_INITIAL)]" "sgSomethingIsGoingOn s"
    "take_turn dead_ipc demo_js (MainTurn 2) s = Inr ((), t)" "\<not> sgSomethingIsGoingOn t"
    "run_schedule dead_ipc demo_js [DetectionTurn] t = Inr ((), u)" using dead_system by metis
  from one_investigation_only [OF r(1-4,7,6,8,9)] show ?thesis using r by blast
qed

end
