(* ===== verification/Alert_Budget.thy ===== *)
theory Alert_Budget
  imports Store_Relation One_Investigation
begin

text \<open>
  How many alerts the whole program can raise. A member is examined only in the round in which its first
  window holds as many samples as configured, and windows grow with every round; a member that was
  forgotten is never resolved again. So every configured name is good for one alert at most.
\<close>

section \<open>Attributes never go away\<close>

definition names_kept :: "'m member_scheme dll \<Rightarrow> 'm member_scheme dll \<Rightarrow> bool" where
  "names_kept d d' \<longleftrightarrow> length (dlMem d) \<le> length (dlMem d')
     \<and> (\<forall>a e'. a < length (dlMem d) \<longrightarrow> cell d' a = Some e' \<longrightarrow> (\<exists>e. cell d a = Some e \<and> grows (elInstance e) (elInstance e')))"

lemma names_kept_cell:
  "names_kept d d' \<Longrightarrow> a < length (dlMem d) \<Longrightarrow> cell d' a = Some e' \<Longrightarrow> \<exists>e. cell d a = Some e \<and> grows (elInstance e) (elInstance e')"
  by (simp add: names_kept_def)

lemma names_kept_relation: "cell_relation b names_kept"
proof (rule cell_relation.intro)
  fix d d' :: "'m member_scheme dll"
  show "names_kept d d" by (simp add: names_kept_def)
  show "names_kept d d2" if "names_kept d d'" "names_kept d' d2" for d2
    using that unfolding names_kept_def by (meson grows_trans order_less_le_trans order_trans)
  show "names_kept d d'"
    if m: "modify p f d = Inr d'" "\<And>e. deref d p = Inr e \<Longrightarrow> grows (elInstance e) (elInstance (f e))" for p f
  proof -
    obtain a e where e: "cell d a = Some e" "d' = set_cell a (Some (f e)) d" "p = Some a"
      using m(1) by (auto simp: modify_def deref_Inr)
    then have "grows (elInstance e) (elInstance (f e))" using m(2) [of e] by (simp add: deref_Inr)
    then show ?thesis using e cell_Some_less [OF e(1)] by (auto simp: names_kept_def)
  qed
  show "names_kept d (d\<lparr>dlMem := dlMem d @ [Some e]\<rparr>)" for e
    by (simp add: names_kept_def)
  show "names_kept d (set_cell a None d)" for a
    by (simp add: names_kept_def)
  show "names_kept d (d\<lparr>mBegin := q\<rparr>)" "names_kept d (d\<lparr>mEnd := q\<rparr>)" for q
    by (simp_all add: names_kept_def)
qed

interpretation attributes: store_relation names_kept names_kept
  by (intro store_relation.intro names_kept_relation)

text \<open>The element has the attribute for as long as it is there, and its place is not given to another.\<close>

definition named_at :: "string \<Rightarrow> nat \<Rightarrow> 'm member_scheme dll \<Rightarrow> bool" where
  "named_at d a dl \<longleftrightarrow> a < length (dlMem dl) \<and> (\<forall>e. cell dl a = Some e \<longrightarrow> d \<in> attr_names (elInstance e))"

fun attr_stays :: "string \<Rightarrow> member_ref \<Rightarrow> 'z store_scheme \<Rightarrow> bool" where
  "attr_stays d (NodeRef a) s = named_at d a (stNodes s)"
| "attr_stays d (TopicRef a) s = named_at d a (stTopics s)"

lemma named_at_kept:
  assumes "names_kept dl dl'" "named_at d a dl"
  shows "named_at d a dl'"
  unfolding named_at_def
proof (intro conjI allI impI)
  have a: "a < length (dlMem dl)" using assms(2) by (simp add: named_at_def)
  then show "a < length (dlMem dl')" using assms(1) by (simp add: names_kept_def)
  fix e assume "cell dl' a = Some e"
  from names_kept_cell [OF assms(1) a this] obtain e0 where "cell dl a = Some e0" "grows (elInstance e0) (elInstance e)" by blast
  then show "d \<in> attr_names (elInstance e)" using assms(2) by (auto simp: named_at_def grows_def)
qed

lemma attr_stays_related: "store_related names_kept names_kept s t \<Longrightarrow> attr_stays d r s \<Longrightarrow> attr_stays d r t"
  by (cases r) (auto simp: store_related_def elim: named_at_kept)

lemma attr_stays_obeys:
  assumes "obeys (store_related names_kept names_kept) m" "m s = Inr (x, t)" "attr_stays d r s"
  shows "attr_stays d r t"
  by (rule attr_stays_related [OF attributes.relatedD [OF assms(1,2)] assms(3)])

text \<open>A poll yields a value for exactly the attributes of the member.\<close>

lemma getAttributes_names:
  assumes "getAttributes ipc m w = Inr (out, m', w')"
  shows "fst ` set out = attr_names m'" "attr_names m' = attr_names m"
proof -
  note v = getAttributes_values [OF assms]
  have "map atName (map (atLastValue_update (\<lambda>_. 0)) as) = map atName as" for as :: "attribute list"
    by (simp add: comp_def)
  then have "map atName (mmAttributes m') = map atName (mmAttributes m)" using v unfolding attr_ids_def by metis
  then show "attr_names m' = attr_names m" by (metis attr_names_def set_map)
  have "fst ` set out = dom (map_of out)" by (simp add: dom_map_of_conv_image_fst)
  also have "\<dots> = fst ` set (attr_values (mmAttributes m'))" using v by (simp add: dom_map_of_conv_image_fst)
  finally show "fst ` set out = attr_names m'" by (simp add: attr_values_def attr_names_def image_image)
qed

lemma get_attributes_names:
  assumes "get_attributes ipc p s = Inr (out, t)" "mpMember p = Some r"
  shows "d \<in> fst ` set out \<Longrightarrow> attr_stays d r t" "attr_stays d r s \<Longrightarrow> d \<in> fst ` set out"
proof -
  have "(d \<in> fst ` set out \<longrightarrow> attr_stays d r t) \<and> (attr_stays d r s \<longrightarrow> d \<in> fst ` set out)"
  proof (cases r)
    case (NodeRef a)
    then obtain e m w where e: "cell (stNodes s) a = Some e" "getAttributes ipc (elInstance e) (dsWorld s) = Inr (out, m, w)"
      "stNodes t = set_cell a (Some (e\<lparr>elInstance := m\<rparr>)) (stNodes s)"
      using assms by (auto simp: get_attributes_def deref_Inr on_instance_def modify_def put_nodes_def)
    then show ?thesis using getAttributes_names [OF e(2)] NodeRef cell_Some_less [OF e(1)] e(1,3) by (simp add: named_at_def)
  next
    case (TopicRef a)
    then obtain e m w where e: "cell (stTopics s) a = Some e" "getAttributes ipc (elInstance e) (dsWorld s) = Inr (out, m, w)"
      "stTopics t = set_cell a (Some (e\<lparr>elInstance := m\<rparr>)) (stTopics s)"
      using assms by (auto simp: get_attributes_def deref_Inr on_instance_def modify_def put_topics_def)
    then show ?thesis using getAttributes_names [OF e(2)] TopicRef cell_Some_less [OF e(1)] e(1,3) by (simp add: named_at_def)
  qed
  then show "d \<in> fst ` set out \<Longrightarrow> attr_stays d r t" "attr_stays d r s \<Longrightarrow> d \<in> fst ` set out" by blast+
qed

section \<open>Windows grow\<close>

lemma update_head:
  assumes "update_entry (d, v) ((d0, b0) # w0) = Inr w"
  shows "\<exists>b1 w1. w = (d0, b1) # w1 \<and> mMaxSize b1 = mMaxSize b0
    \<and> length (mBuffer b1) = length (mBuffer b0) + (if d = d0 then 1 else 0)"
  using assms by (auto simp: update_entry_def cb_push_def Let_def split: option.splits if_splits)

lemma updates_head:
  "updateAttrWindow ((d0, b0) # w0) m = Inr w \<Longrightarrow> \<exists>b1 w1. w = (d0, b1) # w1 \<and> mMaxSize b1 = mMaxSize b0
    \<and> length (mBuffer b0) \<le> length (mBuffer b1) \<and> (d0 \<in> fst ` set m \<longrightarrow> length (mBuffer b0) < length (mBuffer b1))"
  unfolding updateAttrWindow_def
proof (induction m arbitrary: b0 w0)
  case (Cons x m)
  obtain d v where x: "x = (d, v)" by force
  from Cons.prems obtain w' where w': "update_entry (d, v) ((d0, b0) # w0) = Inr w'" "foldR update_entry m w' = Inr w"
    by (auto simp: x)
  from update_head [OF w'(1)] obtain b1 w1 where b1: "w' = (d0, b1) # w1" "mMaxSize b1 = mMaxSize b0"
    "length (mBuffer b1) = length (mBuffer b0) + (if d = d0 then 1 else 0)" by blast
  from Cons.IH [of b1 w1] w'(2) b1 show ?case by (auto simp: x split: if_splits)
qed auto

lemma creates_names:
  "foldR (create_entry n) m window = Inr w \<Longrightarrow> fst ` set w \<subseteq> fst ` set window \<union> fst ` set m"
proof (induction m arbitrary: window)
  case (Cons x m)
  obtain d v where x: "x = (d, v)" by force
  from Cons.prems obtain w' where w': "create_entry n (d, v) window = Inr w'" "foldR (create_entry n) m w' = Inr w"
    by (auto simp: x)
  have "fst ` set w' \<subseteq> insert d (fst ` set window)"
    using w'(1) strmap.keys_emplace by (fastforce simp: create_entry_def)
  then show ?case using Cons.IH [OF w'(2)] unfolding x by (simp, blast)
qed simp

lemma creates_window:
  assumes "createAttrWindow n m = Inr w" "w \<noteq> []"
  shows "\<exists>d b w'. w = (d, b) # w' \<and> d \<in> fst ` set m"
proof -
  obtain d b w' where w: "w = (d, b) # w'" using assms(2) by (cases w) auto
  then have "d \<in> fst ` set m"
    using creates_names [of n m "[]" w] assms(1) by (auto simp: createAttrWindow_def)
  then show ?thesis using w by blast
qed

section \<open>Operations that add no member\<close>

text \<open>As long as one member at most is watched: the watchlist and the windows stay, the alerts too if asked.\<close>

definition steady :: "bool \<Rightarrow> ('w, 'z) fault_detection_scheme \<Rightarrow> ('w, 'z) fault_detection_scheme \<Rightarrow> bool" where
  "steady alerts s t \<longleftrightarrow> (wl_single s \<longrightarrow> wlMembers t = wlMembers s \<and> wlInitialMemberNames t = wlInitialMemberNames s
     \<and> fdMovingWindow t = fdMovingWindow s \<and> (alerts \<longrightarrow> fdAlerts t = fdAlerts s))"

lemma steady_single: "steady b s t \<Longrightarrow> wl_single s \<Longrightarrow> wl_single t"
  by (auto simp: steady_def wl_single_def)

interpretation steadiness: frame "steady b"
proof
  show "steady b s s" for s :: "('a, 'b) fault_detection_scheme" by (simp add: steady_def)
  show "steady b s t \<Longrightarrow> steady b t u \<Longrightarrow> steady b s u" for s t u :: "('a, 'b) fault_detection_scheme"
    using steady_single [of b s t] by (auto simp: steady_def)
qed

named_theorems steadily \<open>operations that leave the watchlist and the windows alone\<close>

lemmas steady_rules [steadily] = steadiness.rules

lemma steady_same: "(\<And>s x t. wl_single s \<Longrightarrow> m s = Inr (x, t) \<Longrightarrow> wl_same s t) \<Longrightarrow> obeys (steady b) m"
  by (rule obeysI) (auto simp: steady_def wl_same_def dest: more_alerts)

lemma steady_keeps: "keeps_more m \<Longrightarrow> obeys (steady b) m"
  by (rule steady_same) (rule keeps_wl_same)

lemma steady_update [steadily]: "(\<And>s. steady b s (f s)) \<Longrightarrow> obeys (steady b) (\<lambda>s. Inr (x s, f s))"
  by (rule obeysI) auto

lemma steady_locked [steadily]:
  assumes "obeys (steady b) m"
  shows "obeys (steady b) (locked x m)"
proof (rule obeysI)
  fix s y t assume "locked x m s = Inr (y, t)"
  then obtain u where u: "m (s\<lparr>dsTrace := dsTrace s @ [Locked x (dsHeld s)], dsHeld := x # dsHeld s\<rparr>) = Inr (y, u)"
    "t = u\<lparr>dsHeld := remove1 x (dsHeld u)\<rparr>" by (rule locked_InrE)
  from obeysD [OF assms u(1)] u(2) show "steady b s t" by (simp add: steady_def wl_single_def)
qed

lemma steady_basic [steadily]: "obeys (steady b) (touch c)" "obeys (steady b) (world h)" "obeys (steady b) (ptr_copy p)"
  "obeys (steady b) (ptr_destroy p)" "obeys (steady b) (addMember_proxy ipc q type)" "obeys (steady b) (wl_contains k)"
  "obeys (steady b) (notifyUsed k)" "obeys (steady b) (get_attributes ipc p)" "obeys (steady b) (detectFaults ipc p w)"
  "obeys (steady b) (getFullGraphView ipc js)" "obeys (steady b) getUpdates"
  by (rule steady_keeps, rule keeps keeps_getFullGraphView
      | rule steady_same, blast dest: addMember_proxy_same contains_same notifyUsed_same)+

lemma steady_sag [steadily]: "obeys (steady b) (sag_add p)" "obeys (steady b) (sag_incoming p)" "obeys (steady b) (sag_contains q)"
  "obeys (steady b) sag_visualise" "obeys (steady b) sag_request_drawing"
proof -
  have g: "obeys (steady b) (graph_add p g)" for g by (rule steady_keeps, rule keeps)
  have "obeys (steady b) (\<lambda>s. bindR (graph_add p (sgSAG s) s) (\<lambda>((added, g), t). Inr (added, t\<lparr>sgSAG := g\<rparr>)))"
    by (rule obeysI) (auto simp: steady_def dest: obeysD [OF g])
  then show "obeys (steady b) (sag_add p)" unfolding sag_add_def by (intro steadily)
  show "obeys (steady b) (sag_incoming p)" "obeys (steady b) (sag_contains q)"
    unfolding sag_incoming_def sag_contains_def by (intro steadily)+
  show "obeys (steady b) sag_request_drawing"
    unfolding sag_request_drawing_def [abs_def] by (intro steadily) (simp add: steady_def)
  have d: "obeys (steady b) sag_draw" unfolding sag_draw_def by (intro steadily)
  have c: "obeys (steady b) sag_clear_flag"
    unfolding sag_clear_flag_def [abs_def] by (intro steadily) (simp add: steady_def)
  have "obeys (steady b) (\<lambda>s. if \<not> mUpdateVisualisation (sgSAG s) then returnS [] s
      else bindS sag_draw (\<lambda>calls. bindS sag_clear_flag (\<lambda>_. returnS calls)) s)"
    by (intro steadily d c)
  then show "obeys (steady b) sag_visualise" by (simp add: sag_visualise_def [abs_def] cong: if_cong)
qed

lemma steady_expand: "obeys (steady b) (expandSubgraph ipc as)"
  unfolding expandSubgraph_def expand_by_def by (intro steadily)

lemma steady_turn: "x \<noteq> DetectionTurn \<Longrightarrow> x \<noteq> MainTurn 2 \<Longrightarrow> obeys (steady b) (take_turn ipc js x)"
proof (cases x)
  case (StoreTurn i)
  then show ?thesis by (auto intro!: steadily steady_keeps keeps_store_step nth_mem)
next
  case (MainTurn i)
  have "obeys (steady b) (bindS (world (shmReceive ipc a)) (\<lambda>resp. bindS (liftR (assertR (rsType resp = NUMERICAL))) (\<lambda>_.
       bindS (liftR (assertR (rsNumber resp = 1 \<and> rsTotal resp = 1))) (\<lambda>_. returnS (rsValue resp)))))" for a
    by (intro steadily)
  then have cpu: "obeys (steady b) (cpu_utilisation ipc)" unfolding cpu_utilisation_def [abs_def] by (rule steadiness.apply_state)
  have n: "obeys (steady b) advance_counter" by (rule obeysI) (auto simp: advance_counter_def steady_def split: if_splits)
  have "obeys (steady b) (\<lambda>s. if sgBlindSpotCheckCounter s = 0 \<and> c < sgMaximumCpuUtilisation s then blindSpotCheck ipc js s
      else Inr ((), s))" for c
    unfolding blindSpotCheck_def by (intro steadily) (simp add: steady_def)
  then have c: "obeys (steady b) (check_blind_spots ipc js)"
    unfolding check_blind_spots_def by (intro steadiness.bind cpu n)
  have f: "obeys (steady b) (follow_updates ipc)" unfolding follow_updates_def offer_connection_def by (intro steadily)
  assume "x \<noteq> MainTurn 2"
  then consider "i = 0" | "i = 1" | "\<not> i < 3" using MainTurn by force
  then show ?thesis using MainTurn c f by cases (simp_all add: main_steps_def steady_rules)
qed (auto intro!: steadily)

section \<open>One round of the fault detection\<close>

text \<open>Whether the member that is watched can still raise an alert: once its first window is full it cannot.\<close>

fun chance_of :: "(member_ptr \<times> attribute_window) list \<Rightarrow> nat" where
  "chance_of ((k, (d, b) # w) # ws) = (if length (mBuffer b) < mMaxSize b then 1 else 0)"
| "chance_of ws = 1"

definition chance :: "('w, 'z) fault_detection_scheme \<Rightarrow> nat" where
  "chance s = (if wlMembers s = [] then 0 else chance_of (fdMovingWindow s))"

definition window_for :: "member_ref \<Rightarrow> ('w, 'z) fault_detection_scheme \<Rightarrow> circular_buffer \<Rightarrow> bool" where
  "window_for r s b \<longleftrightarrow> (\<exists>k d w. fdMovingWindow s = [(k, (d, b) # w)] \<and> ptr_valid k \<and> attr_stays d r s)"

lemma window_forD: "window_for r s b \<Longrightarrow> chance_of (fdMovingWindow s) = (if length (mBuffer b) < mMaxSize b then 1 else 0)"
  by (auto simp: window_for_def)

text \<open>Sampling, unless the member has no attributes at all.\<close>

lemma observe_window:
  assumes "observe_member ipc q s = Inr (left, t)" "mpMember q = Some r"
    and "fdMovingWindow s = [] \<or> (\<exists>b. window_for r s b)"
  shows "(\<exists>k. fdMovingWindow t = [(k, [])]) \<or>
    (\<exists>b. window_for r t b \<and> chance_of (fdMovingWindow t) + (if cb_full b then 1 else 0) \<le> chance_of (fdMovingWindow s))"
proof -
  from assms(1) obtain out a where a: "get_attributes ipc q s = Inr (out, a)"
    "(case map_find ptr_less q (fdMovingWindow (a\<lparr>dsTrace := dsTrace a @ [Touched MovingWindow (dsHeld a)]\<rparr>)) of
       None \<Rightarrow> bindR (createAttrWindow (fdMovingWindowSize (a\<lparr>dsTrace := dsTrace a @ [Touched MovingWindow (dsHeld a)]\<rparr>)) out) (\<lambda>window.
         Inr (snd (ptr_move q), a\<lparr>dsTrace := dsTrace a @ [Touched MovingWindow (dsHeld a)],
              fdMovingWindow := fst (map_emplace ptr_less (fst (ptr_move q)) window
                (fdMovingWindow (a\<lparr>dsTrace := dsTrace a @ [Touched MovingWindow (dsHeld a)]\<rparr>)))\<rparr>))
     | Some window \<Rightarrow> bindR (updateAttrWindow window out) (\<lambda>window'.
         Inr (q, a\<lparr>dsTrace := dsTrace a @ [Touched MovingWindow (dsHeld a)],
           fdMovingWindow := map_modify ptr_less q (\<lambda>_. window') (fdMovingWindow (a\<lparr>dsTrace := dsTrace a @ [Touched MovingWindow (dsHeld a)]\<rparr>))\<rparr>)))
      = Inr (left, t)"
    unfolding observe_member_def by auto
  note n = get_attributes_names [OF a(1) assms(2)]
  have wa: "fdMovingWindow a = fdMovingWindow s"
    by (rule more_alerts(2) [OF keeps_watchlist [OF keeps_get_attributes a(1)]])
  have frame: "attr_stays d r (a\<lparr>dsTrace := tr, fdMovingWindow := w\<rparr>) = attr_stays d r a" for d tr w by (cases r) simp_all
  have q: "ptr_valid q" "ptr_valid (fst (ptr_move q))" using assms(2) by (simp_all add: ptr_valid_def ptr_move_def)
  show ?thesis
  proof (cases "fdMovingWindow s = []")
    case True
    then obtain window tr where w: "createAttrWindow (fdMovingWindowSize a) out = Inr window"
      "t = a\<lparr>dsTrace := tr, fdMovingWindow := [(fst (ptr_move q), window)]\<rparr>" using a(2) wa by auto
    show ?thesis
    proof (cases "window = []")
      case False
      then obtain d b w' where "window = (d, b) # w'" "d \<in> fst ` set out" using creates_window [OF w(1)] by blast
      then have "window_for r t b" using w(2) q(2) n(1) frame by (auto simp: window_for_def)
      moreover from window_forD [OF this]
      have "chance_of (fdMovingWindow t) + (if cb_full b then 1 else 0) \<le> chance_of (fdMovingWindow s)"
        using True by (simp add: cb_full_def)
      ultimately show ?thesis by blast
    qed (use w in simp)
  next
    case False
    then obtain k d b w where k: "fdMovingWindow s = [(k, (d, b) # w)]" "ptr_valid k" "attr_stays d r s"
      using assms(3) by (auto simp: window_for_def)
    then obtain window tr where w: "updateAttrWindow ((d, b) # w) out = Inr window"
      "t = a\<lparr>dsTrace := tr, fdMovingWindow := [(k, window)]\<rparr>" using a(2) wa q(1) by auto
    have d: "d \<in> fst ` set out" by (rule n(2) [OF k(3)])
    from updates_head [OF w(1)] d obtain b1 w1 where b1: "window = (d, b1) # w1" "mMaxSize b1 = mMaxSize b"
      "length (mBuffer b) < length (mBuffer b1)" by blast
    have "window_for r t b1" using w(2) b1(1) k(2) n(1) [OF d] frame by (auto simp: window_for_def)
    moreover from window_forD [OF this]
    have "chance_of (fdMovingWindow t) + (if cb_full b1 then 1 else 0) \<le> chance_of (fdMovingWindow s)"
      using b1(2,3) k(1) by (simp add: cb_full_def)
    ultimately show ?thesis by blast
  qed
qed

lemma steady_push: "obeys (steady False) (push_alert a)"
  unfolding push_alert_def by (intro steadily) (simp add: steady_def)

lemma detect_entry_steady:
  assumes "detect_entry ipc e s = Inr (stays, t)" "wl_single s"
  shows "stays" "steady False s t"
proof -
  obtain member window where e: "e = (member, window)" by force
  with assms(1) obtain d b w where w: "window = (d, b) # w" by (auto simp: detect_entry_def split: list.splits)
  have "stays \<and> steady False s t"
  proof (cases "cb_full b")
    case False
    then show ?thesis using assms(1) e w by (auto simp: detect_entry_def steadiness.refl)
  next
    case True
    with assms(1) e w obtain fault alert u v k used x y z where
      a: "detectFaults ipc member window s = Inr ((fault, alert), u)"
        "(if fault then push_alert alert else returnS ()) u = Inr (x, v)" "notifyUsed k v = Inr (used, y)"
      and b: "(if used then ptr_destroy member else returnS ()) y = Inr (x, z)"
        "(if fault then returnS () else ptr_destroy (alMember alert)) z = Inr (x, t)" "stays = (\<not> used)"
      unfolding detect_entry_def by auto
    have "steady False s u" by (rule obeysD [OF steady_basic(9) a(1)])
    moreover have "steady False u v" using a(2) obeysD [OF steady_push] by (cases fault) (auto simp: steadiness.refl)
    ultimately have v: "steady False s v" by (rule steadiness.trans)
    have used: "\<not> used" using notifyUsed_same [OF steady_single [OF v assms(2)] a(3)] by blast
    have "steady False v y" by (rule obeysD [OF steady_basic(7) a(3)])
    moreover have "z = y" using b(1) used by simp
    moreover have "steady False z t"
    proof (cases fault)
      case False
      with b(2) have "ptr_destroy (alMember alert) z = Inr (x, t)" by simp
      then show ?thesis by (rule obeysD [OF steady_basic(4)])
    qed (use b(2) in \<open>simp add: steadiness.refl\<close>)
    ultimately have "steady False v t" using steadiness.trans [of False v y t] by simp
    then show ?thesis using steadiness.trans [OF v] used b(3) by simp
  qed
  then show "stays" "steady False s t" by blast+
qed

lemma detect_window:
  assumes "fd_detect ipc s = Inr (u, t)" "wl_single s" "window_for r s b"
  shows "steady False s t" "length (fdAlerts t) \<le> length (fdAlerts s) + (if cb_full b then 1 else 0)"
proof -
  obtain k d w where w: "fdMovingWindow s = [(k, (d, b) # w)]" using assms(3) by (auto simp: window_for_def)
  let ?s = "s\<lparr>dsTrace := dsTrace s @ [Touched MovingWindow (dsHeld s)]\<rparr>"
  from assms(1) obtain stays a where a: "detect_entry ipc (k, (d, b) # w) ?s = Inr (stays, a)"
    "t = a\<lparr>fdMovingWindow := (if stays then [(k, (d, b) # w)] else [])\<rparr>"
    unfolding fd_detect_def by (auto simp: w)
  have "wl_single ?s" using assms(2) by (simp add: wl_single_def)
  note d = detect_entry_steady [OF a(1) this]
  show "steady False s t" using d a(2) w by (simp add: steady_def wl_single_def)
  have "length (fdAlerts a) \<le> length (fdAlerts ?s) + (if cb_full b then 1 else 0)"
  proof (cases "cb_full b")
    case True
    then show ?thesis using detect_entry_alerts [OF a(1)] by auto
  qed (use a(1) in \<open>auto simp: detect_entry_def\<close>)
  then show "length (fdAlerts t) \<le> length (fdAlerts s) + (if cb_full b then 1 else 0)" using a(2) by simp
qed

text \<open>Resolving a name that was configured uses it up.\<close>

lemma initialise_names:
  "initialise_loop ipc names s = Inr (rest, t) \<Longrightarrow> wl_single s \<Longrightarrow>
    length rest + (if wlMembers s = [] \<and> wlMembers t \<noteq> [] then 1 else 0) \<le> length names"
proof (induction names arbitrary: s rest)
  case (Cons n names)
  from Cons.prems(1) obtain p a where a: "getNodeByName ipc n s = Inr (p, a)"
    "(if \<not> ptr_valid p then bindS (initialise_loop ipc names) (\<lambda>rest. returnS (n # rest))
       else bindS (emplace_member p TYPE_INITIAL) (\<lambda>_. initialise_loop ipc names)) a = Inr (rest, t)"
    by auto
  have sa: "wlMembers a = wlMembers s" "wl_single a"
    using getNodeByName_same [OF a(1)] wl_same_single Cons.prems(2) by (auto simp: wl_same_def)
  show ?case
  proof (cases "ptr_valid p")
    case True
    then obtain b c where c: "emplace_member p TYPE_INITIAL a = Inr (b, c)" "initialise_loop ipc names c = Inr (rest, t)"
      using a(2) by auto
    then have "wl_single c" using emplace_member_single [OF sa(2) True] by blast
    from Cons.IH [OF c(2) this] show ?thesis by (auto split: if_splits)
  next
    case False
    then obtain rest' where "initialise_loop ipc names a = Inr (rest', t)" "rest = n # rest'" using a(2) by auto
    with Cons.IH [of a rest'] sa show ?thesis by (auto split: if_splits)
  qed
qed simp

lemma getMembers_names:
  assumes "getMembers ipc s = Inr (ms, t)" "wl_single s"
  shows "length (wlInitialMemberNames t) + (if wlMembers s = [] \<and> wlMembers t \<noteq> [] then 1 else 0) \<le> length (wlInitialMemberNames s)"
    and "fdMovingWindow t = fdMovingWindow s" "fdAlerts t = fdAlerts s"
proof -
  from assms(1) obtain a b c where c: "tryInitialise ipc a = Inr ((), b)" "mapS ptr_copy (watched b) b = Inr (ms, c)"
    "t = c\<lparr>dsHeld := remove1 MembersMutex (dsHeld c)\<rparr>" "wlMembers a = wlMembers s" "wlInitialMemberNames a = wlInitialMemberNames s"
    "watchlist.more a = watchlist.more s"
    unfolding getMembers_def by (force elim!: locked_InrE)
  have a: "wl_single a" using assms(2) c(4) by (simp add: wl_single_def)
  have bt: "wl_same b c" using mapS_copy_same [OF c(2)] by blast
  have l: "keeps_beyond (initialise_loop ipc names)" for names
  proof (induction names)
    case (Cons n names)
    then show ?case by (auto intro!: beyond beyond_keeps [OF keeps_lookup(6)])
  qed (simp add: keeps_beyond_iff)
  have ab: "length (wlInitialMemberNames b) + (if wlMembers a = [] \<and> wlMembers b \<noteq> [] then 1 else 0) \<le> length (wlInitialMemberNames a)
    \<and> watchlist.more b = watchlist.more a"
  proof (cases "wlInitialMemberNames a = []")
    case False
    then obtain names v where v: "initialise_loop ipc (wlInitialMemberNames a) a = Inr (names, v)"
      "b = v\<lparr>wlInitialMemberNames := names\<rparr>" using c(1) by (auto simp: tryInitialise_def)
    have "watchlist.more b = watchlist.more v" unfolding v(2) by (cases v) simp
    then show ?thesis using initialise_names [OF v(1) a] keeps_beyondD [OF l v(1)] v(2) by simp
  qed (use c(1) in \<open>auto simp: tryInitialise_def\<close>)
  have m: "watchlist.more t = watchlist.more s" using ab bt c(3,6) by (simp add: wl_same_def)
  show "fdMovingWindow t = fdMovingWindow s" "fdAlerts t = fdAlerts s" using more_alerts [OF m] by simp_all
  show "length (wlInitialMemberNames t) + (if wlMembers s = [] \<and> wlMembers t \<noteq> [] then 1 else 0) \<le> length (wlInitialMemberNames s)"
    using ab bt c(3,4,5) by (simp add: wl_same_def)
qed

text \<open>What holds in every state, and what is left to spend in it.\<close>

definition watching :: "('w, 'z) fault_detection_scheme \<Rightarrow> bool" where
  "watching s \<longleftrightarrow> wl_single s \<and> (fdMovingWindow s = [] \<or>
     (\<exists>p r b. wlMembers s = [(p, TYPE_INITIAL)] \<and> mpMember p = Some r \<and> window_for r s b))"

definition budget :: "('w, 'z) fault_detection_scheme \<Rightarrow> nat" where
  "budget s = length (fdAlerts s) + chance s + length (wlInitialMemberNames s)"

lemma watching_steady:
  assumes "steady b s t" "store_related names_kept names_kept s t" "watching s"
  shows "watching t" "b \<Longrightarrow> budget t = budget s"
proof -
  have s: "wl_single s" using assms(3) by (simp add: watching_def)
  have "window_for r s c \<Longrightarrow> window_for r t c" for r c
    using assms(1) s attr_stays_related [OF assms(2)] by (auto simp: window_for_def steady_def)
  then show "watching t" using assms(1,3) s steady_single [OF assms(1) s] unfolding watching_def steady_def by metis
  show "b \<Longrightarrow> budget t = budget s" using assms(1) s by (simp add: budget_def chance_def steady_def)
qed

text \<open>Sampling and examining the member that is watched.\<close>

lemma sample_and_detect:
  assumes "observe_member ipc q s = Inr (left, a)" "fd_detect ipc a = Inr (u, t)"
    and "wlMembers s = [(p, TYPE_INITIAL)]" "mpMember q = Some r" "mpMember p = Some r"
    and "fdMovingWindow s = [] \<or> (\<exists>b. window_for r s b)"
  shows "watching t" "budget t \<le> budget s"
proof -
  have s: "wl_single s" using assms(3,5) by (simp add: wl_single_def ptr_valid_def)
  from assms(1) obtain out v where o: "get_attributes ipc q s = Inr (out, v)" "wlMembers a = wlMembers v"
    "wlInitialMemberNames a = wlInitialMemberNames v" "fdAlerts a = fdAlerts v"
    unfolding observe_member_def by (auto split: option.splits)
  have "steady True s v" by (rule obeysD [OF steady_basic(8) o(1)])
  then have a: "wlMembers a = wlMembers s" "wlInitialMemberNames a = wlInitialMemberNames s" "fdAlerts a = fdAlerts s"
    using o(2-4) s by (simp_all add: steady_def)
  then have sa: "wl_single a" using s by (simp add: wl_single_def)
  from observe_window [OF assms(1,4,6)] obtain b where b: "window_for r a b"
    "chance_of (fdMovingWindow a) + (if cb_full b then 1 else 0) \<le> chance_of (fdMovingWindow s)"
  proof (elim disjE exE conjE)
    fix k assume "fdMovingWindow a = [(k, [])]"
    then show thesis using assms(2) by (auto simp: fd_detect_def detect_entry_def)
  qed
  note d = detect_window [OF assms(2) sa b(1)]
  have "watching a" using b(1) a(1) assms(3,5) sa by (auto simp: watching_def)
  from watching_steady(1) [OF d(1) attributes.relatedD [OF attributes.related_fd_detect assms(2)] this]
  show "watching t" .
  have t: "wlMembers t = wlMembers a" "wlInitialMemberNames t = wlInitialMemberNames a" "fdMovingWindow t = fdMovingWindow a"
    using d(1) sa by (simp_all add: steady_def)
  show "budget t \<le> budget s" using d(2) b(2) a t assms(3) by (simp add: budget_def chance_def split: if_splits)
qed

lemma detection_budget:
  assumes "fd_body ipc s = Inr (u, t)" "watching s"
  shows "watching t" "budget t \<le> budget s"
proof -
  from assms(1) obtain ms a left b c where a: "getMembers ipc s = Inr (ms, a)" "mapS (observe_member ipc) ms a = Inr (left, b)"
    and c: "fd_detect ipc b = Inr ((), c)" "forS left ptr_destroy c = Inr (u, t)" unfolding fd_body_def by auto
  have s: "wl_single s" using assms(2) by (simp add: watching_def)
  have f: "obeys (store_related names_kept names_kept) (forS left ptr_destroy)"
    by (intro attributes.related_rules attributes.related_ptr)
  note g = getMembers_single [OF a(1) s] getMembers_names [OF a(1) s]
  have w: "wlMembers s \<noteq> [] \<Longrightarrow> wlMembers a = wlMembers s" using g(1) by blast
  have "budget a \<le> budget s" using g(2-4) w assms(2) by (auto simp: budget_def chance_def watching_def)
  moreover have "watching c \<and> budget c \<le> budget a"
  proof (cases "wlMembers a = []")
    case True
    then have "ms = []" "wlMembers s = []" "fdMovingWindow a = []" using g w assms(2) by (auto simp: watched_def watching_def)
    then obtain tr where "c = a\<lparr>dsTrace := tr, fdMovingWindow := []\<rparr>" using a(2) c(1) by (auto simp: fd_detect_def)
    then show ?thesis using True \<open>fdMovingWindow a = []\<close> by (simp add: watching_def wl_single_def budget_def chance_def)
  next
    case False
    then obtain p where p: "wlMembers a = [(p, TYPE_INITIAL)]" "ptr_valid p" using g(1) by (auto simp: wl_single_def)
    then obtain r where r: "mpMember p = Some r" by (auto simp: ptr_valid_def)
    obtain q where q: "ms = [q]" "mpMember q = Some r" using g(1) p(1) r by (auto simp: watched_def)
    then obtain l where l: "observe_member ipc q a = Inr (l, b)" using a(2) by auto
    have "attr_stays d r' s \<Longrightarrow> attr_stays d r' a" for d r'
      by (rule attr_stays_obeys [OF attributes.related_getMembers a(1)])
    then have "fdMovingWindow a = [] \<or> (\<exists>b. window_for r a b)"
      using assms(2) g(3) w p(1) r by (auto simp: watching_def window_for_def)
    from sample_and_detect [OF l c(1) p(1) q(2) r this] show ?thesis by blast
  qed
  moreover have "steady True c t" by (rule obeysD [OF steady_keeps [OF destroys_all] c(2)])
  moreover have "store_related names_kept names_kept c t" by (rule attributes.relatedD [OF f c(2)])
  ultimately show "watching t" "budget t \<le> budget s" using watching_steady [of True c t] by auto
qed

section \<open>The whole program\<close>

lemma alerts_budget:
  assumes "handle_alerts ipc s = Inr (u, t)" "watching s"
  shows "watching t" "length (fdAlerts s) + budget t \<le> budget s"
proof -
  from assms(1) obtain em a b abort c ls d where a: "getEmittedAlerts s = Inr (em, a)"
    and b: "(if em = [] then returnS () else expandSubgraph ipc em) a = Inr ((), b)"
    and c: "checkAbortCirteria em b = Inr (abort, c)"
    and d: "(if abort then abort_investigation else returnS []) c = Inr (ls, d)"
    and t: "forS (map alMember (em @ ls)) ptr_destroy d = Inr (u, t)"
    unfolding handle_alerts_def by auto
  have s: "wl_single s" using assms(2) by (simp add: watching_def)
  note e = emitted_clears(1-3) [OF a] and k = keeps_all(1-3) [OF destroys_all t]
  have sa: "wl_single a" using s e(2) by (simp add: wl_single_def)
  have "steady True a b" using b obeysD [OF steady_expand] by (cases "em = []") (auto simp: steadiness.refl)
  then have f: "wlMembers b = wlMembers s" "fdMovingWindow b = fdMovingWindow s" "fdAlerts b = []"
    using e sa by (simp_all add: steady_def)
  have g: "wlMembers c = wlMembers b" "fdMovingWindow c = fdMovingWindow b" "fdAlerts c = fdAlerts b"
    using c by (auto simp: checkAbortCirteria_def Let_def split: if_splits)
  have n: "wlInitialMemberNames t = wlInitialMemberNames s" by (rule adds_noneD(2) [OF none_handle_alerts s assms(1)])
  have "handle_alerts ipc \<in> set (main_steps ipc undefined)" by (simp add: main_steps_def)
  note r = attributes.relatedD [OF attributes.related_main_step [OF this] assms(1)]
  show "watching t" "length (fdAlerts s) + budget t \<le> budget s"
  proof (atomize (full), cases abort)
    case True
    then have "abort_investigation c = Inr (ls, d)" using d by simp
    from abort_clears(1-3) [OF this] k n
    show "watching t \<and> length (fdAlerts s) + budget t \<le> budget s"
      by (simp add: watching_def wl_single_def budget_def chance_def)
  next
    case False
    then have m: "wlMembers t = wlMembers s" "fdMovingWindow t = fdMovingWindow s" "fdAlerts t = []"
      using d k f g by simp_all
    then have "steady False s t" using n by (simp add: steady_def)
    from watching_steady(1) [OF this r assms(2)] m n
    show "watching t \<and> length (fdAlerts s) + budget t \<le> budget s" by (simp add: budget_def chance_def)
  qed
qed

text \<open>After the iterations with the numbers of alerts in \<open>before\<close>, at most \<open>n\<close> alerts more.\<close>

definition affordable :: "nat list \<Rightarrow> nat \<Rightarrow> ('w, 'z) dynamic_subgraph_scheme \<Rightarrow> bool" where
  "affordable before n s \<longleftrightarrow> watching s \<and> (\<exists>ns. has_seen (before @ ns) s \<and> sum_list ns + budget s \<le> n)"

lemma affordable_turn:
  assumes "take_turn ipc js x s = Inr (u, t)" "affordable before n s"
  shows "affordable before n t"
proof -
  obtain ns where s: "watching s" "has_seen (before @ ns) s" "sum_list ns + budget s \<le> n"
    using assms(2) by (auto simp: affordable_def)
  consider "x = DetectionTurn" | "x = MainTurn 2" | "x \<noteq> DetectionTurn" "x \<noteq> MainTurn 2" by blast
  then show ?thesis
  proof cases
    case 1
    then have "fd_body ipc s = Inr (u, t)" using assms(1) by simp
    from detection_budget [OF this s(1)] counted_has_seen [OF obeysD [OF counted_fd_body this] s(2)] s(3)
    show ?thesis unfolding affordable_def by (intro conjI exI [of _ ns]) auto
  next
    case 2
    then have h: "handle_alerts ipc s = Inr (u, t)" using assms(1) by (simp add: main_steps_def)
    have "sum_list (ns @ [length (fdAlerts s)]) + budget t \<le> n" using alerts_budget(2) [OF h s(1)] s(3) by simp
    moreover have "has_seen (before @ ns @ [length (fdAlerts s)]) t" using handle_alerts_count(1) [OF s(2) h] by simp
    ultimately show ?thesis using alerts_budget(1) [OF h s(1)] unfolding affordable_def by blast
  next
    case 3
    have "steady True s t" by (rule obeysD [OF steady_turn [OF 3] assms(1)])
    note w = watching_steady [OF this attributes.relatedD [OF attributes.related_turn assms(1)] s(1)]
    have "has_seen (before @ ns) t" by (rule counted_has_seen [OF obeysD [OF counted_turn [OF 3(2)] assms(1)] s(2)])
    then show ?thesis using w s(3) unfolding affordable_def by auto
  qed
qed

lemma affordable_schedule:
  assumes "run_schedule ipc js schedule s = Inr (u, t)" "watching s" "has_seen before s"
  shows "affordable before (budget s) t"
proof -
  have "affordable before (budget s) s"
    using assms(2,3) unfolding affordable_def by (intro conjI exI [of _ "[]"]) simp_all
  then show ?thesis using schedule_invariant [OF assms(1), of "affordable before (budget s)"] affordable_turn by blast
qed

lemma system_start:
  assumes "make_system ipc connect js config w = Inr s"
  shows "watching s" "has_seen [] s" "budget s = length (wlInitialMemberNames s)"
proof -
  from assms obtain ds where "dsg_new ipc js config ds = Inr s" by (auto simp: make_system_def)
  from dsg_new_fields(1-3,5) [OF this]
  show "watching s" "has_seen [] s" "budget s = length (wlInitialMemberNames s)"
    by (simp_all add: watching_def wl_single_def budget_def chance_def)
qed

lemma system_budget:
  assumes "make_system ipc connect js config w = Inr s" "run_schedule ipc js' schedule s = Inr ((), t)"
  obtains ns where "watching t" "has_seen ns t" "sum_list ns + budget t \<le> length (wlInitialMemberNames s)"
  using affordable_schedule [OF assms(2) system_start(1,2) [OF assms(1)]] system_start(3) [OF assms(1)]
  by (auto simp: affordable_def)

text \<open>C5: Every configured name is good for at most one alert, however long the program runs and however its
  threads take turns: the alerts counted by the main loop (the buffer keeps the number of every
  iteration) and those still waiting are no more than the configured names. As an investigation
  goes on only while the mean number of alerts is over the threshold, it can only be in the first
  iterations of the main loop, fewer than the names divided by the threshold.\<close>

theorem one_alert_per_name:
  assumes "make_system ipc connect js config w = Inr s" "run_schedule ipc js' schedule s = Inr ((), t)"
  shows "sum_list (mBuffer (sgLastNrAlerts t)) + real (length (fdAlerts t)) \<le> real (length (wlInitialMemberNames s))
    \<and> (sgSomethingIsGoingOn t \<longrightarrow>
        sgAbortionCriteriaThreshold t * real (length (mBuffer (sgLastNrAlerts t))) < real (length (wlInitialMemberNames s)))"
proof -
  let ?n = "length (wlInitialMemberNames s)"
  obtain ns where ns: "has_seen ns t" "sum_list ns + budget t \<le> ?n" by (rule system_budget [OF assms])
  have b: "mBuffer (sgLastNrAlerts t) = rev (map real ns)" using ns(1) by (simp add: has_seen_def)
  have sum: "sum_list (map real ns) = real (sum_list ns)" by (induction ns) simp_all
  have "real (sum_list ns + length (fdAlerts t)) \<le> real ?n" using ns(2) by (simp add: budget_def)
  then have total: "sum_list (mBuffer (sgLastNrAlerts t)) + real (length (fdAlerts t)) \<le> real ?n"
    using b sum by (simp add: sum_list_rev)
  moreover have "sgAbortionCriteriaThreshold t * real (length (mBuffer (sgLastNrAlerts t))) < real ?n"
    if "sgSomethingIsGoingOn t"
  proof -
    have "ns \<noteq> []" "sgAbortionCriteriaThreshold t < sum_list (map real ns) / real (length ns)"
      using that ns(1) by (auto simp: has_seen_def over_def mean_of_def)
    then have "sgAbortionCriteriaThreshold t * real (length ns) < sum_list (map real ns)"
      by (simp add: pos_less_divide_eq)
    then show ?thesis using total b by (simp add: sum_list_rev)
  qed
  ultimately show ?thesis by blast
qed

text \<open>In the run with one dead node its one alert is spent: the investigation that follows can go on only while
  half the number of iterations is less than one.\<close>

lemma one_alert_per_name_witness:
  "\<exists>s0 s. make_system dead_ipc (\<lambda>_ w. (True, w)) dead_js demo_watching peer_init = Inr s0
    \<and> run_schedule dead_ipc demo_js [DetectionTurn, DetectionTurn, MainTurn 2] s0 = Inr ((), s)
    \<and> sgSomethingIsGoingOn s
    \<and> sgAbortionCriteriaThreshold s * real (length (mBuffer (sgLastNrAlerts s))) < real (length (wlInitialMemberNames s0))"
proof -
  obtain s0 s t u where r: "make_system dead_ipc (\<lambda>_ w. (True, w)) dead_js demo_watching peer_init = Inr s0"
    "0 \<le> sgAbortionCriteriaThreshold s0"
    "run_schedule dead_ipc demo_js [DetectionTurn, DetectionTurn, MainTurn 2] s0 = Inr ((), s)"
    "wlInitialMemberNames s = []" "wlMembers s = [(the_node, TYPE_INITIAL)]" "sgSomethingIsGoingOn s"
    "take_turn dead_ipc demo_js (MainTurn 2) s = Inr ((), t)" "\<not> sgSomethingIsGoingOn t"
    "run_schedule dead_ipc demo_js [DetectionTurn] t = Inr ((), u)" using dead_system by metis
  from one_alert_per_name [OF r(1,3)] show ?thesis using r(1,3,6) by blast
qed



end
