(* ===== verification/Dead_Member.thy ===== *)
theory Dead_Member
  imports Alert_Budget
begin

text \<open>
  What the program is for, from end to end: a watched node that is found dead when its window is full is
  reported by the fault detection, the alert waits for the main loop whatever the other threads do, and
  the main loop makes the node a vertex of the subgraph and asks for a new picture.
\<close>

section \<open>A dead node\<close>

lemma dead_node_iff:
  "dead_node p s = Inr True \<longleftrightarrow> (\<exists>a e. mpMember p = Some (NodeRef a) \<and> cell (stNodes s) a = Some e
    \<and> \<not> mIsTopic (elInstance e) \<and> \<not> mAlive (elInstance e))"
  by (auto simp: dead_node_def ptr_isTopic_def asNode_def deref_def split: option.splits member_ref.splits if_splits)

lemma dead_node_frame [simp]:
  "dead_node p (s\<lparr>dsHeld := h\<rparr>) = dead_node p s" "dead_node p (s\<lparr>dsTrace := tr\<rparr>) = dead_node p s"
  for s :: "('w, 'z) data_store_scheme"
  by (simp_all add: dead_node_def ptr_isTopic_def asNode_def cong: if_cong option.case_cong member_ref.case_cong)

lemma copies_dead: "mapS ptr_copy ps s = Inr (qs, t) \<Longrightarrow> dead_node p t = dead_node p s"
proof (induction ps arbitrary: s qs)
  case (Cons q ps)
  then obtain r a rs where a: "ptr_copy q s = Inr (r, a)" "mapS ptr_copy ps a = Inr (rs, t)" by auto
  show ?case using Cons.IH [OF a(2)] ptr_copy_reads(1) [OF a(1)] by simp
qed simp

lemma getMembers_dead:
  assumes "getMembers ipc s = Inr (ms, t)" "wlInitialMemberNames s = []"
  shows "dead_node p t = dead_node p s"
  using assms unfolding getMembers_def
  by (auto elim!: locked_InrE simp: tryInitialise_def dest!: copies_dead [where p = p])

lemma get_attributes_dead:
  assumes "get_attributes ipc q s = Inr (out, t)" "dead_node p s = Inr True"
  shows "dead_node p t = Inr True"
proof -
  obtain a e where e: "mpMember p = Some (NodeRef a)" "cell (stNodes s) a = Some e" "\<not> mIsTopic (elInstance e)"
    "\<not> mAlive (elInstance e)" using assms(2) by (auto simp: dead_node_iff)
  obtain r where "mpMember q = Some r" using assms(1) by (auto simp: get_attributes_def split: option.splits)
  then show ?thesis
  proof (cases r)
    case (NodeRef c)
    then obtain x m w where x: "cell (stNodes s) c = Some x" "getAttributes ipc (elInstance x) (dsWorld s) = Inr (out, m, w)"
      "stNodes t = set_cell c (Some (x\<lparr>elInstance := m\<rparr>)) (stNodes s)"
      using assms(1) \<open>mpMember q = Some r\<close> by (auto simp: get_attributes_def deref_Inr on_instance_def modify_def put_nodes_def)
    obtain as where "m = (elInstance x)\<lparr>mmAttributes := as\<rparr>" using x(2) by (auto simp: getAttributes_def)
    then have "mIsTopic m = mIsTopic (elInstance x)" "mAlive m = mAlive (elInstance x)" by simp_all
    then show ?thesis using x e cell_Some_less [OF e(2)] unfolding dead_node_iff by (cases "a = c") auto
  next
    case (TopicRef c)
    then have "stNodes t = stNodes s"
      using assms(1) \<open>mpMember q = Some r\<close> by (auto simp: get_attributes_def put_topics_def)
    then show ?thesis using e unfolding dead_node_iff by auto
  qed
qed

section \<open>The round that fills the window\<close>

lemma updates_head_exactly:
  "updateAttrWindow ((d0, b0) # w0) m = Inr w \<Longrightarrow> distinct (map fst m) \<Longrightarrow> \<exists>b1 w1. w = (d0, b1) # w1
    \<and> mMaxSize b1 = mMaxSize b0 \<and> length (mBuffer b1) = length (mBuffer b0) + (if d0 \<in> fst ` set m then 1 else 0)"
  unfolding updateAttrWindow_def
proof (induction m arbitrary: b0 w0)
  case (Cons x m)
  obtain d v where x: "x = (d, v)" by force
  from Cons.prems obtain w' where w': "update_entry (d, v) ((d0, b0) # w0) = Inr w'" "foldR update_entry m w' = Inr w"
    by (auto simp: x)
  from update_head [OF w'(1)] obtain b1 w1 where b1: "w' = (d0, b1) # w1" "mMaxSize b1 = mMaxSize b0"
    "length (mBuffer b1) = length (mBuffer b0) + (if d = d0 then 1 else 0)" by blast
  from Cons.IH [of b1 w1] w'(2) b1 Cons.prems(2) show ?case by (auto simp: x split: if_splits)
qed auto

lemma get_attributes_distinct: "get_attributes ipc p s = Inr (out, t) \<Longrightarrow> distinct (map fst out)"
proof -
  assume g: "get_attributes ipc p s = Inr (out, t)"
  have ok: "map_ok string_less o'" if "getAttributes ipc m w = Inr (o', m', w')" for m :: "'c member_scheme" and o' m' and w w' :: 'a
    using getAttributes_values [OF that] by blast
  have "map_ok string_less out" using g by (auto simp: get_attributes_def split: option.splits member_ref.splits dest!: ok)
  then show "distinct (map fst out)" by (rule strmap.distinct_keys)
qed

lemma observe_fills:
  assumes "observe_member ipc q s = Inr (left, t)" "mpMember q = Some r" "fdMovingWindow s = [(k, (d, b) # window)]"
    and "ptr_valid k" "attr_stays d r s" "dead_node p s = Inr True"
  shows "\<exists>b1 w1. fdMovingWindow t = [(k, (d, b1) # w1)] \<and> mMaxSize b1 = mMaxSize b
      \<and> length (mBuffer b1) = Suc (length (mBuffer b))"
    and "fdAlerts t = fdAlerts s" "dead_node p t = Inr True"
proof -
  from assms(1) obtain out a where a: "get_attributes ipc q s = Inr (out, a)"
    and b: "bindS (touch MovingWindow) (\<lambda>_ s. case map_find ptr_less q (fdMovingWindow s) of
       None \<Rightarrow> bindR (createAttrWindow (fdMovingWindowSize s) out) (\<lambda>window.
         Inr (snd (ptr_move q),
              s\<lparr>fdMovingWindow := fst (map_emplace ptr_less (fst (ptr_move q)) window (fdMovingWindow s))\<rparr>))
     | Some window \<Rightarrow> bindR (updateAttrWindow window out) (\<lambda>window'.
         Inr (q, s\<lparr>fdMovingWindow := map_modify ptr_less q (\<lambda>_. window') (fdMovingWindow s)\<rparr>))) a = Inr (left, t)"
    unfolding observe_member_def by auto
  have wa: "fdMovingWindow a = fdMovingWindow s" "fdAlerts a = fdAlerts s"
    using more_alerts [OF keeps_watchlist [OF keeps_get_attributes a]] by simp_all
  have "ptr_valid q" using assms(2) by (simp add: ptr_valid_def)
  then obtain w tr where w: "updateAttrWindow ((d, b) # window) out = Inr w"
    "t = a\<lparr>dsTrace := tr, fdMovingWindow := [(k, w)]\<rparr>" using b wa(1) assms(3,4) by auto
  have "d \<in> fst ` set out" by (rule get_attributes_names(2) [OF a assms(2,5)])
  then show "\<exists>b1 w1. fdMovingWindow t = [(k, (d, b1) # w1)] \<and> mMaxSize b1 = mMaxSize b
      \<and> length (mBuffer b1) = Suc (length (mBuffer b))"
    using updates_head_exactly [OF w(1) get_attributes_distinct [OF a]] w(2) by auto
  show "fdAlerts t = fdAlerts s" using w(2) wa(2) by simp
  have "dead_node p (a\<lparr>dsTrace := tr, fdMovingWindow := x\<rparr>) = dead_node p a" for x
    by (simp add: dead_node_def ptr_isTopic_def asNode_def cong: if_cong option.case_cong member_ref.case_cong)
  then show "dead_node p t = Inr True" using w(2) get_attributes_dead [OF a assms(6)] by simp
qed

lemma fd_detect_reports:
  assumes "fd_detect ipc s = Inr (u, t)" "fdMovingWindow s = [(k, (d, b) # window)]" "cb_full b" "dead_node k s = Inr True"
  shows "\<exists>alert. fdAlerts t = fdAlerts s @ [alert] \<and> mpMember (alMember alert) = mpMember k \<and> alAffected alert = []"
proof -
  let ?s = "s\<lparr>dsTrace := dsTrace s @ [Touched MovingWindow (dsHeld s)]\<rparr>"
  from assms(1,2) obtain stays a where a: "detect_entry ipc (k, (d, b) # window) ?s = Inr (stays, a)"
    "fdAlerts t = fdAlerts a" unfolding fd_detect_def by auto
  from detect_entry_alerts [OF a(1) assms(3)] obtain fault alert v where
    f: "detectFaults ipc k ((d, b) # window) ?s = Inr ((fault, alert), v)" "fdAlerts a = fdAlerts s @ (if fault then [alert] else [])"
    by auto
  from detectFaults_result [OF f(1)] assms(4) show ?thesis using f(2) a(2) by auto
qed

lemma detection_reports:
  assumes "fd_body ipc s = Inr (u, t)" "watching s" "wlInitialMemberNames s = []"
    and "wlMembers s = [(p, TYPE_INITIAL)]" "dead_node p s = Inr True"
    and "fdMovingWindow s = [(k, (d, b) # window)]" "mpMember k = mpMember p" "Suc (length (mBuffer b)) = mMaxSize b"
  shows "\<exists>alert. fdAlerts t = fdAlerts s @ [alert] \<and> mpMember (alMember alert) = mpMember p \<and> alAffected alert = []"
proof -
  from assms(1) obtain ms a left x c where a: "getMembers ipc s = Inr (ms, a)" "mapS (observe_member ipc) ms a = Inr (left, x)"
    and c: "fd_detect ipc x = Inr ((), c)" "forS left ptr_destroy c = Inr (u, t)" unfolding fd_body_def by auto
  have s: "wl_single s" using assms(2) by (simp add: watching_def)
  note g = getMembers_single [OF a(1) s] getMembers_names(2,3) [OF a(1) s]
  obtain r where r: "mpMember p = Some r" using assms(5) by (auto simp: dead_node_iff)
  obtain q where q: "ms = [q]" "mpMember q = Some r" using g(1) assms(4) r by (auto simp: watched_def)
  then obtain l where l: "observe_member ipc q a = Inr (l, x)" using a(2) by auto
  have k: "ptr_valid k" "attr_stays d r s" using assms(2,4,6) r by (auto simp: watching_def window_for_def)
  have w: "fdMovingWindow a = [(k, (d, b) # window)]" using g(2) assms(6) by simp
  have "attr_stays d r a" by (rule attr_stays_obeys [OF attributes.related_getMembers a(1) k(2)])
  note o = observe_fills [OF l q(2) w k(1) this]
  have "dead_node k a = Inr True"
    using getMembers_dead [OF a(1) assms(3), of k] dead_node_member [OF assms(7), of s] assms(5) by simp
  from o(1) [OF this] o(2,3) [OF this] assms(8) obtain b1 w1 where b1: "fdMovingWindow x = [(k, (d, b1) # w1)]" "cb_full b1"
    "fdAlerts x = fdAlerts a" "dead_node k x = Inr True" by (auto simp: cb_full_def)
  from fd_detect_reports [OF c(1) b1(1,2,4)] more_alerts(1) [OF keeps_watchlist [OF destroys_all c(2)]] b1(3) g(3) assms(7)
  show ?thesis by auto
qed

section \<open>The alert waits\<close>

definition alerts_grow :: "('w, 'z) fault_detection_scheme \<Rightarrow> ('w, 'z) fault_detection_scheme \<Rightarrow> bool" where
  "alerts_grow s t \<longleftrightarrow> set (fdAlerts s) \<subseteq> set (fdAlerts t)"

interpretation waiting: frame alerts_grow
  by unfold_locales (auto simp: alerts_grow_def)

lemma waiting_keeps: "keeps_more m \<Longrightarrow> obeys alerts_grow m"
  by (rule obeysI) (auto simp: alerts_grow_def dest!: keeps_watchlist more_alerts(1))

lemma waiting_fd_body: "wl_single s \<Longrightarrow> fd_body ipc s = Inr (u, t) \<Longrightarrow> alerts_grow s t"
proof -
  have o: "obeys alerts_grow (observe_member ipc p)" for p
  proof (rule obeysI)
    fix s l t assume "observe_member ipc p s = Inr (l, t)"
    then obtain out a where a: "get_attributes ipc p s = Inr (out, a)" "fdAlerts t = fdAlerts a"
      unfolding observe_member_def by (auto split: option.splits)
    from more_alerts(1) [OF keeps_watchlist [OF keeps_get_attributes a(1)]] a(2) show "alerts_grow s t" by (simp add: alerts_grow_def)
  qed
  have e: "alerts_grow s t" if r: "detect_entry ipc e s = Inr (stays, t)" for e s stays t
  proof -
    obtain member window where "e = (member, window)" by force
    with r obtain d b w where w: "e = (member, (d, b) # w)" by (auto simp: detect_entry_def split: list.splits)
    show ?thesis
    proof (cases "cb_full b")
      case True
      then show ?thesis using detect_entry_alerts [of ipc member d b w s stays t] r w by (auto simp: alerts_grow_def)
    qed (use r w in \<open>auto simp: detect_entry_def alerts_grow_def\<close>)
  qed
  have e': "obeys alerts_grow (detect_entry ipc e)" for e by (rule obeysI) (rule e)
  have "obeys alerts_grow (detect_entries ipc es)" for es 
  proof (induction es)
    case Nil
    show ?case by (rule obeysI) (simp add: waiting.refl)
  next
    case (Cons e es)
    then show ?case by (simp only: detect_entries.simps) (intro waiting.rules e')
  qed
  then have "obeys alerts_grow (\<lambda>s. detect_entries ipc (fdMovingWindow s) s)" by (rule waiting.apply_state)
  moreover have "obeys alerts_grow (touch c)" for c by (rule waiting_keeps) (rule keeps)
  moreover have "obeys alerts_grow (\<lambda>s. Inr ((), s\<lparr>fdMovingWindow := w\<rparr>))" for w
    by (rule obeysI) (auto simp: alerts_grow_def)
  ultimately have d: "obeys alerts_grow (fd_detect ipc)" unfolding fd_detect_def by (intro waiting.rules)
  assume "wl_single s" "fd_body ipc s = Inr (u, t)"
  then obtain ms a left b c where a: "getMembers ipc s = Inr (ms, a)" "mapS (observe_member ipc) ms a = Inr (left, b)"
    and c: "fd_detect ipc b = Inr ((), c)" "forS left ptr_destroy c = Inr (u, t)" unfolding fd_body_def by auto
  have m: "obeys alerts_grow (mapS (observe_member ipc) ms)" by (intro waiting.rules o)
  have "alerts_grow s a" using getMembers_names(3) [OF a(1) \<open>wl_single s\<close>] by (simp add: alerts_grow_def)
  moreover have "alerts_grow a b" using obeysD [OF m] a(2) by blast
  moreover have "alerts_grow b c" by (rule obeysD [OF d c(1)])
  moreover have "alerts_grow c t" by (rule obeysD [OF waiting_keeps [OF destroys_all] c(2)])
  ultimately show "alerts_grow s t" by (meson waiting.trans)
qed

lemma waiting_turn:
  assumes "x \<noteq> MainTurn 2" "take_turn ipc js x s = Inr (u, t)" "wl_single s"
  shows "alerts_grow s t"
proof (cases "x = DetectionTurn")
  case True
  then show ?thesis using waiting_fd_body [OF assms(3)] assms(2) by simp
next
  case False
  from obeysD [OF steady_turn [OF False assms(1)] assms(2), of True] assms(3) show ?thesis
    by (simp add: steady_def alerts_grow_def)
qed

lemma waiting_schedule:
  assumes "run_schedule ipc js schedule s = Inr (u, t)" "MainTurn 2 \<notin> set schedule" "wl_single s" "sgSomethingIsGoingOn s = g"
  shows "alerts_grow s t \<and> wl_single t \<and> sgSomethingIsGoingOn t = g"
  using assms
proof (induction schedule arbitrary: s)
  case Nil
  then show ?case by (simp add: run_schedule_def waiting.refl)
next
  case (Cons x schedule)
  then obtain a where a: "take_turn ipc js x s = Inr ((), a)" "run_schedule ipc js schedule a = Inr (u, t)"
    by (auto simp: run_schedule_def)
  have x: "x \<noteq> MainTurn 2" using Cons.prems(2) by auto
  have "sgSomethingIsGoingOn a = g" using obeysD [OF counted_turn [OF x] a(1)] Cons.prems(4) by (simp add: same_count_def)
  with Cons.IH [OF a(2)] Cons.prems(2,3) turn_single [OF a(1)] waiting_turn [OF x a(1)]
  show ?case by (auto intro: waiting.trans)
qed

section \<open>The main loop takes the alert\<close>

abbreviation vertex_members :: "('w, 'z) dynamic_subgraph_scheme \<Rightarrow> member_ref option set" where
  "vertex_members s \<equiv> mpMember ` set (mVertices (sgSAG s))"

lemma vertices_beyond: "keeps_beyond m \<Longrightarrow> m s = Inr (x, t) \<Longrightarrow> sgSAG t = sgSAG s"
  by (auto dest: keeps_beyondD more_subgraph)

lemma copied_members:
  "mapS copy_alert as s = Inr (out, t) \<Longrightarrow> map (mpMember \<circ> alMember) out = map (mpMember \<circ> alMember) as"
proof (induction as arbitrary: s out)
  case (Cons a as)
  then obtain a' b out' where p: "copy_alert a s = Inr (a', b)" "mapS copy_alert as b = Inr (out', t)" "out = a' # out'" by auto
  from p(1) obtain q where q: "ptr_copy (alMember a) s = Inr (q, b)" "a' = a\<lparr>alMember := q\<rparr>" by (auto simp: copy_alert_def)
  show ?case using Cons.IH [OF p(2)] ptr_copy_reads(2) [OF q(1)] q(2) p(3) by simp
qed simp

lemma emitted_members:
  assumes "getEmittedAlerts s = Inr (as, t)"
  shows "(mpMember \<circ> alMember) ` set as = (mpMember \<circ> alMember) ` set (fdAlerts s)"
proof -
  from assms obtain t1 x a ys b y c where "touch AlertList (s\<lparr>dsTrace := dsTrace s @ [Locked AlertMutex (dsHeld s)],
      dsHeld := AlertMutex # dsHeld s\<rparr>) = Inr (x, a)" "mapS copy_alert (fdAlerts a) a = Inr (ys, b)"
      "Inr (ys, c\<lparr>fdAlerts := []\<rparr>) = Inr (as, t1)"
    unfolding getEmittedAlerts_def by (elim locked_InrE bindS_InrE) blast
  then have "mapS copy_alert (fdAlerts s) a = Inr (as, b)" by auto
  from copied_members [OF this] show ?thesis by (metis image_set)
qed

lemma sag_add_joins:
  assumes "sag_add p s = Inr (added, t)"
  shows "vertex_members t = insert (mpMember p) (vertex_members s)"
proof -
  let ?u = "s\<lparr>dsHeld := VerticesMutex # dsHeld s,
    dsTrace := dsTrace s @ [Locked VerticesMutex (dsHeld s), Touched Vertices (VerticesMutex # dsHeld s)]\<rparr>"
  from assms obtain g v where v: "graph_add p (sgSAG s) ?u = Inr ((added, g), v)"
    "t = v\<lparr>sgSAG := g, dsHeld := remove1 VerticesMutex (dsHeld v)\<rparr>"
    unfolding sag_add_def by (auto elim!: locked_InrE)
  let ?it = "find_if (\<lambda>w. ptr_eq w p) (mVertices (sgSAG s))"
  show ?thesis
  proof (cases "?it = length (mVertices (sgSAG s))")
    case True
    then obtain q where "ptr_copy p ?u = Inr (q, v)" "g = (sgSAG s)\<lparr>mVertices := mVertices (sgSAG s) @ [q]\<rparr>"
      using v(1) by (auto simp: graph_add_def Let_def)
    then show ?thesis using ptr_copy_reads(2) v(2) by fastforce
  next
    case False
    then have "?it < length (mVertices (sgSAG s))" by (rule find_if_found)
    then have "\<exists>w\<in>set (mVertices (sgSAG s)). ptr_eq w p" by (simp add: find_if_less_iff)
    moreover have "g = sgSAG s" using False v(1) by (simp add: graph_add_def Let_def)
    ultimately show ?thesis using v(2) by (auto simp: ptr_eq_def image_iff intro: sym)
  qed
qed

lemma expand_joins:
  "forS as (expand_by ipc) s = Inr (u, t) \<Longrightarrow> (mpMember \<circ> alMember) ` set as \<union> vertex_members s \<subseteq> vertex_members t"
proof (induction as arbitrary: s)
  case (Cons a as)
  from Cons.prems obtain v where v: "expand_by ipc a s = Inr ((), v)" "forS as (expand_by ipc) v = Inr (u, t)" by auto
  from v(1) obtain added x where x: "sag_add (alMember a) s = Inr (added, x)"
    "(if \<not> added then returnS () else bindS (sag_incoming (alMember a)) (\<lambda>incoming.
          forS incoming (\<lambda>m. addMember_proxy ipc m TYPE_NORMAL))) x = Inr ((), v)"
    unfolding expand_by_def by auto
  have "keeps_beyond (bindS (sag_incoming (alMember a)) (\<lambda>incoming. forS incoming (\<lambda>m. addMember_proxy ipc m TYPE_NORMAL)))"
    unfolding sag_incoming_def by (intro beyond)
  from vertices_beyond [OF this, of x "()" v] have "sgSAG v = sgSAG x" using x(2) by (cases added) auto
  with sag_add_joins [OF x(1)] Cons.IH [OF v(2)] show ?case by auto
qed simp

lemma handle_alerts_joins:
  assumes "has_seen ns s" "handle_alerts ipc s = Inr (u, t)" "fdAlerts s \<noteq> []"
    and "\<not> (sgSomethingIsGoingOn s \<and> \<not> sgSomethingIsGoingOn t)"
  shows "(mpMember \<circ> alMember) ` set (fdAlerts s) \<subseteq> vertex_members t \<and> mUpdateVisualisation (sgSAG t)"
proof -
  from assms(2) obtain em a b abort c ls d where a: "getEmittedAlerts s = Inr (em, a)"
    and b: "(if em = [] then returnS () else expandSubgraph ipc em) a = Inr ((), b)"
    and c: "checkAbortCirteria em b = Inr (abort, c)"
    and d: "(if abort then abort_investigation else returnS []) c = Inr (ls, d)"
    and t: "forS (map alMember (em @ ls)) ptr_destroy d = Inr (u, t)"
    unfolding handle_alerts_def by auto
  have "em \<noteq> []" using emitted_clears(5) [OF a] assms(3) by auto
  then obtain v where v: "forS em (expand_by ipc) a = Inr ((), v)" "b = v\<lparr>sgSAG := graph_updateVisualisation (sgSAG v)\<rparr>"
    using b unfolding expandSubgraph_def sag_request_drawing_def by auto
  have joined: "(mpMember \<circ> alMember) ` set (fdAlerts s) \<subseteq> vertex_members b" "mUpdateVisualisation (sgSAG b)"
    using expand_joins [OF v(1)] emitted_members [OF a] v(2) by (auto simp: graph_updateVisualisation_def)
  have "same_count s a" by (rule obeysD [OF counted_alerts(1) a])
  moreover have "same_count a b" using b obeysD [OF counted_expand] by (auto split: if_splits)
  ultimately have going: "sgSomethingIsGoingOn b = sgSomethingIsGoingOn s" by (simp add: same_count_def)
  have "same_count d t" by (rule obeysD [OF counted_keeps [OF destroys_all] t])
  then have "\<not> abort"
    using c d going assms(4) abort_clears(5) [of c ls d]
    by (auto simp: checkAbortCirteria_def Let_def same_count_def split: if_splits)
  moreover have "sgSAG c = sgSAG b" using c by (auto simp: checkAbortCirteria_def Let_def split: if_splits)
  ultimately have "sgSAG t = sgSAG b" using d keeps_all(4) [OF destroys_all t] by simp
  then show ?thesis using joined by simp
qed

section \<open>From the fault to the picture\<close>

text \<open>C3: A fault becomes part of the subgraph. If the node that is watched is dead in the round of the fault
  detection in which its window gets as many samples as configured, and all configured names are
  resolved, then after that round, any turns of the threads (also further changes and failures of the
  world) and the next end of an iteration of the main loop the node is a vertex of the subgraph and a
  new picture is asked for, unless this very iteration stops an investigation.\<close>

theorem dead_member_joins_subgraph:
  assumes "make_system ipc connect js config w = Inr s0" "run_schedule ipc js' before s0 = Inr ((), s)"
    and "wlInitialMemberNames s = []" "wlMembers s = [(p, TYPE_INITIAL)]" "dead_node p s = Inr True"
    and "fdMovingWindow s = [(k, (d, b) # window)]" "mpMember k = mpMember p" "Suc (length (mBuffer b)) = mMaxSize b"
    and "MainTurn 2 \<notin> set between" "run_schedule ipc js' (DetectionTurn # between @ [MainTurn 2]) s = Inr ((), t)"
    and "\<not> (sgSomethingIsGoingOn s \<and> \<not> sgSomethingIsGoingOn t)"
  shows "mpMember p \<in> mpMember ` set (mVertices (sgSAG t)) \<and> mUpdateVisualisation (sgSAG t)"
proof -
  obtain ns where s: "watching s" "has_seen ns s" by (rule system_budget [OF assms(1,2)])
  from assms(10) obtain a where a: "fd_body ipc s = Inr ((), a)"
    "run_schedule ipc js' (between @ [MainTurn 2]) a = Inr ((), t)" by (auto simp: run_schedule_Cons)
  from a(2) obtain c where c: "run_schedule ipc js' between a = Inr ((), c)" "handle_alerts ipc c = Inr ((), t)"
    by (auto simp: run_schedule_append run_schedule_one main_steps_def)
  from detection_reports [OF a(1) s(1) assms(3-8)] obtain alert where
    alert: "alert \<in> set (fdAlerts a)" "mpMember (alMember alert) = mpMember p" by force
  have "same_count s a" by (rule obeysD [OF counted_fd_body a(1)])
  then have "sgSomethingIsGoingOn a = sgSomethingIsGoingOn s" by (simp add: same_count_def)
  moreover have "wl_single a" using detection_budget(1) [OF a(1) s(1)] by (simp add: watching_def)
  ultimately have w: "alerts_grow a c" "sgSomethingIsGoingOn c = sgSomethingIsGoingOn s"
    using waiting_schedule [OF c(1) assms(9)] by blast+
  then have "alert \<in> set (fdAlerts c)" using alert(1) by (auto simp: alerts_grow_def)
  moreover obtain ms where "has_seen ms c"
  proof -
    have "run_schedule ipc js' (before @ DetectionTurn # between) s0 = Inr ((), c)"
      using assms(2) a(1) c(1) by (simp add: run_schedule_append run_schedule_Cons)
    from system_budget [OF assms(1) this] that show thesis by metis
  qed
  ultimately show ?thesis using handle_alerts_joins [OF _ c(2)] w(2) assms(11) alert(2) by fastforce
qed

lemma dead_member_joins_subgraph_witness:
  "\<exists>s0 s t. make_system dead_ipc (\<lambda>_ w. (True, w)) dead_js demo_watching peer_init = Inr s0
    \<and> run_schedule dead_ipc demo_js [DetectionTurn] s0 = Inr ((), s)
    \<and> run_schedule dead_ipc demo_js (DetectionTurn # [] @ [MainTurn 2]) s = Inr ((), t)
    \<and> Some (NodeRef 0) \<in> mpMember ` set (mVertices (sgSAG t))"
proof -
  from dead_started obtain s0 where s0: "make_system dead_ipc (\<lambda>_ w. (True, w)) dead_js demo_watching peer_init = Inr s0"
    "stNodes s0 = dll_new" "stTopics s0 = dll_new" "dsHeld s0 = []" "wlMembers s0 = []" "fdAlerts s0 = []" "wlInitialMemberNames s0 = [''n'']"
    "fdMovingWindow s0 = []" "fdMovingWindowSize s0 = 2" "sgSAG s0 = graph_new" "\<not> sgSomethingIsGoingOn s0"
    "sgAbortionCriteriaThreshold s0 = 1 / 2" "cb_new 2 = Inr (sgLastNrAlerts s0)" by blast
  from dead_first [OF s0(2-9)] obtain a where a: "fd_body dead_ipc s0 = Inr ((), a)" "sampled_node 2 [1] a" "fdAlerts a = []"
    "sgSAG a = graph_new" using s0(10) by auto
  from dead_second [OF a(2,3)] obtain b where b: "fd_body dead_ipc a = Inr ((), b)" "sampled_node 3 [1, 1] b"
    "map alMember (fdAlerts b) = [the_node]" "sgSAG b = graph_new" using a(4) by auto
  have "same_count s0 b" "same_count s0 a" using obeysD [OF counted_fd_body] a(1) b(1) counting.trans by blast+
  then have c: "sgLastNrAlerts b = \<lparr>mMaxSize = 2, mBuffer = [], mCurrent = 0\<rparr>" "sgAbortionCriteriaThreshold b = 1 / 2"
    "\<not> sgSomethingIsGoingOn b" "\<not> sgSomethingIsGoingOn a" using s0(11-13) by (auto simp: same_count_def cb_new_def)
  from dead_third [OF b(2-4) c(1-3)] obtain t where t: "handle_alerts dead_ipc b = Inr ((), t)" by blast
  have r: "run_schedule dead_ipc demo_js [DetectionTurn] s0 = Inr ((), a)"
    "run_schedule dead_ipc demo_js (DetectionTurn # [] @ [MainTurn 2]) a = Inr ((), t)"
    using a(1) b(1) t by (simp_all add: run_schedule_def main_steps_def bindS_def)
  have dead: "dead_node the_node a = Inr True"
    using a(2) by (auto simp: sampled_node_def dead_node_iff the_node_def make_member_ptr_def cell_def)
  have "wlInitialMemberNames a = []" "wlMembers a = [(the_node, TYPE_INITIAL)]"
    "fdMovingWindow a = [(the_node, (''0'', \<lparr>mMaxSize = 2, mBuffer = [1], mCurrent = 0\<rparr>) # [])]"
    using a(2) by (simp_all add: sampled_node_def)
  from dead_member_joins_subgraph [OF s0(1) r(1) this(1,2) dead this(3) _ _ _ r(2)] c(4)
  have "mpMember the_node \<in> mpMember ` set (mVertices (sgSAG t))" by simp
  then show ?thesis using s0(1) r by (auto simp: the_node_def make_member_ptr_def)
qed

end
