(* ===== verification/Interleaving.thy ===== *)
theory Interleaving
  imports Prelude
begin

text \<open>
  Two threads that each run a fixed sequence of steps over a shared state: their interleavings are the
  shuffles of the two sequences. Where every step of one commutes with every step of the other, all
  interleavings are one and the same serial run.
\<close>

lemma bindR_assoc: "bindR (bindR r f) g = bindR r (\<lambda>x. bindR (f x) g)"
  by (cases r) simp_all

lemma bindR_cong: "r = r' \<Longrightarrow> (\<And>x. r' = Inr x \<Longrightarrow> f x = g x) \<Longrightarrow> bindR r f = bindR r' g"
  by (cases r') simp_all

lemma foldR_fun:
  "foldR f (x # xs) = (\<lambda>s. bindR (f x s) (foldR f xs))" "foldR f (xs @ ys) = (\<lambda>s. bindR (foldR f xs s) (foldR f ys))"
  by (simp_all add: fun_eq_iff foldR_append)

locale commuting =
  fixes step :: "'e \<Rightarrow> 's \<Rightarrow> 's result" and left right :: "'e set" and inv :: "'s \<Rightarrow> bool"
  assumes keeps: "x \<in> left \<union> right \<Longrightarrow> inv s \<Longrightarrow> step x s = Inr t \<Longrightarrow> inv t"
    and commute: "x \<in> left \<Longrightarrow> y \<in> right \<Longrightarrow> inv s \<Longrightarrow> bindR (step x s) (step y) = bindR (step y s) (step x)"
begin

lemma run_keeps: "foldR step zs s = Inr t \<Longrightarrow> set zs \<subseteq> left \<union> right \<Longrightarrow> inv s \<Longrightarrow> inv t"
  using foldR_invariant [of step zs s t inv] keeps by blast

lemma pass:
  assumes "x \<in> left" "set ys \<subseteq> right" "inv s"
  shows "bindR (step x s) (foldR step ys) = bindR (foldR step ys s) (step x)"
  using assms(2,3)
proof (induction ys arbitrary: s)
  case (Cons y ys)
  have "bindR (step x s) (foldR step (y # ys)) = bindR (bindR (step x s) (step y)) (foldR step ys)"
    by (simp add: bindR_assoc foldR_fun)
  also have "\<dots> = bindR (step y s) (\<lambda>t. bindR (step x t) (foldR step ys))"
    using commute [of x y s] assms(1) Cons.prems by (simp add: bindR_assoc)
  also have "\<dots> = bindR (step y s) (\<lambda>t. bindR (foldR step ys t) (step x))"
    by (rule bindR_cong [OF refl]) (use Cons keeps [of y s] in auto)
  finally show ?case by (simp add: bindR_assoc foldR_fun)
next
  case Nil
  show ?case by (cases "step x s") simp_all
qed

lemma shuffled:
  "zs \<in> shuffles xs ys \<Longrightarrow> set xs \<subseteq> left \<Longrightarrow> set ys \<subseteq> right \<Longrightarrow> inv s \<Longrightarrow>
    foldR step zs s = foldR step (ys @ xs) s"
proof (induction zs arbitrary: xs ys s)
  case (Cons z zs)
  from Cons.prems(1) consider
      (l) xs' where "xs = z # xs'" "zs \<in> shuffles xs' ys"
    | (r) ys' where "ys = z # ys'" "zs \<in> shuffles xs ys'"
    by (auto simp: Cons_in_shuffles_iff neq_Nil_conv)
  then show ?case
  proof cases
    case l
    have "foldR step (z # zs) s = bindR (step z s) (foldR step (ys @ xs'))"
      using Cons.IH [OF l(2)] Cons.prems l(1) keeps [of z s] by (auto intro!: bindR_cong)
    also have "\<dots> = bindR (bindR (step z s) (foldR step ys)) (foldR step xs')"
      by (simp add: bindR_assoc foldR_fun)
    also have "\<dots> = foldR step (ys @ xs) s"
      using pass [of z ys s] Cons.prems l(1) by (simp add: bindR_assoc foldR_fun)
    finally show ?thesis .
  next
    case r
    then show ?thesis using Cons.IH [OF r(2)] Cons.prems keeps [of z s] by (auto intro!: bindR_cong)
  qed
qed simp

end

end
