(* ===== verification/Timing.thy ===== *)
theory Timing
  imports Prelude
begin

text \<open>
  How long the loops of the threads pause. Each of the four loops measures its iteration with the system
  clock and waits for what is left of the interval the configuration asks for. Times are in
  nanoseconds, intervals in milliseconds.
\<close>

text \<open>\<open>duration_cast\<close> to milliseconds rounds towards zero.\<close>

definition whole_ms :: "int \<Rightarrow> int" where
  "whole_ms d = (if 0 \<le> d then d div 1000000 else - ((- d) div 1000000))"

definition remainingTime :: "int \<Rightarrow> int \<Rightarrow> int \<Rightarrow> int" where
  "remainingTime loopTargetInterval start stop = loopTargetInterval - whole_ms (stop - start)"

text \<open>The pause of the store's, the fault detection's and the main loop; zero for none.\<close>

definition loop_pause :: "int \<Rightarrow> int \<Rightarrow> int \<Rightarrow> int" where
  "loop_pause loopTargetInterval start stop =
     (let remaining = remainingTime loopTargetInterval start stop in if remaining > 0 then remaining else 0)"

text \<open>The visualisation waits for a key instead, at least a millisecond; \<open>waitKey\<close> takes a 32-bit number and
  waits for ever if it is not positive.\<close>

definition wait_time :: "int \<Rightarrow> int \<Rightarrow> int \<Rightarrow> int" where
  "wait_time loopTargetInterval start stop =
     (let remaining = remainingTime loopTargetInterval start stop
      in if remaining > 0 then sint (word_of_int remaining :: 32 word) else 1)"

lemma whole_ms_nonneg: "0 \<le> d \<Longrightarrow> 0 \<le> whole_ms d"
  by (simp add: whole_ms_def pos_imp_zdiv_nonneg_iff)

text \<open>As long as the clock does not go back, a pause is never longer than the interval, and an iteration with
  its pause fills it; the visualisation never waits for ever on an interval below 25 days.\<close>

theorem pauses_fill_the_interval:
  assumes "start \<le> stop"
  shows "0 \<le> loop_pause interval start stop" "loop_pause interval start stop \<le> max 0 interval"
    "interval \<le> whole_ms (stop - start) + loop_pause interval start stop"
    "interval < 2 ^ 31 \<Longrightarrow> 1 \<le> wait_time interval start stop \<and> wait_time interval start stop \<le> max 1 interval"
proof -
  have w: "0 \<le> whole_ms (stop - start)" using assms by (intro whole_ms_nonneg) simp
  show "0 \<le> loop_pause interval start stop" "loop_pause interval start stop \<le> max 0 interval"
    "interval \<le> whole_ms (stop - start) + loop_pause interval start stop"
    using w by (auto simp: loop_pause_def remainingTime_def Let_def)
  show "1 \<le> wait_time interval start stop \<and> wait_time interval start stop \<le> max 1 interval" if "interval < 2 ^ 31"
  proof -
    define r where "r = remainingTime interval start stop"
    have r: "r \<le> interval" using w by (simp add: r_def remainingTime_def)
    then have "0 < r \<Longrightarrow> sint (word_of_int r :: 32 word) = r"
      using that by (simp add: signed_take_bit_int_eq_self sint_uint take_bit_int_eq_self uint_word_of_int_eq)
    then show ?thesis using r by (auto simp: wait_time_def r_def [symmetric])
  qed
qed

end
