(* ===== verification/Visualisation.thy ===== *)
theory Visualisation
  imports System Interleaving Timing
begin

text \<open>
  The loop of \<open>Graph::visualise\<close> in \<^verbatim>\<open>src/dynamic-subgraph/graph.cpp\<close>, which redraws the subgraph when the main
  loop asks for it and shows the picture. Graphviz, OpenCV, the file between them and the clock are
  arguments (\<open>viewer\<close>) over the world.
\<close>

section \<open>The loop\<close>

text \<open>
  \<open>vwBlank\<close> is the picture shown first, \<open>vwOpen\<close> opens the file and tells whether it could,
  \<open>vwRender\<close> builds the graph from the calls, lays it out and writes the file, \<open>vwRead\<close> reads the
  picture, with \<open>None\<close> for an empty one. Times are in nanoseconds, waiting is in milliseconds.
\<close>

record ('i, 'w) viewer =
  vwBlank :: 'i
  vwOpen :: "'w \<Rightarrow> bool \<times> 'w"
  vwRender :: "draw_call list \<Rightarrow> 'w \<Rightarrow> 'w"
  vwRead :: "'w \<Rightarrow> 'i option \<times> 'w"
  vwShow :: "'i \<Rightarrow> 'w \<Rightarrow> 'w"
  vwNow :: "'w \<Rightarrow> int \<times> 'w"
  vwWait :: "int \<Rightarrow> 'w \<Rightarrow> 'w"

definition redraw :: "('i, 'w) viewer \<Rightarrow> 'i \<Rightarrow> (('w, 'z) dynamic_subgraph_scheme, 'i) op" where
  "redraw v picture =
     bindS sag_draw (\<lambda>calls.
     bindS sag_clear_flag (\<lambda>_.
     bindS (world (vwOpen v)) (\<lambda>graphFile.
     bindS (liftR (assertR graphFile)) (\<lambda>_.
     bindS (world (\<lambda>w. ((), vwRender v calls w))) (\<lambda>_.
     bindS (world (vwRead v)) (\<lambda>tmp.
     returnS (case tmp of None \<Rightarrow> picture | Some new \<Rightarrow> new)))))))"

definition visualise_body ::
  "('i, 'w) viewer \<Rightarrow> int \<Rightarrow> 'i \<Rightarrow> (('w, 'z) dynamic_subgraph_scheme, 'i) op" where
  "visualise_body v loopTargetInterval picture =
     bindS (world (vwNow v)) (\<lambda>start.
     bindS (\<lambda>s. if mUpdateVisualisation (sgSAG s) then redraw v picture s else returnS picture s) (\<lambda>picture'.
     bindS (world (\<lambda>w. ((), vwShow v picture' w))) (\<lambda>_.
     bindS (world (vwNow v)) (\<lambda>stop.
     bindS (world (\<lambda>w. ((), vwWait v (wait_time loopTargetInterval start stop) w))) (\<lambda>_.
     returnS picture')))))"

text \<open>A number of iterations, as long as \<open>running\<close> is set.\<close>

fun visualise_from :: "nat \<Rightarrow> ('i, 'w) viewer \<Rightarrow> int \<Rightarrow> 'i \<Rightarrow> (('w, 'z) dynamic_subgraph_scheme, 'i) op" where
  "visualise_from 0 v loopTargetInterval picture = returnS picture"
| "visualise_from (Suc n) v loopTargetInterval picture =
     bindS (visualise_body v loopTargetInterval picture) (visualise_from n v loopTargetInterval)"

definition visualise :: "nat \<Rightarrow> ('i, 'w) viewer \<Rightarrow> int \<Rightarrow> (('w, 'z) dynamic_subgraph_scheme, 'i) op" where
  "visualise iterations v loopTargetInterval = visualise_from iterations v loopTargetInterval (vwBlank v)"

section \<open>What is drawn\<close>

lemma vertex_with_key_sound: "vertex_with_key vs k st = Inr True \<Longrightarrow> k \<in> key_of st ` set vs"
  by (induction vs) (auto simp: key_of_def split: if_splits)

lemma push_contained_sound:
  "push_contained g st xs out = Inr out' \<Longrightarrow>
    set out' \<subseteq> set out \<union> {x. pxPrimaryKey x \<in> graph_keys st g}"
proof (induction xs arbitrary: out)
  case (Cons x xs)
  then obtain c where c: "graph_contains g x st = Inr c"
    "push_contained g st xs (if \<not> c then out else out @ [x]) = Inr out'" by auto
  then have "c \<Longrightarrow> pxPrimaryKey x \<in> graph_keys st g"
    using vertex_with_key_sound by (auto simp: graph_contains_def graph_keys_def)
  then show ?case using Cons.IH [OF c(2)] by (auto split: if_splits)
qed simp

lemma outgoing_in_graph:
  "graph_getOutgoing g v st = Inr out \<Longrightarrow> x \<in> set out \<Longrightarrow> pxPrimaryKey x \<in> graph_keys st g"
  unfolding graph_getOutgoing_def by (auto split: if_splits dest!: push_contained_sound; blast)

text \<open>The drawing as a whole: for every vertex its node, and a node and an edge for each neighbour.\<close>

definition neighbours :: "graph \<Rightarrow> 'z store_scheme \<Rightarrow> member_ptr \<Rightarrow> member_proxies" where
  "neighbours g st v = (case graph_getOutgoing g v st of Inr out \<Rightarrow> out | Inl _ \<Rightarrow> [])"

definition calls_of :: "string \<Rightarrow> member_proxies \<Rightarrow> draw_call list" where
  "calls_of k out = DrawNode k # concat (map (\<lambda>x. [DrawNode (pxPrimaryKey x), DrawEdge k (pxPrimaryKey x)]) out)"

definition drawing :: "'z store_scheme \<Rightarrow> graph \<Rightarrow> draw_call list" where
  "drawing st g = concat (map (\<lambda>v. calls_of (key_of st v) (neighbours g st v)) (mVertices g))"

lemma draw_targets_eq:
  "draw_targets k xs = (if \<forall>x\<in>set xs. length (pxPrimaryKey x) \<le> 36
     then Inr (concat (map (\<lambda>x. [DrawNode (pxPrimaryKey x), DrawEdge k (pxPrimaryKey x)]) xs)) else Inl OutOfRange)"
  by (induction xs) (auto simp: strcpy37_def)

lemma draw_vertices_calls:
  "draw_vertices g st vs = Inr cs \<Longrightarrow> cs = concat (map (\<lambda>v. calls_of (key_of st v) (neighbours g st v)) vs)"
proof (induction vs arbitrary: cs)
  case (Cons v vs)
  then show ?case by (auto simp: draw_targets_eq strcpy37_def calls_of_def key_of_def neighbours_def split: if_splits)
qed simp

lemma graph_draw_calls: "graph_draw g st = Inr cs \<Longrightarrow> cs = drawing st g"
  unfolding graph_draw_def drawing_def by (rule draw_vertices_calls)

text \<open>The nodes and edges of a drawing.\<close>

lemma drawing_sets:
  shows "{k. DrawNode k \<in> set (drawing st g)} = graph_keys st g"
    and "{e. case e of (a, b) \<Rightarrow> DrawEdge a b \<in> set (drawing st g)}
      = {(key_of st v, pxPrimaryKey x) | v x. v \<in> set (mVertices g) \<and> x \<in> set (neighbours g st v)}"
proof -
  have "pxPrimaryKey x \<in> graph_keys st g" if "x \<in> set (neighbours g st v)" for x v
    using that by (auto simp: neighbours_def split: sum.splits intro: outgoing_in_graph [OF sym])
  then show "{k. DrawNode k \<in> set (drawing st g)} = graph_keys st g"
    by (auto simp: drawing_def calls_of_def graph_keys_def)
  show "{e. case e of (a, b) \<Rightarrow> DrawEdge a b \<in> set (drawing st g)}
      = {(key_of st v, pxPrimaryKey x) | v x. v \<in> set (mVertices g) \<and> x \<in> set (neighbours g st v)}"
    by (auto simp: drawing_def calls_of_def)
qed

text \<open>Drawing fails on long keys only.\<close>

definition is_member :: "'z store_scheme \<Rightarrow> member_ptr \<Rightarrow> bool" where
  "is_member st p \<longleftrightarrow> (\<exists>n. node_at p st n) \<or> (\<exists>t. topic_at p st t)"

lemma members_readable: "\<forall>v\<in>set vs. is_member st v \<Longrightarrow> readable st vs"
  by (auto simp: readable_def is_member_def)

lemma outgoing_total:
  assumes "\<forall>v\<in>set (mVertices g). is_member st v" "is_member st v"
  shows "graph_getOutgoing g v st = Inr (neighbours g st v)"
  using assms(2) push_contained_eq [OF members_readable [OF assms(1)]]
  by (auto simp: is_member_def graph_getOutgoing_def neighbours_def)

lemma graph_draw_total:
  assumes "\<forall>v\<in>set (mVertices g). is_member st v"
  shows "graph_draw g st = (if \<forall>k\<in>graph_keys st g. length k \<le> 36 then Inr (drawing st g) else Inl OutOfRange)"
proof -
  let ?short = "\<lambda>v. length (key_of st v) \<le> 36 \<and> (\<forall>x\<in>set (neighbours g st v). length (pxPrimaryKey x) \<le> 36)"
  have d: "draw_vertices g st vs = (if \<forall>v\<in>set vs. ?short v
      then Inr (concat (map (\<lambda>v. calls_of (key_of st v) (neighbours g st v)) vs)) else Inl OutOfRange)"
    if "set vs \<subseteq> set (mVertices g)" for vs
    using that
  proof (induction vs)
    case (Cons v vs)
    then have v: "is_member st v" using assms by auto
    then have "ptr_key v st = Inr (key_of st v)" by (auto simp: is_member_def key_of_def)
    then show ?case using Cons outgoing_total [OF assms v] by (auto simp: draw_targets_eq strcpy37_def calls_of_def)
  qed simp
  have "(\<forall>v\<in>set (mVertices g). ?short v) \<longleftrightarrow> (\<forall>k\<in>graph_keys st g. length k \<le> 36)"
    using outgoing_in_graph [OF outgoing_total [OF assms]] assms by (fastforce simp: graph_keys_def)
  then show ?thesis using d [OF subset_refl] by (simp add: graph_draw_def drawing_def)
qed

text \<open>Drawing looks at the members only, not at counters, locks or the trace.\<close>

definition same_reads :: "'z store_scheme \<Rightarrow> 'z store_scheme \<Rightarrow> bool" where
  "same_reads s t \<longleftrightarrow> (\<forall>p. ptr_key p t = ptr_key p s \<and> ptr_isTopic p t = ptr_isTopic p s
     \<and> asNode p t = asNode p s \<and> asTopic p t = asTopic p s)"

lemma same_readsI: "stNodes t = stNodes s \<Longrightarrow> stTopics t = stTopics s \<Longrightarrow> same_reads s t"
  by (simp add: same_reads_def ptr_key_def ptr_isTopic_def asNode_def asTopic_def
    cong: if_cong option.case_cong member_ref.case_cong)

lemma reads_key: "same_reads s t \<Longrightarrow> key_of t p = key_of s p"
  by (simp add: same_reads_def key_of_def)

lemma reads_draw:
  assumes "same_reads s t"
  shows "graph_getOutgoing g v t = graph_getOutgoing g v s" "graph_draw g t = graph_draw g s"
    "graph_keys t g = graph_keys s g"
proof -
  have w: "vertex_with_key vs k t = vertex_with_key vs k s" for vs k
    using assms by (induction vs) (simp_all add: same_reads_def cong: if_cong)
  have "push_contained g t xs out = push_contained g s xs out" for xs out
    by (induction xs arbitrary: out) (simp_all add: graph_contains_def w)
  then have p: "push_contained g t = push_contained g s" by (simp add: fun_eq_iff)
  show o: "graph_getOutgoing g v t = graph_getOutgoing g v s" for v
    using assms by (simp add: graph_getOutgoing_def same_reads_def p cong: if_cong)
  have "draw_vertices g t vs = draw_vertices g s vs" for vs
    using assms by (induction vs) (simp_all add: same_reads_def o)
  then show "graph_draw g t = graph_draw g s" by (simp add: graph_draw_def)
  show "graph_keys t g = graph_keys s g" using reads_key [OF assms] by (simp add: graph_keys_def)
qed

lemma sag_draw_eq:
  "sag_draw s = (if VerticesMutex \<in> set (dsHeld s) then Inl Diverges
     else bindR (graph_draw (sgSAG s) s) (\<lambda>calls. Inr (calls, s\<lparr>dsTrace := dsTrace s @
       [Locked VerticesMutex (dsHeld s), Touched Vertices (VerticesMutex # dsHeld s)]\<rparr>)))"
proof -
  have "graph_draw (sgSAG s) (s\<lparr>dsHeld := h, dsTrace := tr\<rparr>) = graph_draw (sgSAG s) s" for tr h
    by (rule reads_draw(2)) (simp add: same_readsI)
  then show ?thesis by (simp add: sag_draw_def locked_def touch_def bindS_def getsR_def bindR_def split: sum.splits)
qed

section \<open>Properties\<close>


text \<open>
  A request and a redrawing at the same time. The visualisation thread, having seen the flag, reads the
  vertices and then clears the flag; the main thread adds a vertex and then sets the flag.
\<close>

datatype draw_step = ReadVertices | ClearFlag | AddVertex | RequestDrawing

fun drawing_step :: "member_ptr \<Rightarrow> draw_step \<Rightarrow> ('w, 'z) dynamic_subgraph_scheme \<times> draw_call list \<Rightarrow>
    (('w, 'z) dynamic_subgraph_scheme \<times> draw_call list) result" where
  "drawing_step p ReadVertices (s, calls) = bindR (sag_draw s) (\<lambda>(calls', t). Inr (t, calls'))"
| "drawing_step p ClearFlag (s, calls) = bindR (sag_clear_flag s) (\<lambda>(_, t). Inr (t, calls))"
| "drawing_step p AddVertex (s, calls) = bindR (sag_add p s) (\<lambda>(_, t). Inr (t, calls))"
| "drawing_step p RequestDrawing (s, calls) = bindR (sag_request_drawing s) (\<lambda>(_, t). Inr (t, calls))"

text \<open>Is a key the key of a vertex?\<close>

definition in_graph :: "string \<Rightarrow> ('w, 'z) dynamic_subgraph_scheme \<Rightarrow> bool" where
  "in_graph k s \<longleftrightarrow> k \<in> graph_keys s (sgSAG s)"

lemma read_vertices:
  assumes "sag_draw s = Inr (calls, t)"
  shows "DrawNode k \<in> set calls \<longleftrightarrow> in_graph k s" "in_graph k t = in_graph k s" "sgSAG t = sgSAG s" "ptr_key p t = ptr_key p s"
proof -
  from assms have c: "graph_draw (sgSAG s) s = Inr calls" and t: "stNodes t = stNodes s" "stTopics t = stTopics s" "sgSAG t = sgSAG s"
    by (auto simp: sag_draw_eq bindR_eq_Inr split: if_splits)
  have r: "same_reads s t" by (rule same_readsI [OF t(1,2)])
  show "DrawNode k \<in> set calls \<longleftrightarrow> in_graph k s"
    using graph_draw_calls [OF c] drawing_sets(1) [of s "sgSAG s"] by (auto simp: in_graph_def)
  show "in_graph k t = in_graph k s" using reads_draw(3) [OF r] t(3) by (simp add: in_graph_def)
  show "sgSAG t = sgSAG s" "ptr_key p t = ptr_key p s" using t(3) r by (simp_all add: same_reads_def)
qed

lemma flag_steps:
  assumes "sag_clear_flag s = Inr (u, t) \<or> sag_request_drawing s = Inr (u, t)"
  shows "in_graph k t = in_graph k s" "ptr_key p t = ptr_key p s"
proof -
  have t: "stNodes t = stNodes s" "stTopics t = stTopics s" "mVertices (sgSAG t) = mVertices (sgSAG s)"
    using assms by (auto simp: sag_clear_flag_def sag_request_drawing_def graph_updateVisualisation_def)
  have "same_reads s t" by (rule same_readsI [OF t(1,2)])
  then show "in_graph k t = in_graph k s" "ptr_key p t = ptr_key p s"
    using t(3) reads_draw(3) [of s t "sgSAG s"] by (simp_all add: in_graph_def graph_keys_def same_reads_def)
qed

lemma copy_key:
  assumes "ptr_copy p s = Inr (q, t)" "ptr_key p s = Inr k"
  shows "ptr_key q t = Inr k"
proof -
  have m: "mpMember q = mpMember p" by (rule ptr_copy_reads(2) [OF assms(1)])
  then have "ptr_key q t = ptr_key p t" by (simp add: ptr_key_def cong: option.case_cong member_ref.case_cong)
  also have "\<dots> = ptr_key p s" using assms(1) counter_at_reads(4) by (fastforce simp: ptr_copy_def split: if_splits)
  finally show ?thesis using assms(2) by simp
qed

lemma add_vertex:
  assumes "sag_add p s = Inr (b, t)" "ptr_key p s = Inr k" "\<not> in_graph k s"
  shows "in_graph k t" "mUpdateVisualisation (sgSAG t) = mUpdateVisualisation (sgSAG s)"
proof -
  obtain t1 x a where a0: "touch Vertices (s\<lparr>dsTrace := dsTrace s @ [Locked VerticesMutex (dsHeld s)],
      dsHeld := VerticesMutex # dsHeld s\<rparr>) = Inr (x, a)"
    and t1: "bindR (graph_add p (sgSAG a) a) (\<lambda>((added, g), t). Inr (added, t\<lparr>sgSAG := g\<rparr>)) = Inr (b, t1)"
      "t = t1\<lparr>dsHeld := remove1 VerticesMutex (dsHeld t1)\<rparr>"
    using assms(1) unfolding sag_add_def by (elim locked_InrE bindS_InrE)
  from a0 have as: "stNodes a = stNodes s" "stTopics a = stTopics s" "sgSAG a = sgSAG s" by auto
  from t1 obtain g u where a: "graph_add p (sgSAG s) a = Inr ((b, g), u)"
    and t: "stNodes t = stNodes u" "stTopics t = stTopics u" "sgSAG t = g" using as(3) by (auto simp: bindR_eq_Inr)
  have k: "ptr_key p a = Inr k" using assms(2) same_readsI [OF as(1,2)] by (simp add: same_reads_def)
  have "\<not> ptr_eq v p" if "v \<in> set (mVertices (sgSAG s))" for v
  proof
    assume "ptr_eq v p"
    then have "key_of s v = k"
      using assms(2) by (simp add: key_of_def ptr_eq_def ptr_key_def cong: option.case_cong member_ref.case_cong)
    then show False using that assms(3) by (auto simp: in_graph_def graph_keys_def)
  qed
  then have "find_if (\<lambda>e. ptr_eq e p) (mVertices (sgSAG s)) = length (mVertices (sgSAG s))" by (auto simp: find_if_end_iff)
  then obtain q where q: "ptr_copy p a = Inr (q, u)" "g = (sgSAG s)\<lparr>mVertices := mVertices (sgSAG s) @ [q]\<rparr>"
    using a by (auto simp: graph_add_def)
  have "ptr_key q t = Inr k"
    using copy_key [OF q(1) k] same_readsI [OF t(1,2)] by (simp add: same_reads_def)
  then show "in_graph k t" using t(3) q(2) by (simp add: in_graph_def graph_keys_def key_of_def)
  show "mUpdateVisualisation (sgSAG t) = mUpdateVisualisation (sgSAG s)" using t(3) q(2) by simp
qed

text \<open>What the steps do to three facts: the key is in the graph, the flag is set, the key is drawn.\<close>

fun flag_step :: "draw_step \<Rightarrow> bool \<times> bool \<times> bool \<Rightarrow> bool \<times> bool \<times> bool" where
  "flag_step ReadVertices (g, f, d) = (g, f, g)"
| "flag_step ClearFlag (g, f, d) = (g, False, d)"
| "flag_step AddVertex (g, f, d) = (True, f, d)"
| "flag_step RequestDrawing (g, f, d) = (g, True, d)"

fun flags_of :: "string \<Rightarrow> ('w, 'z) dynamic_subgraph_scheme \<times> draw_call list \<Rightarrow> bool \<times> bool \<times> bool" where
  "flags_of k (s, calls) = (in_graph k s, mUpdateVisualisation (sgSAG s), DrawNode k \<in> set calls)"

lemma flags_after:
  assumes "foldR (drawing_step p) order (s, calls) = Inr r" "distinct order"
    and "AddVertex \<in> set order \<Longrightarrow> ptr_key p s = Inr k \<and> \<not> in_graph k s"
  shows "flags_of k r = fold flag_step order (flags_of k (s, calls))"
  using assms
proof (induction order arbitrary: s calls)
  case (Cons x order)
  then obtain t calls' where t: "drawing_step p x (s, calls) = Inr (t, calls')" "foldR (drawing_step p) order (t, calls') = Inr r"
    by auto
  have "flags_of k (t, calls') = flag_step x (flags_of k (s, calls))
    \<and> (x \<noteq> AddVertex \<longrightarrow> in_graph k t = in_graph k s \<and> ptr_key p t = ptr_key p s)"
  proof (cases x)
    case ReadVertices
    then have "sag_draw s = Inr (calls', t)" using t(1) by auto
    from read_vertices [OF this] show ?thesis using ReadVertices by simp
  next
    case AddVertex
    then obtain b where "sag_add p s = Inr (b, t)" "calls' = calls" using t(1) by auto
    with add_vertex [of p s b t k] show ?thesis using Cons.prems(3) AddVertex by simp
  next
    case ClearFlag
    then have c: "sag_clear_flag s = Inr ((), t)" "calls' = calls" using t(1) by auto
    then show ?thesis using ClearFlag flag_steps [of s "()" t] by (auto simp: sag_clear_flag_def)
  next
    case RequestDrawing
    then have c: "sag_request_drawing s = Inr ((), t)" "calls' = calls" using t(1) by auto
    then show ?thesis using RequestDrawing flag_steps [of s "()" t]
      by (auto simp: sag_request_drawing_def graph_updateVisualisation_def)
  qed
  then show ?case using Cons.IH [OF t(2)] Cons.prems(2,3) by (cases "x = AddVertex") auto
qed simp

text \<open>C31: Of the six ways in which a redrawing and the extension of the graph by a vertex can interleave, one
  loses the request: if the vertex is added and the flag set between reading the vertices and clearing
  the flag, the picture lacks the vertex and nobody asks for a new one. In the other five the vertex
  is drawn or the flag is left set.\<close>

theorem drawing_request_lost:
  assumes "order \<in> shuffles [ReadVertices, ClearFlag] [AddVertex, RequestDrawing]"
    and "ptr_key p s = Inr k" "k \<notin> graph_keys s (sgSAG s)" "foldR (drawing_step p) order (s, []) = Inr (t, calls)"
  shows "mUpdateVisualisation (sgSAG t) \<or> DrawNode k \<in> set calls
    \<longleftrightarrow> order \<noteq> [ReadVertices, AddVertex, RequestDrawing, ClearFlag]"
proof -
  have "order \<in> {[ReadVertices, ClearFlag, AddVertex, RequestDrawing], [ReadVertices, AddVertex, ClearFlag, RequestDrawing],
      [ReadVertices, AddVertex, RequestDrawing, ClearFlag], [AddVertex, ReadVertices, ClearFlag, RequestDrawing],
      [AddVertex, ReadVertices, RequestDrawing, ClearFlag], [AddVertex, RequestDrawing, ReadVertices, ClearFlag]}"
    using assms(1) by auto
  moreover from this have "distinct order" by auto
  from flags_after [OF assms(4) this, of k] have "flags_of k (t, calls) = fold flag_step order (flags_of k (s, []))"
    using assms(2,3) by (simp add: in_graph_def)
  moreover have "\<not> in_graph k s" using assms(3) by (simp add: in_graph_def)
  ultimately show ?thesis by (elim insertE emptyE) auto
qed

definition demo_viewer :: "(nat, peer) viewer" where
  "demo_viewer = \<lparr>vwBlank = 0, vwOpen = (\<lambda>w. (True, w)), vwRender = (\<lambda>calls w. w\<lparr>peNextId := length calls\<rparr>),
     vwRead = (\<lambda>w. (Some (peNextId w), w)), vwShow = (\<lambda>_ w. w), vwNow = (\<lambda>w. (0, w)), vwWait = (\<lambda>_ w. w)\<rparr>"

text \<open>The store of \<open>demo_dsg\<close> holds one topic, with the key \<open>a\<close>.\<close>

definition demo_requested :: "member_ptr list \<Rightarrow> peer dynamic_subgraph" where
  "demo_requested vs = (demo_dsg 15)\<lparr>sgSAG := \<lparr>mVertices = vs, mUpdateVisualisation = True\<rparr>\<rparr>"

lemma demo_requested_topic: "topic_at (make_member_ptr (TopicRef 0)) (demo_requested vs) (demo_topic ''a'')"
  using demo_store_topic by (simp add: topic_at_def demo_requested_def cong: conj_cong)


lemma drawing_request_lost_witness:
  "\<exists>t calls. foldR (drawing_step (make_member_ptr (TopicRef 0))) [ReadVertices, AddVertex, RequestDrawing, ClearFlag]
      (demo_requested [], []) = Inr (t, calls)
    \<and> length (mVertices (sgSAG t)) = 1 \<and> \<not> mUpdateVisualisation (sgSAG t) \<and> DrawNode ''a'' \<notin> set calls"
proof -
  let ?p = "make_member_ptr (TopicRef 0)" and ?order = "[ReadVertices, AddVertex, RequestDrawing, ClearFlag]"
  have "\<exists>t calls. foldR (drawing_step ?p) ?order (demo_requested [], []) = Inr (t, calls) \<and> length (mVertices (sgSAG t)) = 1"
    by (simp add: demo_requested_def sag_draw_def sag_add_def locked_def touch_def bindS_def getsR_def graph_draw_def graph_add_def
      ptr_copy_def counter_at_def modify_def deref_def cell_def make_member_ptr_def demo_store_def demo_topics_def demo_el_def
      set_cell_def sag_clear_flag_def sag_request_drawing_def graph_updateVisualisation_def)
  then obtain t calls where r: "foldR (drawing_step ?p) ?order (demo_requested [], []) = Inr (t, calls)"
    "length (mVertices (sgSAG t)) = 1" by blast
  have "ptr_key ?p (demo_requested []) = Inr ''a''"
    using topic_at_reads(3) [OF demo_requested_topic] by (simp add: c_str_def)
  moreover have "''a'' \<notin> graph_keys (demo_requested []) (sgSAG (demo_requested []))"
    by (simp add: graph_keys_def demo_requested_def)
  ultimately show ?thesis using drawing_request_lost [OF _ _ _ r(1), of "''a''"] r by simp
qed

end
