(* ===== verification/List_Race.thy ===== *)
theory List_Race
  imports Linked_List Interleaving
begin

text \<open>
  Insertion and removal on one list by two threads (\<^verbatim>\<open>src/dynamic-subgraph/double-linked-list.cpp\<close>). The
  data store inserts nodes under one mutex and removes nodes under another one, so the two operations
  may run at the same time. Each is split into its reads and writes of fields: \<open>emplace_back\<close> into
  three steps, \<open>erase\<close> into five; the variables of the two threads are part of the state.
\<close>

section \<open>The steps\<close>

record 'a race =
  rcList :: "'a dll"
  rcNew :: "nat option"
  rcPrev :: "nat option"
  rcNext :: "nat option"

datatype list_step = Allocate | LinkNew | MoveEnd | ReadPrev | ReadNext | RelinkPrev | RelinkNext | Delete

definition on_list :: "('a dll \<Rightarrow> 'a dll result) \<Rightarrow> 'a race \<Rightarrow> 'a race result" where
  "on_list f s = bindR (f (rcList s)) (\<lambda>d. Inr (s\<lparr>rcList := d\<rparr>))"

definition allocate :: "'a element \<Rightarrow> 'a dll \<Rightarrow> 'a dll" where
  "allocate e d = d\<lparr>dlMem := dlMem d @ [Some e]\<rparr>"

fun race_step :: "'a \<Rightarrow> request_id \<Rightarrow> nat option \<Rightarrow> list_step \<Rightarrow> 'a race \<Rightarrow> 'a race result" where
  "race_step inst requestId it Allocate s =
     Inr (s\<lparr>rcList := allocate (mk_element (mEnd (rcList s)) None inst requestId) (rcList s),
       rcNew := Some (length (dlMem (rcList s)))\<rparr>)"
| "race_step inst requestId it LinkNew s = (case mEnd (rcList s) of
       Some _ \<Rightarrow> on_list (modify (mEnd (rcList s)) (\<lambda>e. e\<lparr>elNext := rcNew s\<rparr>)) s
     | None \<Rightarrow> Inr (s\<lparr>rcList := (rcList s)\<lparr>mBegin := rcNew s\<rparr>\<rparr>))"
| "race_step inst requestId it MoveEnd s = Inr (s\<lparr>rcList := (rcList s)\<lparr>mEnd := rcNew s\<rparr>\<rparr>)"
| "race_step inst requestId it ReadPrev s =
     bindR (deref (rcList s) it) (\<lambda>e. Inr (s\<lparr>rcPrev := elPrev e\<rparr>))"
| "race_step inst requestId it ReadNext s =
     bindR (deref (rcList s) it) (\<lambda>e. Inr (s\<lparr>rcNext := elNext e\<rparr>))"
| "race_step inst requestId it RelinkPrev s = (case rcPrev s of
       Some _ \<Rightarrow> on_list (modify (rcPrev s) (\<lambda>e. e\<lparr>elNext := rcNext s\<rparr>)) s
     | None \<Rightarrow> Inr s)"
| "race_step inst requestId it RelinkNext s = (case rcNext s of
       Some _ \<Rightarrow> on_list (modify (rcNext s) (\<lambda>e. e\<lparr>elPrev := rcPrev s\<rparr>)) s
     | None \<Rightarrow> Inr s)"
| "race_step inst requestId it Delete s = on_list (\<lambda>d. Inr (set_cell (the it) None d)) s"

definition insertion :: "list_step list" where
  "insertion = [Allocate, LinkNew, MoveEnd]"

definition removal :: "list_step list" where
  "removal = [ReadPrev, ReadNext, RelinkPrev, RelinkNext, Delete]"

definition list_run :: "'a \<Rightarrow> request_id \<Rightarrow> nat option \<Rightarrow> list_step list \<Rightarrow> 'a dll \<Rightarrow> 'a race result" where
  "list_run inst requestId it steps d =
     foldR (race_step inst requestId it) steps \<lparr>rcList = d, rcNew = None, rcPrev = None, rcNext = None\<rparr>"

text \<open>Without the other thread the steps are the operations.\<close>

lemma insertion_run:
  "bindR (foldR (race_step x rid it) insertion s) (\<lambda>t. Inr (rcNew t, rcList t)) = emplace_back x rid (rcList s)"
  by (auto simp: insertion_def emplace_back_def allocate_def on_list_def modify_def Let_def bindR_def
    split: sum.splits option.splits)

lemma removal_run:
  "bindR (foldR (race_step x rid it) removal s) (\<lambda>t. Inr (rcNext t, rcList t)) = dll_erase it (rcList s)"
  by (auto simp: removal_def dll_erase_def on_list_def modify_def Let_def bindR_def
    split: sum.splits option.splits)

section \<open>Steps that do not disturb each other\<close>

lemma set_cell_laws:
  "a \<noteq> b \<Longrightarrow> set_cell a c (set_cell b c' d) = set_cell b c' (set_cell a c d)"
  "set_cell a c (set_cell a c' d) = set_cell a c d"
  "a < length (dlMem d) \<Longrightarrow> set_cell a c (allocate e d) = allocate e (set_cell a c d)"
  "set_cell a c (d\<lparr>mBegin := q\<rparr>) = (set_cell a c d)\<lparr>mBegin := q\<rparr>"
  "set_cell a c (d\<lparr>mEnd := q\<rparr>) = (set_cell a c d)\<lparr>mEnd := q\<rparr>"
proof -
  show "a \<noteq> b \<Longrightarrow> set_cell a c (set_cell b c' d) = set_cell b c' (set_cell a c d)"
    using list_update_swap [of a b "dlMem d" c c'] by (simp add: set_cell_def)
qed (simp_all add: set_cell_def allocate_def list_update_append1)

lemma allocate_fields [simp]:
  "cell (allocate e d) b = (if b = length (dlMem d) then Some e else cell d b)"
  "mBegin (allocate e d) = mBegin d" "mEnd (allocate e d) = mEnd d"
  "length (dlMem (allocate e d)) = Suc (length (dlMem d))"
  by (simp_all add: allocate_def)

lemma modify_Some: "modify (Some b) f d =
    (case cell d b of None \<Rightarrow> Inl UseAfterFree | Some e \<Rightarrow> Inr (set_cell b (Some (f e)) d))"
  by (simp add: modify_def deref_def split: option.splits)

text \<open>
  The element to remove is at \<open>a\<close>, after the one \<open>p\<close> points to. What keeps the threads apart: the end
  of the list, old or new, is neither of them and is allocated, and no pointer leads outside the memory.
\<close>

definition inside :: "'a dll \<Rightarrow> nat option \<Rightarrow> bool" where
  "inside d q \<longleftrightarrow> (\<forall>b. q = Some b \<longrightarrow> b < length (dlMem d))"

definition apart :: "nat \<Rightarrow> nat option \<Rightarrow> 'a race \<Rightarrow> bool" where
  "apart a p s \<longleftrightarrow> a < length (dlMem (rcList s)) \<and> p \<noteq> Some a \<and> inside (rcList s) p
     \<and> (\<forall>q\<in>{mEnd (rcList s), rcNew s}. \<forall>c. q = Some c \<longrightarrow> c \<noteq> a \<and> p \<noteq> Some c \<and> cell (rcList s) c \<noteq> None)
     \<and> rcPrev s \<in> {None, p} \<and> rcNext s \<noteq> Some a \<and> inside (rcList s) (rcNext s)
     \<and> (\<forall>e. cell (rcList s) a = Some e \<longrightarrow> elPrev e = p \<and> elNext e \<noteq> Some a \<and> inside (rcList s) (elNext e))"

lemma inside_simps [simp]:
  "inside d None" "inside (set_cell a c d) q = inside d q" "inside (d\<lparr>mBegin := b\<rparr>) q = inside d q"
  "inside (d\<lparr>mEnd := b\<rparr>) q = inside d q" "inside d q \<Longrightarrow> inside (allocate e d) q"
  by (auto simp: inside_def)

lemma insertion_apart:
  "apart a p s \<Longrightarrow> race_step x rid (Some a) Allocate s = Inr t \<Longrightarrow> apart a p t"
  "apart a p s \<Longrightarrow> race_step x rid (Some a) LinkNew s = Inr t \<Longrightarrow> apart a p t"
  "apart a p s \<Longrightarrow> race_step x rid (Some a) MoveEnd s = Inr t \<Longrightarrow> apart a p t"
  by (auto simp: apart_def on_list_def modify_Some inside_def split: option.splits if_splits)

lemma removal_apart:
  "apart a p s \<Longrightarrow> race_step x rid (Some a) ReadPrev s = Inr t \<Longrightarrow> apart a p t"
  "apart a p s \<Longrightarrow> race_step x rid (Some a) ReadNext s = Inr t \<Longrightarrow> apart a p t"
  "apart a p s \<Longrightarrow> race_step x rid (Some a) RelinkPrev s = Inr t \<Longrightarrow> apart a p t"
  "apart a p s \<Longrightarrow> race_step x rid (Some a) RelinkNext s = Inr t \<Longrightarrow> apart a p t"
  "apart a p s \<Longrightarrow> race_step x rid (Some a) Delete s = Inr t \<Longrightarrow> apart a p t"
  by (auto simp: apart_def on_list_def modify_Some inside_def deref_def split: option.splits if_splits)

text \<open>The steps of the one thread commute with those of the other.\<close>

lemma allocation_commutes:
  assumes "apart a p s" "y \<in> set removal"
  shows "bindR (race_step x rid (Some a) Allocate s) (race_step x rid (Some a) y)
    = bindR (race_step x rid (Some a) y s) (race_step x rid (Some a) Allocate)"
  using assms by (auto simp: removal_def apart_def on_list_def modify_Some inside_def deref_def set_cell_laws(3)
    split: option.splits)

lemma element_swap: "e\<lparr>elNext := n, elPrev := q\<rparr> = e\<lparr>elPrev := q, elNext := n\<rparr>"
  by (cases e) simp

lemma link_commutes:
  assumes "apart a p s" "y \<in> set removal"
  shows "bindR (race_step x rid (Some a) LinkNew s) (race_step x rid (Some a) y)
    = bindR (race_step x rid (Some a) y s) (race_step x rid (Some a) LinkNew)"
proof (cases "mEnd (rcList s)")
  case None
  then show ?thesis using assms
    by (auto simp: removal_def on_list_def modify_Some deref_def set_cell_laws(4) split: option.splits)
next
  case (Some c)
  then obtain e where e: "cell (rcList s) c = Some e" "c \<noteq> a" "p \<noteq> Some c" "rcPrev s \<in> {None, p}"
    using assms(1) by (auto simp: apart_def)
  moreover have "c < length (dlMem (rcList s))" using e(1) by (rule cell_Some_less)
  ultimately show ?thesis using assms(2) Some
    by (auto simp: removal_def on_list_def modify_Some deref_def set_cell_laws(2) set_cell_laws(1) [of c] element_swap
      split: option.splits)
qed

lemma end_commutes:
  assumes "y \<in> set removal"
  shows "bindR (race_step x rid (Some a) MoveEnd s) (race_step x rid (Some a) y)
    = bindR (race_step x rid (Some a) y s) (race_step x rid (Some a) MoveEnd)"
  using assms by (auto simp: removal_def on_list_def modify_Some deref_def set_cell_laws(5) split: option.splits)

interpretation both: commuting "race_step x rid (Some a)" "set insertion" "set removal" "apart a p" for x rid a p
proof unfold_locales
  show "apart a p s \<Longrightarrow> race_step x rid (Some a) y s = Inr t \<Longrightarrow> apart a p t" if "y \<in> set insertion \<union> set removal" for y s t
    using that insertion_apart [of a p s x rid t] removal_apart [of a p s x rid t]
    by (auto simp: insertion_def removal_def)
  show "bindR (race_step x rid (Some a) i s) (race_step x rid (Some a) r) = bindR (race_step x rid (Some a) r s) (race_step x rid (Some a) i)"
    if "i \<in> set insertion" "r \<in> set removal" "apart a p s" for i r s
    using that(1) allocation_commutes [OF that(3,2)] link_commutes [OF that(3,2)] end_commutes [OF that(2)]
    unfolding insertion_def by auto
qed

section \<open>What the threads may and may not do at once\<close>

lemma rep_apart:
  assumes "rep d (xs @ a # ys)" "ys \<noteq> []"
  shows "apart a (last_or None xs) \<lparr>rcList = d, rcNew = None, rcPrev = None, rcNext = None\<rparr>"
proof -
  have r: "seg d None (xs @ a # ys) None" "distinct (xs @ a # ys)" "mEnd d = Some (last ys)"
    using assms by (auto simp: rep_def)
  have s: "seg d None xs (Some a)" "seg d (last_or None xs) (a # ys) None" using r(1) by (simp_all add: seg_append)
  have "inside d (last_or None xs)" "last_or None xs \<noteq> Some a"
    using seg_bound [OF s(1)] r(2) by (cases xs rule: rev_cases; auto simp: inside_def)+
  moreover have "last ys \<noteq> a" "last_or None xs \<noteq> Some (last ys)"
    using r(2) assms(2) by (cases xs rule: rev_cases; cases ys rule: rev_cases; auto)+
  moreover have "cell d (last ys) \<noteq> None" using seg_allocated [OF r(1), of "last ys"] assms(2) by auto
  moreover have "fst_or None ys \<noteq> Some a" "inside d (fst_or None ys)"
    using r(2) seg_bound [OF s(2)] assms(2) by (cases ys; auto simp: inside_def)+
  ultimately show ?thesis using s(2) r(3) by (auto simp: apart_def dest: cell_Some_less)
qed

lemma find_prefix:
  assumes "seg d None as None" "distinct as" "mBegin d = fst_or None as"
  shows "find_where P d = Inr (List.find (\<lambda>a. P (item d a)) as)"
  using find_from_seg [OF assms(1), of "Suc (length (dlMem d))" P] seg_length [OF assms(1,2)] assms(3)
  by (simp add: find_where_def)

text \<open>C10: An element that is neither first nor last may be removed while another thread inserts one,
  although the two share no mutex: in every interleaving of their reads and writes the list ends up as
  after the removal followed by the insertion, well-formed and with the new element at its end.\<close>

theorem inner_removal_interleaves:
  assumes "rep d (xs @ a # ys)" "xs \<noteq> []" "ys \<noteq> []" "order \<in> shuffles insertion removal"
  shows "\<exists>s d1. list_run x rid (Some a) order d = Inr s \<and> dll_erase (Some a) d = Inr (Some (hd ys), d1)
    \<and> emplace_back x rid d1 = Inr (rcNew s, rcList s) \<and> rcNew s = Some (length (dlMem d))
    \<and> rep (rcList s) (xs @ ys @ [length (dlMem d)])
    \<and> contents (rcList s) (xs @ ys @ [length (dlMem d)]) = contents d (xs @ ys) @ [x]"
proof -
  let ?s = "\<lparr>rcList = d, rcNew = None, rcPrev = None, rcNext = None\<rparr>" and ?f = "race_step x rid (Some a)"
  have run: "list_run x rid (Some a) order d = bindR (foldR ?f removal ?s) (foldR ?f insertion)"
    using both.shuffled [OF assms(4) subset_refl subset_refl rep_apart [OF assms(1,3)]]
    by (simp add: list_run_def foldR_append)
  from erase_rep_inner [OF assms(1-3)] obtain d1 where d1: "dll_erase (Some a) d = Inr (Some (hd ys), d1)"
    "rep d1 (xs @ ys)" "contents d1 (xs @ ys) = contents d (xs @ ys)" by blast
  have len: "length (dlMem d1) = length (dlMem d)"
    using erase_chain [of d xs a ys] assms(1) d1(1) by (auto simp: rep_def same_ends_def)
  from removal_run [of x rid "Some a" ?s] d1(1) obtain t where t: "foldR ?f removal ?s = Inr t" "rcList t = d1" by auto
  from emplace_back_rep [OF d1(2), of x rid] len obtain d2 where d2:
    "emplace_back x rid d1 = Inr (Some (length (dlMem d)), d2)" "rep d2 ((xs @ ys) @ [length (dlMem d)])"
    "contents d2 ((xs @ ys) @ [length (dlMem d)]) = contents d (xs @ ys) @ [x]" using d1(3) by auto
  from insertion_run [of x rid "Some a" t] t(2) d2(1) obtain u where
    u: "foldR ?f insertion t = Inr u" "rcNew u = Some (length (dlMem d))" "rcList u = d2" by auto
  then show ?thesis using run t(1) d1(1) d2 by auto
qed

lemma inner_removal_interleaves_witness:
  "\<exists>s. list_run (demo_topic ''d'') 7 (Some 1)
      [ReadPrev, Allocate, ReadNext, LinkNew, RelinkPrev, RelinkNext, MoveEnd, Delete] demo_list = Inr s
    \<and> rep (rcList s) [0, 2, 3]"
proof -
  have "rep demo_list ([0] @ 1 # [2])" using demo_list_rep by simp
  moreover have "[ReadPrev, Allocate, ReadNext, LinkNew, RelinkPrev, RelinkNext, MoveEnd, Delete] \<in> shuffles insertion removal"
    by (simp add: insertion_def removal_def)
  moreover have "length (dlMem demo_list) = 3" by (simp add: demo_list_def)
  ultimately show ?thesis using inner_removal_interleaves [of demo_list "[0]" 1 "[2]" _ "demo_topic ''d''" 7] by auto
qed

lemma find_last: "\<forall>b\<in>set as. \<not> P b \<Longrightarrow> P c \<Longrightarrow> find P (as @ [c]) = Some c"
  by (induction as) auto

text \<open>A removal of the last element that has read the links, an insertion, and then the rest of the removal.\<close>

definition late_removal :: "list_step list" where
  "late_removal = [ReadPrev, ReadNext] @ insertion @ [RelinkPrev, RelinkNext, Delete]"

lemma late_removal_run:
  assumes "rep d (xs @ [p, a])"
  shows "\<exists>s. list_run x rid (Some a) late_removal d = Inr s \<and> seg (rcList s) None (xs @ [p]) None
    \<and> mBegin (rcList s) = fst_or None (xs @ [p]) \<and> mEnd (rcList s) = Some (length (dlMem d))
    \<and> (\<forall>b\<in>set (xs @ [p]). item (rcList s) b = item d b)"
proof -
  let ?n = "length (dlMem d)"
  have r: "seg d None (xs @ [p, a]) None" "distinct (xs @ [p, a])" "mEnd d = Some a" "mBegin d = fst_or None (xs @ [p])"
    using assms by (auto simp: rep_def fst_or_append)
  obtain e f where ef: "cell d a = Some e" "elPrev e = Some p" "elNext e = None" "cell d p = Some f" "a \<noteq> p"
    using r(1,2) by (auto simp: seg_append)
  have lt: "a < ?n" "p < ?n" using ef by (auto dest: cell_Some_less)
  let ?d1 = "(set_cell a (Some (e\<lparr>elNext := Some ?n\<rparr>)) (allocate (mk_element (Some a) None x rid) d))\<lparr>mEnd := Some ?n\<rparr>"
  let ?d2 = "set_cell a None (set_cell p (Some (f\<lparr>elNext := None\<rparr>)) ?d1)"
  have run: "list_run x rid (Some a) late_removal d = Inr \<lparr>rcList = ?d2, rcNew = Some ?n, rcPrev = Some p, rcNext = None\<rparr>"
    using ef lt r(3) unfolding list_run_def late_removal_def insertion_def by (simp add: on_list_def modify_Some)
  have s: "seg d None (xs @ [p]) (Some a)" using r(1) by (auto simp: seg_append)
  then have "seg ?d1 None (xs @ [p]) (Some a)"
    using r(2) seg_bound [OF s] by (subst seg_frame [of _ _ d]) auto
  then have "seg ?d2 None (xs @ [p]) None"
    using r(2) ef lt by (subst seg_set_outside) (auto intro!: seg_relink_last)
  moreover have "item ?d2 b = item d b" if "b \<in> set (xs @ [p])" for b
    using that ef lt r(2) seg_bound [OF s] by (auto simp: item_def)
  ultimately show ?thesis using run r(4) by auto
qed

lemma insertion_off_chain:
  assumes "seg d None as None" "distinct as" "mBegin d = fst_or None as" "mEnd d = Some c" "c \<notin> set as"
    and "emplace_back y rid d = Inr (q, d')"
  shows "find_where P d' = find_where P d"
proof -
  from assms(4,6) have same: "cell d' b = cell d b" "mBegin d' = mBegin d" if "b \<in> set as" for b
    using that assms(5) seg_bound [OF assms(1)]
    by (auto simp: emplace_back_def Let_def modify_Some split: option.splits if_splits)
  have "mBegin d' = mBegin d" using assms(4,6) by (auto simp: emplace_back_def Let_def modify_Some split: option.splits)
  moreover have "seg d' None as None" using assms(1) same by (subst seg_frame [of _ _ d]) auto
  moreover have "find (\<lambda>a. P (item d' a)) as = find (\<lambda>a. P (item d a)) as"
    using same by (intro find_cong) (auto simp: item_def)
  ultimately show ?thesis using find_prefix [of _ as P] assms(1-3) by simp
qed

text \<open>C25: The last element may not. If its removal has read the links when another thread inserts an element,
  and goes on after that, the new element hangs on a deleted one: no lookup finds it or any element
  inserted later. The insertion before the removal would have kept it.\<close>

theorem removal_of_last_loses_insertion:
  assumes "rep d (xs @ [p, a])" "\<forall>b\<in>set (xs @ [p]). \<not> P (item d b)" "P x"
  shows "late_removal \<in> shuffles insertion removal
    \<and> (\<exists>s. list_run x rid (Some a) late_removal d = Inr s \<and> find_where P (rcList s) = Inr None
       \<and> (\<forall>y rid' q d' R. emplace_back y rid' (rcList s) = Inr (q, d') \<longrightarrow> find_where R d' = find_where R (rcList s)))
    \<and> (\<exists>n d1 d2. emplace_back x rid d = Inr (Some n, d1) \<and> dll_erase (Some a) d1 = Inr (Some n, d2)
       \<and> find_where P d2 = Inr (Some n))"
proof (intro conjI)
  let ?n = "length (dlMem d)"
  show "late_removal \<in> shuffles insertion removal" unfolding late_removal_def insertion_def removal_def by simp
  from late_removal_run [OF assms(1), of x rid] obtain s where
    s: "list_run x rid (Some a) late_removal d = Inr s" "seg (rcList s) None (xs @ [p]) None"
      "mBegin (rcList s) = fst_or None (xs @ [p])" "mEnd (rcList s) = Some ?n"
      "\<forall>b\<in>set (xs @ [p]). item (rcList s) b = item d b" by blast
  have dist: "distinct (xs @ [p])" "?n \<notin> set (xs @ [p])"
    using assms(1) seg_bound [of d None "xs @ [p, a]" None] by (auto simp: rep_def)
  have "find_where P (rcList s) = Inr None"
    using find_prefix [OF s(2) dist(1) s(3)] s(5) assms(2) by (auto simp: find_None_iff)
  then show "\<exists>s. list_run x rid (Some a) late_removal d = Inr s \<and> find_where P (rcList s) = Inr None
       \<and> (\<forall>y rid' q d' R. emplace_back y rid' (rcList s) = Inr (q, d') \<longrightarrow> find_where R d' = find_where R (rcList s))"
    using s(1) insertion_off_chain [OF s(2) dist(1) s(3,4) dist(2)] by blast
  from emplace_back_rep [OF assms(1), of x rid] obtain d1 where d1: "emplace_back x rid d = Inr (Some ?n, d1)"
    "rep d1 ((xs @ [p]) @ a # [?n])" "contents d1 ((xs @ [p]) @ a # [?n]) = contents d (xs @ [p, a]) @ [x]" by auto
  from erase_rep_inner [OF d1(2)] obtain d2 where d2: "dll_erase (Some a) d1 = Inr (Some ?n, d2)"
    "rep d2 ((xs @ [p]) @ [?n])" "contents d2 ((xs @ [p]) @ [?n]) = contents d1 ((xs @ [p]) @ [?n])" by auto
  have "contents d2 ((xs @ [p]) @ [?n]) = contents d (xs @ [p]) @ [x]" using d1(3) d2(3) by (simp add: contents_def)
  then have "\<forall>b\<in>set (xs @ [p]). item d2 b = item d b" "item d2 ?n = x" by (simp_all add: contents_def)
  then have "find_where P d2 = Inr (Some ?n)"
    using find_rep [OF d2(2), of P] find_last [of "xs @ [p]" "\<lambda>b. P (item d2 b)" ?n] assms(2,3) by auto
  then show "\<exists>n d1 d2. emplace_back x rid d = Inr (Some n, d1) \<and> dll_erase (Some a) d1 = Inr (Some n, d2)
       \<and> find_where P d2 = Inr (Some n)" using d1(1) d2(1) by blast
qed

lemma removal_of_last_loses_insertion_witness:
  "\<exists>s. list_run (demo_topic ''d'') 7 (Some 2) late_removal demo_list = Inr s \<and> dll_find ''d'' (rcList s) = Inr None"
proof -
  have r: "rep demo_list ([0] @ [1, 2])" using demo_list_rep by simp
  have "\<forall>b\<in>set ([0] @ [1]). mPrimaryKey (item demo_list b) \<noteq> ''d''" "mPrimaryKey (demo_topic ''d'') = ''d''"
    by (simp_all add: demo_topic_key c_str_def)
  from removal_of_last_loses_insertion [OF r, of "\<lambda>t. mPrimaryKey t = ''d''", OF this, of 7] show ?thesis
    unfolding dll_find_def by blast
qed

end
