(* ===== verification/Main_Program.thy ===== *)
theory Main_Program
  imports System
begin

text \<open>
  \<open>main\<close> of \<^verbatim>\<open>src/main.cpp\<close>: the checks on the command line and on the configuration file, each with
  its exit code, then the construction of the program and its run. The file system is a parameter.
\<close>

record files =
  isRegularFile :: "string \<Rightarrow> bool"
  openFile :: "string \<Rightarrow> string option"

text \<open>\<open>path::extension()\<close>: what follows the last component's last dot, with the dot; a component
  that begins with its only dot has none, and neither has \<open>..\<close>.\<close>

definition file_name :: "string \<Rightarrow> string" where
  "file_name path = rev (takeWhile (\<lambda>c. c \<noteq> CHR ''/'') (rev path))"

definition path_extension :: "string \<Rightarrow> string" where
  "path_extension path = (let f = file_name path; e = rev (takeWhile (\<lambda>c. c \<noteq> CHR ''.'') (rev f))
     in if f = ''..'' \<or> length f \<le> Suc (length e) then '''' else CHR ''.'' # e)"

text \<open>The result is the exit code of a \<open>return\<close> from \<open>main\<close>. How the program is stopped is the choice of
  the schedule: a signal clears the flag the loops test.\<close>

definition main_program :: "files \<Rightarrow> 'w ipc \<Rightarrow> (int \<Rightarrow> 'w \<Rightarrow> bool \<times> 'w) \<Rightarrow> 'j config_json \<Rightarrow>
    'w turn list \<Rightarrow> string list \<Rightarrow> 'w \<Rightarrow> int result" where
  "main_program files ipc connect js schedule argv w =
     (if length argv \<noteq> 2 then Inr 1
      else let configFilePath = argv ! 1 in
        if \<not> isRegularFile files configFilePath \<or> path_extension configFilePath \<noteq> ''.json'' then Inr 2
        else case openFile files configFilePath of
          None \<Rightarrow> Inr 3
        | Some configText \<Rightarrow>
            bindR (jsParse js configText) (\<lambda>config.
            bindR (make_system ipc connect js config w) (\<lambda>s.
            bindR (run_schedule ipc (json.truncate js) schedule s) (\<lambda>_. Inr 0))))"

lemma takeWhile_split: "c \<in> set xs \<Longrightarrow> \<exists>ys. xs = takeWhile (\<lambda>x. x \<noteq> c) xs @ c # ys"
  by (induction xs) auto

lemma last_split: "c \<in> set xs \<Longrightarrow> \<exists>ys. xs = ys @ c # rev (takeWhile (\<lambda>x. x \<noteq> c) (rev xs))"
proof -
  assume "c \<in> set xs"
  then obtain ys where "rev xs = takeWhile (\<lambda>x. x \<noteq> c) (rev xs) @ c # ys" using takeWhile_split [of c "rev xs"] by auto
  then have "xs = rev (takeWhile (\<lambda>x. x \<noteq> c) (rev xs) @ c # ys)" by (metis rev_rev_ident)
  then show ?thesis by auto
qed

lemma json_extension_iff: "path_extension path = ''.json'' \<longleftrightarrow> (\<exists>stem. stem \<noteq> [] \<and> file_name path = stem @ ''.json'')"
proof -
  let ?f = "file_name path" and ?e = "rev (takeWhile (\<lambda>c. c \<noteq> CHR ''.'') (rev (file_name path)))"
  show ?thesis
  proof
    assume "path_extension path = ''.json''"
    then have e: "?e = ''json''" "Suc (length ?e) < length ?f" by (auto simp: path_extension_def Let_def split: if_splits)
    have "CHR ''.'' \<in> set ?f"
    proof (rule ccontr)
      assume "CHR ''.'' \<notin> set ?f"
      then have t: "takeWhile (\<lambda>c. c \<noteq> CHR ''.'') (rev ?f) = rev ?f" by (intro takeWhile_eq_all_conv [THEN iffD2]) auto
      show False using e(2) unfolding t by simp
    qed
    from last_split [OF this] e(1) obtain ys where y: "?f = ys @ CHR ''.'' # ''json''" by auto
    then have "ys \<noteq> []" using e by auto
    then show "\<exists>stem. stem \<noteq> [] \<and> ?f = stem @ ''.json''" using y by auto
  next
    assume "\<exists>stem. stem \<noteq> [] \<and> ?f = stem @ ''.json''"
    then obtain stem where f: "stem \<noteq> []" "?f = stem @ ''.json''" by blast
    then show "path_extension path = ''.json''" by (cases stem) (auto simp: path_extension_def Let_def)
  qed
qed


text \<open>A file system with one configuration file, which the demonstration parser reads.\<close>

definition demo_files :: files where
  "demo_files = \<lparr>isRegularFile = (\<lambda>p. p = ''/etc/fdl.json''), openFile = (\<lambda>p. Some ''{}'')\<rparr>"


end
