(* ===== verification/Typed_Store.thy ===== *)
theory Typed_Store
  imports Store_Relation
begin

text \<open>
  The type of a member decides by its flag \<open>mIsTopic\<close> which cast of a pointer to it is right. The
  theory shows that the flag agrees with the list an element is in, whatever the threads do, so
  that \<open>asNode\<close> and \<open>asTopic\<close> never fail after the flag was tested.
\<close>

definition typed_list :: "bool \<Rightarrow> 'm member_scheme dll \<Rightarrow> bool" where
  "typed_list b d \<longleftrightarrow> (\<forall>a e. cell d a = Some e \<longrightarrow> mIsTopic (elInstance e) = b)"

definition typed_store :: "'z store_scheme \<Rightarrow> bool" where
  "typed_store s \<longleftrightarrow> typed_list False (stNodes s) \<and> typed_list True (stTopics s)"

text \<open>That typed lists stay typed is a relation of the kind every turn keeps.\<close>

definition typing_kept :: "bool \<Rightarrow> 'm member_scheme dll \<Rightarrow> 'm member_scheme dll \<Rightarrow> bool" where
  "typing_kept b d d' \<longleftrightarrow> (typed_list b d \<longrightarrow> typed_list b d')"

lemma typing_kept_relation: "cell_relation b (typing_kept b)"
proof (rule cell_relation.intro)
  fix d d' :: "'m member_scheme dll"
  show "typing_kept b d d" by (simp add: typing_kept_def)
  show "typing_kept b d d' \<Longrightarrow> typing_kept b d' d2 \<Longrightarrow> typing_kept b d d2" for d2 by (simp add: typing_kept_def)
  show "typing_kept b d d'"
    if "modify p f d = Inr d'" "\<And>e. deref d p = Inr e \<Longrightarrow> grows (elInstance e) (elInstance (f e))" for p f
    using that by (auto simp: typing_kept_def typed_list_def modify_def deref_Inr grows_def split: if_splits)
  show "typing_kept b d (d\<lparr>dlMem := dlMem d @ [Some e]\<rparr>)" if "mIsTopic (elInstance e) = b" for e
    using that by (simp add: typing_kept_def typed_list_def)
  show "typing_kept b d (set_cell a None d)" for a
    by (simp add: typing_kept_def typed_list_def)
  show "typing_kept b d (d\<lparr>mBegin := q\<rparr>)" "typing_kept b d (d\<lparr>mEnd := q\<rparr>)" for q
    by (simp_all add: typing_kept_def typed_list_def)
qed

interpretation typing: store_relation "typing_kept False" "typing_kept True"
  by (intro store_relation.intro typing_kept_relation)

lemma typedD:
  "obeys (store_related (typing_kept False) (typing_kept True)) m \<Longrightarrow> m s = Inr (x, t) \<Longrightarrow> typed_store s \<Longrightarrow> typed_store t"
  unfolding obeys_def store_related_def typing_kept_def typed_store_def by blast

section \<open>The casts\<close>

lemma make_system_typed: "make_system ipc connect js config w = Inr s \<Longrightarrow> typed_store s"
proof -
  have e: "typed_list b dll_new" for b by (simp add: typed_list_def dll_new_def cell_def)
  have c: "obeys (store_related (typing_kept False) (typing_kept True)) (getCpuUtilisationMemory ipc)"
    unfolding getCpuUtilisationMemory_def by (intro typing.related_rules typing.related_basic)
  assume "make_system ipc connect js config w = Inr s"
  then obtain ds where d: "make_data_store ipc connect js config w = Inr ds" "dsg_new ipc js config ds = Inr s"
    by (auto simp: make_system_def)
  have "stNodes ds = dll_new \<and> stTopics ds = dll_new"
    using d(1) by (auto simp: make_data_store_def data_store_new_def split: option.splits sum.splits prod.splits)
  then have "typed_store (fd_new n (data_store.extend ds \<lparr>wlInitialMemberNames = names, wlMembers = []\<rparr>))" for n names
    by (simp add: typed_store_def fd_new_def data_store.defs watchlist.defs e)
  then show "typed_store s" using d(2)
    by (auto simp: dsg_new_def wl_new_def typed_store_def fault_detection.defs dest!: typedD [OF c])
qed

lemma typed_casts:
  assumes "typed_store s"
  shows "ptr_isTopic p s = Inr False \<Longrightarrow> \<exists>n. asNode p s = Inr n \<and> \<not> mIsTopic n"
    and "ptr_isTopic p s = Inr True \<Longrightarrow> \<exists>t. asTopic p s = Inr t \<and> mIsTopic t"
  using assms
  by (auto simp: ptr_isTopic_def asNode_def asTopic_def typed_store_def typed_list_def deref_Inr
      split: option.splits member_ref.splits)

text \<open>C22: In every state the program can reach, the flag of a member tells which cast of a pointer to it
  succeeds: after testing the flag, \<open>asNode\<close> and \<open>asTopic\<close> give the member, and neither ever throws
  \<open>bad_cast\<close>: a wrong cast is stopped by its assertion.\<close>

theorem casts_follow_the_flag:
  assumes "make_system ipc connect js config w = Inr s" "run_schedule ipc js' schedule s = Inr ((), t)"
  shows "(ptr_isTopic p t = Inr False \<longrightarrow> (\<exists>n. asNode p t = Inr n) \<and> asTopic p t = Inl AssertionFailure)
    \<and> (ptr_isTopic p t = Inr True \<longrightarrow> (\<exists>tp. asTopic p t = Inr tp) \<and> asNode p t = Inl AssertionFailure)
    \<and> asNode p t \<noteq> Inl BadCast \<and> asTopic p t \<noteq> Inl BadCast"
proof -
  have t: "typed_store t" by (rule typedD [OF typing.related_schedule assms(2) make_system_typed [OF assms(1)]])
  show ?thesis
  proof (cases "ptr_isTopic p t")
    case (Inl e)
    then show ?thesis
      by (auto simp: asNode_def asTopic_def ptr_isTopic_def deref_def split: option.splits member_ref.splits)
  next
    case (Inr b)
    then show ?thesis using typed_casts [OF t, of p]
      by (cases b) (auto simp: asNode_def asTopic_def)
  qed
qed

lemma casts_follow_the_flag_witness:
  "\<exists>s t n. make_system demo_ipc (\<lambda>_ w. (True, w)) demo_watching_js demo_watching peer_init = Inr s
    \<and> run_schedule demo_ipc demo_js [DetectionTurn, DrawTurn] s = Inr ((), t)
    \<and> asNode (make_member_ptr (NodeRef 0)) t = Inr n \<and> asTopic (make_member_ptr (NodeRef 0)) t = Inl AssertionFailure"
proof -
  obtain s t where st: "make_system demo_ipc (\<lambda>_ w. (True, w)) demo_watching_js demo_watching peer_init = Inr s"
    "run_schedule demo_ipc demo_js [DetectionTurn, DrawTurn] s = Inr ((), t)"
    "ptr_isTopic (make_member_ptr (NodeRef 0)) t = Inr False"
    by (rule demo_watching_run)
  from casts_follow_the_flag [OF st(1,2), of "make_member_ptr (NodeRef 0)"] st show ?thesis by blast
qed

end
