(* ===== verification/Plugin_Manager.thy ===== *)
theory Plugin_Manager
  imports Prelude
begin

text \<open>
  \<^verbatim>\<open>src/fault-detection/plugin-manager.{hpp,cpp}\<close>: loading shared libraries as plugins, and
  initialising and deinitialising them. An exception leaves what was done before it in place, so
  the operations return the new state beside the result. The plugins' own functions and the
  dynamic linker are code outside the repository: function pointers are fields of a plugin, the
  linker is the argument \<open>dl\<close>. The unordered map of plugins is a list in its iteration order.
\<close>

section \<open>What a plugin exports\<close>

text \<open>\<^verbatim>\<open>include/stream_plugins.h\<close>: the data handed to a plugin, its verdict, the names and the signatures of
  the three functions. A plugin's functions act on a world of their own; the pointer to the data leads
  into it.\<close>

record data_header =
  dhName :: string
  dhType :: string
  dhDataSize :: nat

datatype fault_state = STATE_FAULTY | STATE_NORMAL | STATE_UNDETERMINED | STATE_NULL_OPT

definition INITIALIZE_SYMBOL_NAME :: string where "INITIALIZE_SYMBOL_NAME = ''initializePlugin''"
definition EXECUTE_SYMBOL_NAME :: string where "EXECUTE_SYMBOL_NAME = ''executePlugin''"
definition DEINITIALIZE_SYMBOL_NAME :: string where "DEINITIALIZE_SYMBOL_NAME = ''deinitializePlugin''"

type_synonym 'w initialize_function = "'w \<Rightarrow> bool \<times> 'w"
type_synonym 'w execute_function = "data_header \<Rightarrow> 'w \<Rightarrow> fault_state \<times> 'w"
type_synonym 'w deinitialize_function = "'w \<Rightarrow> 'w"

section \<open>Data\<close>

record 'w plugin =
  plHandle :: "nat option"
  plInitialized :: bool
  plInitialize :: "'w initialize_function"
  plExecute :: "'w execute_function"
  plDeinitialize :: "'w deinitialize_function"

datatype plugin_state = PLUGIN_UNKNOWN | PLUGIN_LOADED | PLUGIN_INITIALIZED | PLUGIN_NULL_OPT

text \<open>\<open>dlsym\<close> finds a symbol by name; the casts of the code fix which kind of function each is taken for.\<close>

record 'w plugin_manager =
  mLoadedPlugins :: "(string \<times> 'w plugin) list"
  pmWorld :: 'w

record 'w dl =
  dlopen :: "string \<Rightarrow> bool \<Rightarrow> 'w \<Rightarrow> nat option \<times> 'w"
  dlsymInitialize :: "nat \<Rightarrow> string \<Rightarrow> 'w \<Rightarrow> 'w initialize_function option"
  dlsymExecute :: "nat \<Rightarrow> string \<Rightarrow> 'w \<Rightarrow> 'w execute_function option"
  dlsymDeinitialize :: "nat \<Rightarrow> string \<Rightarrow> 'w \<Rightarrow> 'w deinitialize_function option"
  dlclose :: "nat \<Rightarrow> 'w \<Rightarrow> 'w"
  dlerror :: "'w \<Rightarrow> string option \<times> 'w"

record directory_entry =
  dePath :: string
  deIsRegular :: bool
  deStem :: string
  deExtension :: string

text \<open>A result with the state at the return or at the throw.\<close>

type_synonym ('s, 'a) xop = "'s \<Rightarrow> 'a result \<times> 's"

definition bindX :: "('s, 'a) xop \<Rightarrow> ('a \<Rightarrow> ('s, 'b) xop) \<Rightarrow> ('s, 'b) xop" where
  "bindX m k s = (case m s of (Inl e, t) \<Rightarrow> (Inl e, t) | (Inr x, t) \<Rightarrow> k x t)"

lemma bindX_simps [simp]:
  "m s = (Inl e, t) \<Longrightarrow> bindX m k s = (Inl e, t)"
  "m s = (Inr x, t) \<Longrightarrow> bindX m k s = k x t"
  by (simp_all add: bindX_def)

section \<open>Operations\<close>

definition getDlError :: "'w dl \<Rightarrow> 'w \<Rightarrow> string \<times> 'w" where
  "getDlError dl w = (case dlerror dl w of
     (Some e, w') \<Rightarrow> (e, w')
   | (None, w') \<Rightarrow> (''Unknown error. See NOTES section in dlsym manual page.'', w'))"

definition throwDlError :: "'w dl \<Rightarrow> ('w plugin_manager, 'a) xop" where
  "throwDlError dl pm = (case getDlError dl (pmWorld pm) of
     (e, w') \<Rightarrow> (Inl (DynamicLibraryError e), pm\<lparr>pmWorld := w'\<rparr>))"

definition find_plugin :: "string \<Rightarrow> 'w plugin_manager \<Rightarrow> 'w plugin option" where
  "find_plugin name pm = map_of (mLoadedPlugins pm) name"

text \<open>\<open>insert_or_assign\<close>: an existing entry keeps its place, a new one goes to the end.\<close>

fun insert_or_assign :: "string \<Rightarrow> 'p \<Rightarrow> (string \<times> 'p) list \<Rightarrow> (string \<times> 'p) list" where
  "insert_or_assign k p [] = [(k, p)]"
| "insert_or_assign k p ((a, q) # m) = (if a = k then (a, p) # m else (a, q) # insert_or_assign k p m)"

definition load_entry :: "'w dl \<Rightarrow> bool \<Rightarrow> bool \<Rightarrow> directory_entry \<Rightarrow> ('w plugin_manager, unit) xop" where
  "load_entry dl skipExisting lazy entry pm =
     (if \<not> deIsRegular entry \<or> deExtension entry \<noteq> ''.so'' then (Inr (), pm)
      else if skipExisting \<and> find_plugin (deStem entry) pm = None then (Inr (), pm)
      else
        let w0 = snd (dlerror dl (pmWorld pm));
            (handle, w1) = dlopen dl (dePath entry) lazy w0;
            pm1 = pm\<lparr>pmWorld := w1\<rparr>
        in (case handle of
              None \<Rightarrow> throwDlError dl pm1
            | Some h \<Rightarrow> (case dlsymInitialize dl h INITIALIZE_SYMBOL_NAME w1 of
                None \<Rightarrow> throwDlError dl pm1
              | Some ini \<Rightarrow> (case dlsymExecute dl h EXECUTE_SYMBOL_NAME w1 of
                  None \<Rightarrow> throwDlError dl pm1
                | Some exe \<Rightarrow> (case dlsymDeinitialize dl h DEINITIALIZE_SYMBOL_NAME w1 of
                    None \<Rightarrow> throwDlError dl pm1
                  | Some deini \<Rightarrow>
                      (Inr (), pm1\<lparr>mLoadedPlugins := insert_or_assign (deStem entry)
                         \<lparr>plHandle = Some h, plInitialized = False, plInitialize = ini, plExecute = exe,
                           plDeinitialize = deini\<rparr>
                         (mLoadedPlugins pm1)\<rparr>))))))"

fun pm_load :: "'w dl \<Rightarrow> bool \<Rightarrow> bool \<Rightarrow> directory_entry list \<Rightarrow> ('w plugin_manager, unit) xop" where
  "pm_load dl skipExisting lazy [] pm = (Inr (), pm)"
| "pm_load dl skipExisting lazy (e # es) pm =
     bindX (load_entry dl skipExisting lazy e) (\<lambda>_. pm_load dl skipExisting lazy es) pm"

definition getLoaded :: "'w plugin_manager \<Rightarrow> string list" where
  "getLoaded pm = map fst (mLoadedPlugins pm)"

definition getStatus :: "string \<Rightarrow> 'w plugin_manager \<Rightarrow> plugin_state" where
  "getStatus name pm = (case find_plugin name pm of
     None \<Rightarrow> PLUGIN_UNKNOWN
   | Some p \<Rightarrow> if \<not> plInitialized p then PLUGIN_LOADED else PLUGIN_INITIALIZED)"

definition getPlugin :: "string \<Rightarrow> ('w plugin_manager, 'w plugin) xop" where
  "getPlugin name pm = (case find_plugin name pm of
     None \<Rightarrow> (Inl (DynamicLibraryError (''Unknown plugin: '' @ name)), pm)
   | Some p \<Rightarrow> (Inr p, pm))"

definition unable_to_initialize :: "string \<Rightarrow> string" where
  "unable_to_initialize name = ''Unable to initialize plugin: '' @ name"

text \<open>The loop over all plugins: \<open>before\<close> are those already passed.\<close>

fun initialize_all_from :: "bool \<Rightarrow> (string \<times> 'w plugin) list \<Rightarrow> (string \<times> 'w plugin) list \<Rightarrow> 'w \<Rightarrow>
    unit result \<times> (string \<times> 'w plugin) list \<times> 'w" where
  "initialize_all_from skipInitialized before [] w = (Inr (), before, w)"
| "initialize_all_from skipInitialized before ((k, p) # ps) w =
     (if skipInitialized \<and> plInitialized p
      then initialize_all_from skipInitialized (before @ [(k, p)]) ps w
      else (case plInitialize p w of (ok, w') \<Rightarrow>
        if \<not> ok then (Inl (DynamicLibraryError (unable_to_initialize k)), before @ (k, p) # ps, w')
        else initialize_all_from skipInitialized (before @ [(k, p\<lparr>plInitialized := True\<rparr>)]) ps w'))"

definition pm_initialize_all :: "bool \<Rightarrow> ('w plugin_manager, unit) xop" where
  "pm_initialize_all skipInitialized pm =
     (case initialize_all_from skipInitialized [] (mLoadedPlugins pm) (pmWorld pm) of
        (r, ps, w) \<Rightarrow> (r, pm\<lparr>mLoadedPlugins := ps, pmWorld := w\<rparr>))"

definition set_plugin :: "string \<Rightarrow> 'w plugin \<Rightarrow> 'w plugin_manager \<Rightarrow> 'w plugin_manager" where
  "set_plugin name p pm = pm\<lparr>mLoadedPlugins := insert_or_assign name p (mLoadedPlugins pm)\<rparr>"

definition pm_initialize :: "string \<Rightarrow> bool \<Rightarrow> ('w plugin_manager, unit) xop" where
  "pm_initialize name skipInitialized = bindX (getPlugin name) (\<lambda>p pm.
     if skipInitialized \<and> plInitialized p then (Inr (), pm)
     else (case plInitialize p (pmWorld pm) of (ok, w') \<Rightarrow>
       if \<not> ok then (Inl (DynamicLibraryError (unable_to_initialize name)), pm\<lparr>pmWorld := w'\<rparr>)
       else (Inr (), set_plugin name (p\<lparr>plInitialized := True\<rparr>) (pm\<lparr>pmWorld := w'\<rparr>))))"

text \<open>The body of \<open>execute\<close> ends without a return statement.\<close>

definition pm_execute :: "string \<Rightarrow> ('w plugin_manager, fault_state) xop" where
  "pm_execute name = bindX (getPlugin name) (\<lambda>_ pm. (Inl MissingReturn, pm))"

fun deinitialize_all_from :: "bool \<Rightarrow> (string \<times> 'w plugin) list \<Rightarrow> 'w \<Rightarrow> (string \<times> 'w plugin) list \<times> 'w" where
  "deinitialize_all_from skipDeinitialized [] w = ([], w)"
| "deinitialize_all_from skipDeinitialized ((k, p) # ps) w =
     (if skipDeinitialized \<and> \<not> plInitialized p
      then apfst (Cons (k, p)) (deinitialize_all_from skipDeinitialized ps w)
      else apfst (Cons (k, p\<lparr>plInitialized := False\<rparr>))
             (deinitialize_all_from skipDeinitialized ps (plDeinitialize p w)))"

definition pm_deinitialize_all :: "bool \<Rightarrow> 'w plugin_manager \<Rightarrow> 'w plugin_manager" where
  "pm_deinitialize_all skipDeinitialized pm =
     (case deinitialize_all_from skipDeinitialized (mLoadedPlugins pm) (pmWorld pm) of
        (ps, w) \<Rightarrow> pm\<lparr>mLoadedPlugins := ps, pmWorld := w\<rparr>)"

definition pm_deinitialize :: "string \<Rightarrow> bool \<Rightarrow> ('w plugin_manager, unit) xop" where
  "pm_deinitialize name skipDeinitialized = bindX (getPlugin name) (\<lambda>p pm.
     if skipDeinitialized \<and> \<not> plInitialized p then (Inr (), pm)
     else (Inr (), set_plugin name (p\<lparr>plInitialized := False\<rparr>)
                     (pm\<lparr>pmWorld := plDeinitialize p (pmWorld pm)\<rparr>)))"

fun destroy_plugins :: "'w dl \<Rightarrow> (string \<times> 'w plugin) list \<Rightarrow> 'w \<Rightarrow> 'w" where
  "destroy_plugins dl [] w = w"
| "destroy_plugins dl ((k, p) # ps) w = (case plHandle p of
     None \<Rightarrow> destroy_plugins dl ps w
   | Some h \<Rightarrow> destroy_plugins dl ps
       (dlclose dl h (if plInitialized p then plDeinitialize p w else w)))"

definition pm_destroy :: "'w dl \<Rightarrow> 'w plugin_manager \<Rightarrow> 'w" where
  "pm_destroy dl pm = destroy_plugins dl (mLoadedPlugins pm) (pmWorld pm)"

section \<open>Lemmas\<close>

lemma map_of_insert_or_assign: "map_of (insert_or_assign k p m) = (map_of m)(k \<mapsto> p)"
  by (induction m) auto

lemma keys_insert_or_assign: "fst ` set (insert_or_assign k p m) = insert k (fst ` set m)"
  using map_of_insert_or_assign [of k p m]
  by (simp add: dom_map_of_conv_image_fst [symmetric])

lemma map_of_dom: "map_of m k \<noteq> None \<longleftrightarrow> k \<in> fst ` set m"
  by (metis map_of_eq_None_iff)

lemma throwDlError_plugins [simp]:
  "mLoadedPlugins (snd (throwDlError dl pm)) = mLoadedPlugins pm" "\<exists>e. fst (throwDlError dl pm) = Inl e"
  by (auto simp: throwDlError_def split: prod.splits)

lemma load_entry_skip_keys:
  "fst ` set (mLoadedPlugins (snd (load_entry dl True lazy e pm))) = fst ` set (mLoadedPlugins pm)"
proof (cases "find_plugin (deStem e) pm = None")
  case True
  then show ?thesis by (simp add: load_entry_def)
next
  case False
  then have "deStem e \<in> fst ` set (mLoadedPlugins pm)" by (metis find_plugin_def map_of_dom)
  then show ?thesis
    by (auto simp: load_entry_def Let_def keys_insert_or_assign insert_absorb split: option.splits prod.splits)
qed

lemma pm_load_skip_keys:
  "fst ` set (mLoadedPlugins (snd (pm_load dl True lazy es pm))) = fst ` set (mLoadedPlugins pm)"
proof (induction es arbitrary: pm)
  case (Cons e es)
  obtain r pm1 where r: "load_entry dl True lazy e pm = (r, pm1)" by force
  then have "fst ` set (mLoadedPlugins pm1) = fst ` set (mLoadedPlugins pm)"
    using load_entry_skip_keys [of dl lazy e pm] by simp
  with Cons r show ?case by (cases r) simp_all
qed simp

text \<open>Loading without skipping: what a loaded entry looks like, and that later entries keep it.\<close>

definition loadable :: "directory_entry \<Rightarrow> bool" where
  "loadable e \<longleftrightarrow> deIsRegular e \<and> deExtension e = ''.so''"

lemma load_entry_noskip:
  assumes "load_entry dl False lazy e pm = (Inr (), pm')"
  shows "getStatus k pm' = (if loadable e \<and> k = deStem e then PLUGIN_LOADED else getStatus k pm)"
  using assms
  by (auto simp: load_entry_def Let_def loadable_def getStatus_def find_plugin_def map_of_insert_or_assign
      throwDlError_def split: option.splits prod.splits if_splits)

lemma pm_load_noskip:
  "pm_load dl False lazy es pm = (Inr (), pm') \<Longrightarrow>
    getStatus k pm' = (if k \<in> deStem ` {e \<in> set es. loadable e} then PLUGIN_LOADED else getStatus k pm)"
proof (induction es arbitrary: pm)
  case (Cons e es)
  then obtain pm1 where 1: "load_entry dl False lazy e pm = (Inr (), pm1)" "pm_load dl False lazy es pm1 = (Inr (), pm')"
    by (auto simp: bindX_def split: prod.splits sum.splits)
  from Cons.IH [OF 1(2)] load_entry_noskip [OF 1(1), of k] show ?case by auto
qed simp

lemma initialize_step:
  assumes "initialize_all_from skip before ((k, p) # ps) w = (r, ps', w')"
    and "plInitialize p w = (ok, w1)" "\<not> (\<not> (skip \<and> plInitialized p) \<and> \<not> ok)"
  shows "\<exists>q v. fst q = k \<and> plInitialized (snd q) \<and> initialize_all_from skip (before @ [q]) ps v = (r, ps', w')"
proof (cases "skip \<and> plInitialized p")
  case True
  then show ?thesis using assms(1) by (intro exI [of _ "(k, p)"] exI [of _ w]) simp
next
  case False
  then have ok using assms(3) by simp
  then show ?thesis using assms(1,2) False
    by (intro exI [of _ "(k, p\<lparr>plInitialized := True\<rparr>)"] exI [of _ w1]) auto
qed

lemma initialize_all_from_spec:
  assumes "initialize_all_from skip before ps w = (r, ps', w')"
  shows "(r = Inr () \<longrightarrow> (\<exists>qs. ps' = before @ qs \<and> map fst qs = map fst ps \<and> (\<forall>q\<in>set qs. plInitialized (snd q))))
    \<and> (\<forall>e. r = Inl e \<longrightarrow> (\<exists>xs k p ys qs. ps = xs @ (k, p) # ys \<and> ps' = before @ qs @ (k, p) # ys
        \<and> map fst qs = map fst xs \<and> (\<forall>q\<in>set qs. plInitialized (snd q))
        \<and> e = DynamicLibraryError (unable_to_initialize k)))"
  using assms
proof (induction ps arbitrary: before w)
  case Nil
  then show ?case by auto
next
  case (Cons kp ps)
  obtain k p where kp: "kp = (k, p)" by force
  obtain ok w1 where i: "plInitialize p w = (ok, w1)" by force
  show ?case
  proof (cases "\<not> (skip \<and> plInitialized p) \<and> \<not> ok")
    case True
    then have r: "r = Inl (DynamicLibraryError (unable_to_initialize k))" "ps' = before @ (k, p) # ps"
      using Cons.prems kp i by auto
    have "kp # ps = [] @ (k, p) # ps" "ps' = before @ [] @ (k, p) # ps"
      "map fst ([] :: (string \<times> 'a plugin) list) = map fst ([] :: (string \<times> 'a plugin) list)"
      "\<forall>q\<in>set []. plInitialized (snd (q :: string \<times> 'a plugin))"
      using kp r by simp_all
    then show ?thesis using r(1) by blast
  next
    case False
    from initialize_step [OF Cons.prems [unfolded kp] i False]
    obtain q v where q: "fst q = k" "plInitialized (snd q)"
      and rec: "initialize_all_from skip (before @ [q]) ps v = (r, ps', w')" by blast
    show ?thesis
    proof (cases r)
      case (Inr u)
      then obtain qs where "ps' = (before @ [q]) @ qs" "map fst qs = map fst ps" "\<forall>q\<in>set qs. plInitialized (snd q)"
        using Cons.IH [OF rec] by auto
      then show ?thesis using Inr q kp by (auto intro!: exI [of _ "q # qs"])
    next
      case (Inl e)
      then obtain xs k' p' ys qs where "ps = xs @ (k', p') # ys" "ps' = (before @ [q]) @ qs @ (k', p') # ys"
        "map fst qs = map fst xs" "\<forall>q\<in>set qs. plInitialized (snd q)"
        "e = DynamicLibraryError (unable_to_initialize k')"
        using Cons.IH [OF rec] by blast
      then have "kp # ps = (kp # xs) @ (k', p') # ys" "ps' = before @ (q # qs) @ (k', p') # ys"
        "map fst (q # qs) = map fst (kp # xs)" "\<forall>x\<in>set (q # qs). plInitialized (snd x)"
        using q kp by auto
      then show ?thesis using Inl \<open>e = _\<close> by blast
    qed
  qed
qed

lemma deinitialize_all_from_off:
  "\<forall>q\<in>set (fst (deinitialize_all_from skip ps w)). \<not> plInitialized (snd q)"
proof (induction ps arbitrary: w)
  case (Cons kp ps)
  then show ?case by (cases kp) auto
qed simp

lemma destroy_uninitialized:
  "\<forall>q\<in>set ps. \<not> plInitialized (snd q) \<Longrightarrow>
    destroy_plugins dl ps w = fold (\<lambda>q w. case plHandle (snd q) of None \<Rightarrow> w | Some h \<Rightarrow> dlclose dl h w) ps w"
  by (induction ps arbitrary: w) (auto split: option.splits)

section \<open>Properties\<close>

text \<open>With \<open>skipExisting\<close>, the default, loading never adds a plugin: whatever the directory holds
  and whether or not it throws, the set of known plugins stays the same. A fresh manager stays
  empty.\<close>

theorem load_skipping_adds_nothing:
  "set (getLoaded (snd (pm_load dl True lazy es pm))) = set (getLoaded pm)"
  using pm_load_skip_keys by (simp add: getLoaded_def)

text \<open>Without \<open>skipExisting\<close>, after a load that did not throw every regular \<open>.so\<close> file is a loaded,
  uninitialised plugin under its stem, also if it was initialised before, and every other plugin has
  the status it had.\<close>

theorem load_all_status:
  assumes "pm_load dl False lazy es pm = (Inr (), pm')"
  shows "getStatus k pm' = (if k \<in> deStem ` {e \<in> set es. loadable e} then PLUGIN_LOADED else getStatus k pm)"
  using assms by (rule pm_load_noskip)

definition demo_dl :: "string list dl" where
  "demo_dl = \<lparr>dlopen = (\<lambda>p _ w. (Some 1, p # w)), dlsymInitialize = (\<lambda>_ _ _. Some (\<lambda>w. (True, ''ini'' # w))),
     dlsymExecute = (\<lambda>_ _ _. Some (\<lambda>_ w. (STATE_NORMAL, w))), dlsymDeinitialize = (\<lambda>_ _ _. Some (Cons ''deini'')),
     dlclose = (\<lambda>_. Cons ''close''), dlerror = (\<lambda>w. (None, w))\<rparr>"

definition demo_entry :: directory_entry where
  "demo_entry = \<lparr>dePath = ''p.so'', deIsRegular = True, deStem = ''p'', deExtension = ''.so''\<rparr>"

definition demo_plugin :: "bool \<Rightarrow> bool \<Rightarrow> string list plugin" where
  "demo_plugin ini ok = \<lparr>plHandle = Some 1, plInitialized = ini, plInitialize = (\<lambda>w. (ok, ''ini'' # w)),
     plExecute = (\<lambda>_ w. (STATE_NORMAL, w)), plDeinitialize = Cons ''deini''\<rparr>"

lemma load_all_status_witness:
  "getStatus ''p'' (snd (pm_load demo_dl False True [demo_entry]
     \<lparr>mLoadedPlugins = [(''p'', demo_plugin True True)], pmWorld = []\<rparr>)) = PLUGIN_LOADED"
proof -
  let ?pm = "\<lparr>mLoadedPlugins = [(''p'', demo_plugin True True)], pmWorld = []\<rparr>"
  have "fst (pm_load demo_dl False True [demo_entry] ?pm) = Inr ()"
    by (simp add: bindX_def load_entry_def demo_entry_def demo_dl_def)
  then have "pm_load demo_dl False True [demo_entry] ?pm =
      (Inr (), snd (pm_load demo_dl False True [demo_entry] ?pm))"
    by (simp only: prod_eq_iff fst_conv snd_conv simp_thms)
  moreover have "''p'' \<in> deStem ` {e \<in> set [demo_entry]. loadable e}"
    by (rule image_eqI [of _ _ demo_entry]) (simp_all add: demo_entry_def loadable_def)
  ultimately show ?thesis using load_all_status [of demo_dl True "[demo_entry]" ?pm _ "''p''"] by metis
qed


definition demo_two :: "string list plugin_manager" where
  "demo_two = \<lparr>mLoadedPlugins = [(''a'', demo_plugin False True), (''b'', demo_plugin False False)], pmWorld = []\<rparr>"

lemma demo_two_fails:
  "pm_initialize_all True demo_two = (Inl (DynamicLibraryError (unable_to_initialize ''b'')),
     \<lparr>mLoadedPlugins = [(''a'', demo_plugin True True), (''b'', demo_plugin False False)],
      pmWorld = [''ini'', ''ini'']\<rparr>)"
  by (simp add: pm_initialize_all_def demo_plugin_def demo_two_def)


text \<open>After deinitialising all plugins no plugin is initialised, and the manager's destructor then
  only closes the handles: no plugin is deinitialised twice.\<close>

theorem no_double_deinitialize:
  "pm_destroy dl (pm_deinitialize_all skip pm) =
     fold (\<lambda>q w. case plHandle (snd q) of None \<Rightarrow> w | Some h \<Rightarrow> dlclose dl h w)
       (mLoadedPlugins (pm_deinitialize_all skip pm)) (pmWorld (pm_deinitialize_all skip pm))
   \<and> getStatus k (pm_deinitialize_all skip pm) \<noteq> PLUGIN_INITIALIZED"
proof -
  let ?pm = "pm_deinitialize_all skip pm"
  have off: "\<forall>q\<in>set (mLoadedPlugins ?pm). \<not> plInitialized (snd q)"
    using deinitialize_all_from_off [of skip "mLoadedPlugins pm" "pmWorld pm"]
    by (auto simp: pm_deinitialize_all_def split: prod.splits)
  then have "\<not> plInitialized q" if "map_of (mLoadedPlugins ?pm) k = Some q" for q
    using map_of_SomeD [OF that] by fastforce
  then have "getStatus k ?pm \<noteq> PLUGIN_INITIALIZED"
    by (auto simp: getStatus_def find_plugin_def split: option.splits)
  then show ?thesis using destroy_uninitialized [OF off] by (simp add: pm_destroy_def)
qed

text \<open>Initialising one plugin that is known and starts up makes exactly it initialised; a second call
  that skips initialised plugins does not call into the plugin again.\<close>

theorem initialize_once:
  assumes "find_plugin name pm = Some p" "\<not> plInitialized p" "plInitialize p (pmWorld pm) = (True, w)"
  shows "\<exists>pm'. pm_initialize name skip pm = (Inr (), pm') \<and> getStatus name pm' = PLUGIN_INITIALIZED
    \<and> (\<forall>k. k \<noteq> name \<longrightarrow> getStatus k pm' = getStatus k pm) \<and> pmWorld pm' = w
    \<and> pm_initialize name True pm' = (Inr (), pm')"
  using assms
  by (auto simp: pm_initialize_def bindX_def getPlugin_def getStatus_def set_plugin_def find_plugin_def
      map_of_insert_or_assign)

lemma initialize_once_witness:
  "\<exists>pm'. pm_initialize ''p'' True \<lparr>mLoadedPlugins = [(''p'', demo_plugin False True)], pmWorld = []\<rparr> = (Inr (), pm')
     \<and> getStatus ''p'' pm' = PLUGIN_INITIALIZED"
proof -
  let ?pm = "\<lparr>mLoadedPlugins = [(''p'', demo_plugin False True)], pmWorld = []\<rparr>"
  have "find_plugin ''p'' ?pm = Some (demo_plugin False True)" by (simp add: find_plugin_def)
  moreover have "\<not> plInitialized (demo_plugin False True)"
    "plInitialize (demo_plugin False True) (pmWorld ?pm) = (True, [''ini''])"
    by (simp_all add: demo_plugin_def)
  ultimately show ?thesis using initialize_once [of "''p''" ?pm "demo_plugin False True" "[''ini'']" True]
    by blast
qed

end
