(* ===== verification/Shutdown.thy ===== *)
theory Shutdown
  imports System
begin

text \<open>
  The program from the start of its threads to its end: the signal handler of \<^verbatim>\<open>src/main.cpp\<close>, the flag all
  loops test, and \<open>DynamicSubgraphBuilder::run\<close>, which starts the other threads, loops and joins them.
  The bodies of the loops are the turns of the theory \<open>System\<close>, so every execution is a schedule in
  which each thread repeats its own body.
\<close>

section \<open>Threads\<close>

datatype thread = MainLoop | DetectionLoop | StoreLoop | VisualisationLoop

definition other_threads :: "thread list" where
  "other_threads = [DetectionLoop, StoreLoop, VisualisationLoop]"

text \<open>The turns of one iteration of a thread's loop.\<close>

fun body_turns :: "thread \<Rightarrow> 'w turn list" where
  "body_turns MainLoop = map MainTurn [0..<3]"
| "body_turns DetectionLoop = [DetectionTurn]"
| "body_turns StoreLoop = map StoreTurn [0..<11]"
| "body_turns VisualisationLoop = [DrawTurn]"

lemma take_turns_nth:
  assumes "length ms = n" "\<And>i. i < n \<Longrightarrow> take_turn ipc js (f i) = ms ! i"
  shows "map (take_turn ipc js) (map f [0..<n]) = ms"
  using assms by (intro nth_equalityI) simp_all

text \<open>They are the bodies of the loops as the components define them.\<close>

lemma turns_are_bodies:
  "seqS (map (take_turn ipc js) (body_turns MainLoop)) = dsg_body ipc js"
  "seqS (map (take_turn ipc js) (body_turns StoreLoop)) = run_body ipc"
  by (simp_all only: body_turns.simps bodies_are_turns take_turns_nth [of "main_steps ipc js" 3 ipc js MainTurn]
      take_turns_nth [of "store_steps ipc" 11 ipc js StoreTurn] number_of_steps take_turn.simps if_True simp_thms)

text \<open>Where a thread is. Only the main thread is ever setting the flag, starting or joining others.\<close>

datatype 'w thread_pc = NotStarted | SettingFlag | Starting "thread list" | AtTest | InBody "'w turn list"
  | Joining "thread list" | Finished

record 'w execution =
  gIsRunning :: bool
  exPc :: "thread \<Rightarrow> 'w thread_pc"
  exProgram :: "'w dynamic_subgraph"

text \<open>The program is constructed and the signal handlers are installed.\<close>

definition ex_start :: "'w dynamic_subgraph \<Rightarrow> 'w execution" where
  "ex_start p = \<lparr>gIsRunning = False, exPc = (\<lambda>_. NotStarted)(MainLoop := SettingFlag), exProgram = p\<rparr>"

definition sigintHandler :: "'w execution \<Rightarrow> 'w execution" where
  "sigintHandler e = e\<lparr>gIsRunning := False\<rparr>"

definition at_pc :: "thread \<Rightarrow> 'w thread_pc \<Rightarrow> 'w execution \<Rightarrow> 'w execution" where
  "at_pc t pc e = e\<lparr>exPc := (exPc e)(t := pc)\<rparr>"

text \<open>Where the loop of a thread leads when the flag is cleared.\<close>

definition after_loop :: "thread \<Rightarrow> 'w thread_pc" where
  "after_loop t = (if t = MainLoop then Joining other_threads else Finished)"

inductive thread_step :: "'w ipc \<Rightarrow> 'j json \<Rightarrow> 'w execution \<Rightarrow> 'w execution \<Rightarrow> bool" for ipc js where
  set_flag: "exPc e MainLoop = SettingFlag \<Longrightarrow>
    thread_step ipc js e (at_pc MainLoop (Starting other_threads) (e\<lparr>gIsRunning := True\<rparr>))"
| spawn: "exPc e MainLoop = Starting (t # ts) \<Longrightarrow> thread_step ipc js e (at_pc MainLoop (Starting ts) (at_pc t AtTest e))"
| started: "exPc e MainLoop = Starting [] \<Longrightarrow> thread_step ipc js e (at_pc MainLoop AtTest e)"
| enter: "exPc e t = AtTest \<Longrightarrow> gIsRunning e \<Longrightarrow> thread_step ipc js e (at_pc t (InBody (body_turns t)) e)"
| leave: "exPc e t = AtTest \<Longrightarrow> \<not> gIsRunning e \<Longrightarrow> thread_step ipc js e (at_pc t (after_loop t) e)"
| turn: "exPc e t = InBody (x # xs) \<Longrightarrow> take_turn ipc js x (exProgram e) = Inr ((), p) \<Longrightarrow>
    thread_step ipc js e (at_pc t (InBody xs) (e\<lparr>exProgram := p\<rparr>))"
| again: "exPc e t = InBody [] \<Longrightarrow> thread_step ipc js e (at_pc t AtTest e)"
| join: "exPc e MainLoop = Joining (t # ts) \<Longrightarrow> exPc e t = Finished \<Longrightarrow> thread_step ipc js e (at_pc MainLoop (Joining ts) e)"
| joined: "exPc e MainLoop = Joining [] \<Longrightarrow> thread_step ipc js e (at_pc MainLoop Finished e)"

inductive_cases thread_stepE: "thread_step ipc js e f"

text \<open>Meanwhile the outside world changes and signals arrive. The number counts the steps of the threads.\<close>

inductive outside_step :: "'w execution \<Rightarrow> 'w execution \<Rightarrow> bool" where
  signal: "outside_step e (sigintHandler e)"
| world: "outside_step e (e\<lparr>exProgram := (exProgram e)\<lparr>dsWorld := f (dsWorld (exProgram e))\<rparr>\<rparr>)"

inductive executes :: "'w ipc \<Rightarrow> 'j json \<Rightarrow> nat \<Rightarrow> 'w execution \<Rightarrow> 'w execution \<Rightarrow> bool" for ipc js where
  nothing: "executes ipc js 0 e e"
| thread: "executes ipc js n e f \<Longrightarrow> thread_step ipc js f g \<Longrightarrow> executes ipc js (Suc n) e g"
| outside: "executes ipc js n e f \<Longrightarrow> outside_step f g \<Longrightarrow> executes ipc js n e g"

section \<open>Every execution is a schedule\<close>

fun owner :: "'w turn \<Rightarrow> thread option" where
  "owner (MainTurn i) = Some MainLoop"
| "owner DetectionTurn = Some DetectionLoop"
| "owner (StoreTurn i) = Some StoreLoop"
| "owner DrawTurn = Some VisualisationLoop"
| "owner (Outside f) = None"

text \<open>The turns of one thread in a schedule, and what is left of the iteration it is in.\<close>

definition turns_of :: "thread \<Rightarrow> 'w turn list \<Rightarrow> 'w turn list" where
  "turns_of t schedule = filter (\<lambda>x. owner x = Some t) schedule"

fun turns_left :: "'w thread_pc \<Rightarrow> 'w turn list" where
  "turns_left (InBody xs) = xs"
| "turns_left pc = []"

lemma body_owner: "x \<in> set (body_turns t) \<Longrightarrow> owner x = Some t"
  by (cases t) auto

definition repeats :: "thread \<Rightarrow> 'w turn list \<Rightarrow> bool" where
  "repeats t xs \<longleftrightarrow> (\<exists>n. xs = concat (replicate n (body_turns t)))"

lemma repeats_Nil [simp]: "repeats t []"
  unfolding repeats_def by (intro exI [of _ 0]) simp

lemma repeats_owner: "repeats t xs \<Longrightarrow> x \<in> set xs \<Longrightarrow> owner x = Some t"
  using body_owner by (auto simp: repeats_def split: if_splits)

lemma repeats_again: "repeats t xs \<Longrightarrow> repeats t (xs @ body_turns t)"
proof -
  assume "repeats t xs"
  then obtain n where "xs = concat (replicate n (body_turns t))" by (auto simp: repeats_def)
  then have "xs @ body_turns t = concat (replicate n (body_turns t) @ [body_turns t])" by simp
  then have "xs @ body_turns t = concat (replicate (Suc n) (body_turns t))" by (simp only: replicate_append_same replicate_Suc)
  then show ?thesis unfolding repeats_def by blast
qed

lemma turns_of_simps [simp]:
  "turns_of t [] = []" "turns_of t (xs @ ys) = turns_of t xs @ turns_of t ys"
  "turns_of t [x] = (if owner x = Some t then [x] else [])"
  by (simp_all add: turns_of_def)

lemma at_pc_fields [simp]:
  "exPc (at_pc t pc e) u = (if u = t then pc else exPc e u)" "gIsRunning (at_pc t pc e) = gIsRunning e"
  "exProgram (at_pc t pc e) = exProgram e"
  by (simp_all add: at_pc_def)

definition scheduled :: "'w ipc \<Rightarrow> 'j json \<Rightarrow> 'w dynamic_subgraph \<Rightarrow> 'w turn list \<Rightarrow> 'w execution \<Rightarrow> bool" where
  "scheduled ipc js p schedule e \<longleftrightarrow> run_schedule ipc js schedule p = Inr ((), exProgram e)
     \<and> (\<forall>t. repeats t (turns_of t schedule @ turns_left (exPc e t)))"

lemma run_schedule_snoc:
  "run_schedule ipc js schedule p = Inr ((), q) \<Longrightarrow> run_schedule ipc js (schedule @ [x]) p = take_turn ipc js x q"
  by (simp add: run_schedule_append run_schedule_one)

text \<open>What holds of the threads at any time: who has not been started yet, who has been joined, and that the
  flag stays cleared once a thread has left its loop.\<close>

fun worker_pc :: "'w thread_pc \<Rightarrow> bool" where
  "worker_pc SettingFlag = False"
| "worker_pc (Starting ts) = False"
| "worker_pc (Joining ts) = False"
| "worker_pc pc = True"

fun main_ok :: "'w thread_pc \<Rightarrow> (thread \<Rightarrow> 'w thread_pc) \<Rightarrow> bool" where
  "main_ok NotStarted pc = False"
| "main_ok SettingFlag pc = (\<forall>t. t \<noteq> MainLoop \<longrightarrow> pc t = NotStarted)"
| "main_ok (Starting ts) pc = (distinct ts \<and> MainLoop \<notin> set ts \<and> length ts \<le> 3 \<and>
     (\<forall>t. t \<noteq> MainLoop \<longrightarrow> (t \<in> set ts) = (pc t = NotStarted)))"
| "main_ok (Joining ts) pc = (MainLoop \<notin> set ts \<and> length ts \<le> 3 \<and>
     (\<forall>t. t \<noteq> MainLoop \<longrightarrow> pc t \<noteq> NotStarted \<and> (t \<in> set ts \<or> pc t = Finished)))"
| "main_ok Finished pc = (\<forall>t. pc t = Finished)"
| "main_ok m pc = (\<forall>t. pc t \<noteq> NotStarted)"

definition left_loop :: "'w thread_pc \<Rightarrow> bool" where
  "left_loop pc \<longleftrightarrow> pc = Finished \<or> (\<exists>ts. pc = Joining ts)"

definition threads_ok :: "'w execution \<Rightarrow> bool" where
  "threads_ok e \<longleftrightarrow> (\<forall>t. t \<noteq> MainLoop \<longrightarrow> worker_pc (exPc e t)) \<and> main_ok (exPc e MainLoop) (exPc e)
     \<and> (\<forall>t. left_loop (exPc e t) \<longrightarrow> \<not> gIsRunning e) \<and> (\<forall>t. length (turns_left (exPc e t)) \<le> length (body_turns t :: 'w turn list))"

lemma left_loop_simps [simp]:
  "left_loop Finished" "left_loop (Joining ts)" "\<not> left_loop NotStarted" "\<not> left_loop SettingFlag" "\<not> left_loop (Starting ts)"
  "\<not> left_loop AtTest" "\<not> left_loop (InBody xs)"
  by (simp_all add: left_loop_def)

lemma other_threads_simps [simp]:
  "distinct other_threads" "length other_threads = 3" "t \<in> set other_threads \<longleftrightarrow> t \<noteq> MainLoop"
  by (cases t; simp add: other_threads_def)+

lemma threads_ok_start: "threads_ok (ex_start p)"
  by (simp add: threads_ok_def ex_start_def)

lemma threads_okD:
  fixes e :: "'w execution"
  assumes "threads_ok e"
  shows "t \<noteq> MainLoop \<Longrightarrow> exPc e t \<noteq> NotStarted \<Longrightarrow> exPc e MainLoop \<noteq> SettingFlag"
    and "left_loop (exPc e t) \<Longrightarrow> \<not> gIsRunning e"
    and "length (turns_left (exPc e t)) \<le> length (body_turns t :: 'w turn list)"
  using assms by (auto simp: threads_ok_def)

lemma threads_ok_starting:
  assumes "threads_ok e" "exPc e MainLoop = Starting ts" "t \<in> set ts"
  shows "t \<noteq> MainLoop" "exPc e t = NotStarted"
proof -
  have a: "MainLoop \<notin> set ts" "\<forall>t. t \<noteq> MainLoop \<longrightarrow> (t \<in> set ts) = (exPc e t = NotStarted)"
    using assms(1,2) by (simp_all add: threads_ok_def)
  then show "t \<noteq> MainLoop" using assms(3) by blast
  then show "exPc e t = NotStarted" using a(2) assms(3) by blast
qed

lemma threads_ok_step: "thread_step ipc js e f \<Longrightarrow> threads_ok e \<Longrightarrow> threads_ok f"
proof (induction rule: thread_step.induct)
  case (set_flag e)
  then show ?case by (auto simp: threads_ok_def)
next
  case (spawn e t ts)
  then have "t \<noteq> MainLoop" "t \<notin> set ts" by (auto simp: threads_ok_def)
  then show ?case using spawn by (auto simp: threads_ok_def)
next
  case (started e)
  then show ?case by (auto simp: threads_ok_def)
next
  case (enter e t)
  note d = threads_okD(1) [OF enter(3), of t] threads_okD(2) [OF enter(3), of MainLoop]
  show ?case using enter d by (cases "exPc e MainLoop") (auto simp: threads_ok_def)
next
  case (leave e t)
  note d = threads_okD(1) [OF leave(3), of t] threads_okD(2) [OF leave(3), of MainLoop]
  show ?case using leave d by (cases "exPc e MainLoop") (auto simp: threads_ok_def after_loop_def)
next
  case (turn e t x xs p)
  note d = threads_okD(1) [OF turn(3), of t] threads_okD(2) [OF turn(3), of MainLoop]
  have "Suc (length xs) \<le> length (body_turns t :: 'a turn list)" using threads_okD(3) [OF turn(3), of t] turn(1) by simp
  then show ?case using turn d by (cases "t = MainLoop"; cases "exPc e MainLoop") (auto simp: threads_ok_def)
next
  case (again e t)
  note d = threads_okD(1) [OF again(2), of t] threads_okD(2) [OF again(2), of MainLoop]
  show ?case using again d by (cases "t = MainLoop"; cases "exPc e MainLoop") (auto simp: threads_ok_def)
next
  case (join e t ts)
  note d = threads_okD(2) [OF join(3), of MainLoop]
  show ?case using join d by (auto simp: threads_ok_def)
next
  case (joined e)
  note d = threads_okD(2) [OF joined(2), of MainLoop]
  show ?case using joined d by (auto simp: threads_ok_def)
qed

lemma scheduled_step:
  assumes "thread_step ipc js e f" "threads_ok e" "scheduled ipc js p schedule e"
  shows "\<exists>schedule'. scheduled ipc js p schedule' f"
proof -
  note r = assms(3) [unfolded scheduled_def]
  have same: "scheduled ipc js p schedule f"
    if "exProgram f = exProgram e" "\<And>t. turns_left (exPc f t) = turns_left (exPc e t)"
    using r that by (simp add: scheduled_def)
  from assms(1) show ?thesis
  proof cases
    case (spawn t ts)
    then have "exPc e t = NotStarted" "t \<noteq> MainLoop" using threads_ok_starting [OF assms(2)] by simp_all
    then show ?thesis using spawn by (intro exI [of _ schedule] same) auto
  next
    case (enter t)
    have "repeats t (turns_of t schedule @ turns_left (exPc e t))" using r by blast
    then have "repeats t (turns_of t schedule @ body_turns t)" using enter(2) by (simp add: repeats_again)
    then have "scheduled ipc js p schedule f" using r enter by (auto simp: scheduled_def)
    then show ?thesis by blast
  next
    case (leave t)
    then show ?thesis by (intro exI [of _ schedule] same) (auto simp: after_loop_def)
  next
    case (turn t x xs q)
    have "repeats t (turns_of t schedule @ turns_left (exPc e t))" using r by blast
    then have l: "repeats t (turns_of t schedule @ x # xs)" using turn(2) by simp
    then have o: "owner x = Some t" by (rule repeats_owner) simp
    have "run_schedule ipc js (schedule @ [x]) p = Inr ((), q)"
      using r turn(3) by (simp add: run_schedule_snoc)
    moreover have "repeats u (turns_of u (schedule @ [x]) @ turns_left (exPc f u))" for u
      using r l o turn by (cases "u = t") auto
    ultimately have "scheduled ipc js p (schedule @ [x]) f" using turn(1) by (simp add: scheduled_def)
    then show ?thesis by blast
  qed (intro exI [of _ schedule] same; auto)+
qed

lemma executes_invariant:
  "executes ipc js n (ex_start p) e \<Longrightarrow> threads_ok e \<and> (\<exists>schedule. scheduled ipc js p schedule e)"
proof (induction n "ex_start p" e rule: executes.induct)
  case nothing
  have "scheduled ipc js p [] (ex_start p)"
    by (simp add: scheduled_def ex_start_def run_schedule_def)
  then show ?case using threads_ok_start by blast
next
  case (thread n f g)
  then show ?case using threads_ok_step scheduled_step by blast
next
  case (outside n f g)
  then obtain schedule where s: "scheduled ipc js p schedule f" by blast
  from outside(3) have "threads_ok g \<and> (\<exists>schedule. scheduled ipc js p schedule g)"
  proof cases
    case signal
    have "scheduled ipc js p schedule g" using s signal by (simp add: scheduled_def sigintHandler_def)
    then show ?thesis using outside(2) signal by (auto simp: threads_ok_def sigintHandler_def)
  next
    case (world h)
    have "run_schedule ipc js (schedule @ [Outside h]) p = Inr ((), exProgram g)"
      using s world run_schedule_snoc [of ipc js schedule p "exProgram f" "Outside h"] by (simp add: scheduled_def world_def)
    then have "scheduled ipc js p (schedule @ [Outside h]) g" using s world by (simp add: scheduled_def)
    then show ?thesis using outside(2) world by (auto simp: threads_ok_def)
  qed
  then show ?case .
qed


section \<open>Stopping\<close>

text \<open>How many steps a thread has left once the flag is cleared.\<close>

fun pc_left :: "thread \<Rightarrow> 'w thread_pc \<Rightarrow> nat" where
  "pc_left t (InBody xs) = length xs + (if t = MainLoop then 6 else 2)"
| "pc_left t (Starting ts) = length ts + 6"
| "pc_left t (Joining ts) = length ts + 1"
| "pc_left t Finished = 0"
| "pc_left t pc = (if t = MainLoop then 5 else 1)"

definition steps_left :: "'w execution \<Rightarrow> nat" where
  "steps_left e = (\<Sum>t\<leftarrow>MainLoop # other_threads. pc_left t (exPc e t))"

lemma steps_left_sum: "steps_left e = pc_left MainLoop (exPc e MainLoop) + pc_left DetectionLoop (exPc e DetectionLoop)
    + pc_left StoreLoop (exPc e StoreLoop) + pc_left VisualisationLoop (exPc e VisualisationLoop)"
  by (simp add: steps_left_def other_threads_def)

lemma steps_left_at_pc:
  "steps_left (at_pc t pc e) + pc_left t (exPc e t) = steps_left e + pc_left t pc"
  by (cases t) (simp_all add: steps_left_sum)

lemma steps_left_max:
  assumes "threads_ok e"
  shows "steps_left e \<le> 28"
proof -
  have l: "length (turns_left (exPc e t)) \<le> length (body_turns t :: 'a turn list)" for t using assms by (simp add: threads_ok_def)
  have w: "pc_left t (exPc e t) \<le> length (body_turns t :: 'a turn list) + 2" if "t \<noteq> MainLoop" for t
  proof -
    have "worker_pc (exPc e t)" using assms that by (simp add: threads_ok_def)
    then show ?thesis using l [of t] that by (cases "exPc e t") simp_all
  qed
  have "main_ok (exPc e MainLoop) (exPc e)" using assms by (simp add: threads_ok_def)
  then have "pc_left MainLoop (exPc e MainLoop) \<le> 9" using l [of MainLoop] by (cases "exPc e MainLoop") simp_all
  then show ?thesis using w [of DetectionLoop] w [of StoreLoop] w [of VisualisationLoop] by (simp add: steps_left_sum)
qed

definition stopping :: "'w execution \<Rightarrow> bool" where
  "stopping e \<longleftrightarrow> \<not> gIsRunning e \<and> exPc e MainLoop \<noteq> SettingFlag"

lemma steps_left_frame [simp]: "steps_left (e\<lparr>exProgram := p\<rparr>) = steps_left e" "steps_left (sigintHandler e) = steps_left e"
  by (simp_all add: steps_left_sum sigintHandler_def)

lemma stopping_step:
  assumes "thread_step ipc js e f" "threads_ok e" "stopping e"
  shows "stopping f \<and> steps_left f < steps_left e"
  using assms(1)
proof cases
  case (spawn t ts)
  then have "exPc e t = NotStarted" "t \<noteq> MainLoop" using threads_ok_starting [OF assms(2)] by simp_all
  then show ?thesis using spawn assms(3) steps_left_at_pc [of MainLoop "Starting ts" "at_pc t AtTest e"]
      steps_left_at_pc [of t AtTest e] by (simp add: stopping_def)
next
  case (leave t)
  then show ?thesis using assms(3) steps_left_at_pc [of t "after_loop t" e]
    by (auto simp: stopping_def after_loop_def other_threads_def)
next
  case (turn t x xs p)
  then show ?thesis using assms(3) steps_left_at_pc [of t "InBody xs" "e\<lparr>exProgram := p\<rparr>"] by (auto simp: stopping_def)
next
  case (again t)
  then show ?thesis using assms(3) steps_left_at_pc [of t AtTest e] by (auto simp: stopping_def)
next
  case started
  then show ?thesis using assms(3) steps_left_at_pc [of MainLoop AtTest e] by (auto simp: stopping_def)
next
  case (join t ts)
  then show ?thesis using assms(3) steps_left_at_pc [of MainLoop "Joining ts" e] by (auto simp: stopping_def)
next
  case joined
  then show ?thesis using assms(3) steps_left_at_pc [of MainLoop Finished e] by (auto simp: stopping_def)
qed (use assms(3) in \<open>simp_all add: stopping_def\<close>)

lemma stopping_executes:
  assumes "executes ipc js n e f" "threads_ok e" "stopping e"
  shows "threads_ok f \<and> stopping f \<and> n + steps_left f \<le> steps_left e"
  using assms
proof (induction rule: executes.induct)
  case (thread n e f g)
  then show ?case using threads_ok_step [OF thread(2)] stopping_step [OF thread(2)] by force
next
  case (outside n e f g)
  then have f: "threads_ok f" "stopping f" "n + steps_left f \<le> steps_left e" by blast+
  from outside(2) have "threads_ok g \<and> stopping g \<and> steps_left g = steps_left f"
    by cases (use f(1,2) in \<open>auto simp: threads_ok_def stopping_def sigintHandler_def steps_left_sum\<close>)
  then show ?case using f(3) by simp
qed simp

text \<open>A thread cannot go on only where a turn fails, or the main thread waits for another one.\<close>

definition fails :: "'w ipc \<Rightarrow> 'j json \<Rightarrow> 'w execution \<Rightarrow> thread \<Rightarrow> bool" where
  "fails ipc js e t \<longleftrightarrow> (\<exists>x xs err. exPc e t = InBody (x # xs) \<and> take_turn ipc js x (exProgram e) = Inl err)"

lemma body_moves: "exPc e t = InBody xs \<Longrightarrow> (\<exists>f. thread_step ipc js e f) \<or> fails ipc js e t"
proof (cases xs)
  case (Cons x ys)
  assume "exPc e t = InBody xs"
  then show ?thesis using Cons thread_step.turn [of e t x ys ipc js]
    by (cases "take_turn ipc js x (exProgram e)") (auto simp: fails_def)
qed (blast intro: thread_step.again)

lemma test_moves: "exPc e t = AtTest \<Longrightarrow> \<exists>f. thread_step ipc js e f"
  using thread_step.enter [of e t ipc js] thread_step.leave [of e t ipc js] by blast

lemma stuck_cases:
  assumes "\<forall>f. \<not> thread_step ipc js e f" "threads_ok e"
  shows "exPc e MainLoop = Finished \<or> (\<exists>t. fails ipc js e t)"
proof (cases "exPc e MainLoop")
  case NotStarted
  then show ?thesis using assms(2) by (simp add: threads_ok_def)
next
  case SettingFlag
  then show ?thesis using assms(1) thread_step.set_flag by blast
next
  case (Starting ts)
  then show ?thesis using assms(1) thread_step.spawn thread_step.started by (metis list.exhaust)
next
  case AtTest
  then show ?thesis using assms(1) test_moves by blast
next
  case (InBody xs)
  then show ?thesis using assms(1) body_moves by blast
next
  case (Joining ts)
  show ?thesis
  proof (cases ts)
    case Nil
    then show ?thesis using Joining assms(1) thread_step.joined by blast
  next
    case (Cons t us)
    have m: "t \<noteq> MainLoop" using Joining Cons assms(2) by (auto simp: threads_ok_def)
    have f: "exPc e t \<noteq> Finished" using thread_step.join [of e t us ipc js] Joining Cons assms(1) by blast
    have w: "worker_pc (exPc e t)" "exPc e t \<noteq> NotStarted" using Joining assms(2) m by (simp_all add: threads_ok_def)
    show ?thesis
    proof (cases "exPc e t")
      case AtTest
      then show ?thesis using assms(1) test_moves by blast
    next
      case (InBody xs)
      then show ?thesis using assms(1) body_moves by blast
    qed (use f w in simp_all)
  qed
qed simp


section \<open>A run to the end\<close>

definition snapshot :: "bool \<Rightarrow> peer thread_pc \<Rightarrow> peer thread_pc \<Rightarrow> peer thread_pc \<Rightarrow> peer thread_pc \<Rightarrow> peer execution" where
  "snapshot r m d s v = \<lparr>gIsRunning = r, exPc = (\<lambda>t. case t of MainLoop \<Rightarrow> m | DetectionLoop \<Rightarrow> d | StoreLoop \<Rightarrow> s
     | VisualisationLoop \<Rightarrow> v), exProgram = demo_dsg 15\<rparr>"

lemma snapshot_simps [simp]:
  "exPc (snapshot r m d s v) MainLoop = m" "exPc (snapshot r m d s v) DetectionLoop = d"
  "exPc (snapshot r m d s v) StoreLoop = s" "exPc (snapshot r m d s v) VisualisationLoop = v"
  "gIsRunning (snapshot r m d s v) = r" "exProgram (snapshot r m d s v) = demo_dsg 15"
  "snapshot r m d s v\<lparr>gIsRunning := r'\<rparr> = snapshot r' m d s v" "snapshot r m d s v\<lparr>exProgram := demo_dsg 15\<rparr> = snapshot r m d s v"
  by (simp_all add: snapshot_def)

lemma snapshot_at_pc [simp]:
  "at_pc MainLoop pc (snapshot r m d s v) = snapshot r pc d s v" "at_pc DetectionLoop pc (snapshot r m d s v) = snapshot r m pc s v"
  "at_pc StoreLoop pc (snapshot r m d s v) = snapshot r m d pc v" "at_pc VisualisationLoop pc (snapshot r m d s v) = snapshot r m d s pc"
  by (auto simp: at_pc_def snapshot_def fun_eq_iff split: thread.split)

lemma demo_draws: "take_turn demo_ipc js DrawTurn (demo_dsg 15) = Inr ((), demo_dsg 15)"
  by (simp add: sag_visualise_def graph_new_def bindS_def)

definition early_run :: "peer execution" where
  "early_run = snapshot True (Starting []) AtTest AtTest (InBody [])"

lemma early_run: "executes demo_ipc js 6 (ex_start (demo_dsg 15)) early_run"
proof -
  note step = executes.thread [where ipc = demo_ipc and js = js]
  let ?s = "snapshot False SettingFlag NotStarted NotStarted NotStarted"
  have "ex_start (demo_dsg 15) = ?s" by (auto simp: ex_start_def snapshot_def fun_eq_iff split: thread.split)
  then have "executes demo_ipc js 0 (ex_start (demo_dsg 15)) ?s" using executes.nothing by metis
  from step [OF this thread_step.set_flag]
  have "executes demo_ipc js 1 (ex_start (demo_dsg 15)) (snapshot True (Starting other_threads) NotStarted NotStarted NotStarted)"
    by simp
  from step [OF this thread_step.spawn [of _ DetectionLoop "[StoreLoop, VisualisationLoop]"]]
  have "executes demo_ipc js 2 (ex_start (demo_dsg 15)) (snapshot True (Starting [StoreLoop, VisualisationLoop]) AtTest NotStarted NotStarted)"
    by (simp add: other_threads_def numeral_2_eq_2)
  from step [OF this thread_step.spawn [of _ StoreLoop "[VisualisationLoop]"]]
  have "executes demo_ipc js 3 (ex_start (demo_dsg 15)) (snapshot True (Starting [VisualisationLoop]) AtTest AtTest NotStarted)"
    by simp
  from step [OF this thread_step.spawn [of _ VisualisationLoop "[]"]]
  have "executes demo_ipc js 4 (ex_start (demo_dsg 15)) (snapshot True (Starting []) AtTest AtTest AtTest)" by simp
  from step [OF this thread_step.enter [of _ VisualisationLoop]]
  have "executes demo_ipc js 5 (ex_start (demo_dsg 15)) (snapshot True (Starting []) AtTest AtTest (InBody [DrawTurn]))" by simp
  from step [OF this thread_step.turn [of _ VisualisationLoop DrawTurn "[]" _ _ "demo_dsg 15"]]
  show ?thesis unfolding early_run_def by (simp add: demo_draws del: take_turn.simps)
qed

definition late_run :: "peer execution" where
  "late_run = snapshot False Finished Finished Finished Finished"

lemma late_run: "executes demo_ipc js 10 (sigintHandler early_run) late_run"
proof -
  note step = executes.thread [where ipc = demo_ipc and js = js]
  let ?s = "snapshot False (Starting []) AtTest AtTest (InBody [])"
  have "sigintHandler early_run = ?s" by (simp add: sigintHandler_def early_run_def)
  then have "executes demo_ipc js 0 (sigintHandler early_run) ?s" using executes.nothing by metis
  from step [OF this thread_step.again [of _ VisualisationLoop]]
  have "executes demo_ipc js 1 (sigintHandler early_run) (snapshot False (Starting []) AtTest AtTest AtTest)" by simp
  from step [OF this thread_step.started]
  have "executes demo_ipc js 2 (sigintHandler early_run) (snapshot False AtTest AtTest AtTest AtTest)"
    by (simp add: numeral_2_eq_2)
  from step [OF this thread_step.leave [of _ MainLoop]]
  have "executes demo_ipc js 3 (sigintHandler early_run) (snapshot False (Joining other_threads) AtTest AtTest AtTest)"
    by (simp add: after_loop_def)
  from step [OF this thread_step.leave [of _ DetectionLoop]]
  have "executes demo_ipc js 4 (sigintHandler early_run) (snapshot False (Joining other_threads) Finished AtTest AtTest)"
    by (simp add: after_loop_def)
  from step [OF this thread_step.leave [of _ StoreLoop]]
  have "executes demo_ipc js 5 (sigintHandler early_run) (snapshot False (Joining other_threads) Finished Finished AtTest)"
    by (simp add: after_loop_def)
  from step [OF this thread_step.leave [of _ VisualisationLoop]]
  have "executes demo_ipc js 6 (sigintHandler early_run) (snapshot False (Joining other_threads) Finished Finished Finished)"
    by (simp add: after_loop_def)
  from step [OF this thread_step.join [of _ DetectionLoop "[StoreLoop, VisualisationLoop]"]]
  have "executes demo_ipc js 7 (sigintHandler early_run) (snapshot False (Joining [StoreLoop, VisualisationLoop]) Finished Finished Finished)"
    by (simp add: other_threads_def)
  from step [OF this thread_step.join [of _ StoreLoop "[VisualisationLoop]"]]
  have "executes demo_ipc js 8 (sigintHandler early_run) (snapshot False (Joining [VisualisationLoop]) Finished Finished Finished)" by simp
  from step [OF this thread_step.join [of _ VisualisationLoop "[]"]]
  have "executes demo_ipc js 9 (sigintHandler early_run) (snapshot False (Joining []) Finished Finished Finished)" by simp
  from step [OF this thread_step.joined] show ?thesis by (simp add: late_run_def)
qed



text \<open>A signal that arrives after the handlers are installed and before \<open>main\<close> sets the flag is lost.\<close>

lemma early_signal_lost:
  "thread_step ipc js (sigintHandler (ex_start p)) e \<Longrightarrow> thread_step ipc js (ex_start p) e \<and> gIsRunning e"
proof -
  have "sigintHandler (ex_start p) = ex_start p" by (simp add: sigintHandler_def ex_start_def)
  moreover have "gIsRunning e" if "thread_step ipc js (ex_start p) e"
    using that by cases (auto simp: ex_start_def fun_upd_apply split: if_splits)
  ultimately show "thread_step ipc js (sigintHandler (ex_start p)) e \<Longrightarrow> ?thesis" by simp
qed

end
