(* ===== verification/Msg_Queue_Monitor.thy ===== *)
theory Msg_Queue_Monitor
  imports Prelude
begin

text \<open>
  \<^verbatim>\<open>src/msg-queue-monitor.cpp\<close>, the tool that lists the messages waiting in the queue without taking
  them out. A message's key packs the receiver's process id into the low and the message type into
  the high half of a 64-bit word. The pid that stands for the server is a constant of the IPC
  library, an argument here, and so is \<open>msgrcv\<close>.
\<close>

unbundle bit_operations_syntax

record test_msg =
  tmKey :: "64 word"
  tmRequestId :: nat
  tmSenderId :: "32 word"

text \<open>What is printed for a message: request or response, type, receiver, and for a request its id and
  its sender.\<close>

datatype report = Request "64 word" "32 word" nat "32 word" | Response "64 word" "32 word"

definition receiver_pid :: "64 word \<Rightarrow> 32 word" where
  "receiver_pid key = ucast (key AND 0x00000000FFFFFFFF)"

definition msg_type :: "64 word \<Rightarrow> 64 word" where
  "msg_type key = drop_bit 32 (key AND 0xFFFFFFFF00000000)"

definition printMsg :: "32 word \<Rightarrow> test_msg \<Rightarrow> report" where
  "printMsg serverPid msg = (let receiverPid = receiver_pid (tmKey msg) in
     if receiverPid = serverPid then Request (msg_type (tmKey msg)) receiverPid (tmRequestId msg) (tmSenderId msg)
     else Response (msg_type (tmKey msg)) receiverPid)"

text \<open>\<open>msgrcv\<close> with \<open>MSG_COPY\<close> gives a copy of the message at an index, or an error number.\<close>

definition receiveMsg :: "(nat \<Rightarrow> int + test_msg) \<Rightarrow> int \<Rightarrow> nat \<Rightarrow> test_msg option result" where
  "receiveMsg msgrcv enomsg idx = (case msgrcv idx of
       Inl errno \<Rightarrow> bindR (assertR (errno = enomsg)) (\<lambda>_. Inr None)
     | Inr payload \<Rightarrow> Inr (Some payload))"

partial_function (option) monitor_from ::
  "(nat \<Rightarrow> int + test_msg) \<Rightarrow> int \<Rightarrow> 32 word \<Rightarrow> nat \<Rightarrow> report list \<Rightarrow> report list result option" where
  "monitor_from msgrcv enomsg serverPid idx printed = (case receiveMsg msgrcv enomsg idx of
       Inl e \<Rightarrow> Some (Inl e)
     | Inr None \<Rightarrow> Some (Inr printed)
     | Inr (Some msg) \<Rightarrow> monitor_from msgrcv enomsg serverPid (Suc idx) (printed @ [printMsg serverPid msg]))"

definition monitor_main :: "(nat \<Rightarrow> int + test_msg) \<Rightarrow> int \<Rightarrow> 32 word \<Rightarrow> report list result option" where
  "monitor_main msgrcv enomsg serverPid = monitor_from msgrcv enomsg serverPid 0 []"

section \<open>Keys\<close>

definition make_key :: "32 word \<Rightarrow> 32 word \<Rightarrow> 64 word" where
  "make_key type pid = push_bit 32 (ucast type) OR ucast pid"

lemma low_mask: "(0x00000000FFFFFFFF :: 64 word) = mask 32" "(0xFFFFFFFF00000000 :: 64 word) = push_bit 32 (mask 32)"
  by (simp_all add: mask_eq_exp_minus_1 push_bit_eq_mult)

lemma receiver_of_key: "receiver_pid (make_key type pid) = pid"
  unfolding receiver_pid_def make_key_def low_mask
  by (rule bit_eqI) (auto simp: bit_simps)

lemma type_of_key: "msg_type (make_key type pid) = ucast type"
  unfolding msg_type_def make_key_def low_mask
  by (rule bit_eqI) (auto simp: bit_simps dest: bit_imp_le_length)

lemma key_of_parts: "make_key (ucast (msg_type key)) (receiver_pid key) = key"
  unfolding msg_type_def receiver_pid_def make_key_def low_mask
  by (rule bit_eqI) (auto simp: bit_simps)

section \<open>The whole queue\<close>

text \<open>The queue seen by the tool: a list, and an error past its end.\<close>

definition queue_of :: "test_msg list \<Rightarrow> int \<Rightarrow> nat \<Rightarrow> int + test_msg" where
  "queue_of ms errno i = (if i < length ms then Inr (ms ! i) else Inl errno)"

lemma monitor_rest:
  "i \<le> length ms \<Longrightarrow> monitor_from (queue_of ms enomsg) enomsg server i printed
    = Some (Inr (printed @ map (printMsg server) (drop i ms)))"
proof (induction "length ms - i" arbitrary: i printed)
  case 0
  then show ?case by (simp add: monitor_from.simps receiveMsg_def queue_of_def)
next
  case (Suc n)
  then have "n = length ms - Suc i" "Suc i \<le> length ms" "drop i ms = ms ! i # drop (Suc i) ms"
    by (auto simp: Cons_nth_drop_Suc)
  then show ?case using Suc.hyps(1) [of "Suc i"] Suc.prems Suc.hyps(2)
    by (subst monitor_from.simps) (simp add: receiveMsg_def queue_of_def)
qed

section \<open>Properties\<close>


text \<open>The tool ends and prints every waiting message once, in the queue's order; any error but the one that says
  that there is no further message aborts it.\<close>

theorem monitor_prints_all:
  "monitor_main (queue_of ms enomsg) enomsg server = Some (Inr (map (printMsg server) ms))
    \<and> (errno \<noteq> enomsg \<longrightarrow> monitor_main (queue_of [] errno) enomsg server = Some (Inl AssertionFailure))"
  by (simp add: monitor_main_def monitor_rest) (simp add: monitor_from.simps receiveMsg_def queue_of_def)

lemma monitor_prints_all_witness:
  "monitor_main (queue_of [] 11) 42 0 = Some (Inl AssertionFailure)"
  using monitor_prints_all [where errno = 11 and enomsg = 42 and server = 0] by simp

end
