(* ===== verification/Logging.thy ===== *)
theory Logging
  imports Prelude
begin

text \<open>
  The logging macros of \<^verbatim>\<open>src/common.hpp\<close>. The level a build is configured with decides for each
  severity whether its macro prints or is empty; the text goes to the error stream.
\<close>

datatype log_level = TRACE | DEBUG | INFO | WARN | ERROR | FATAL

fun level_number :: "log_level \<Rightarrow> nat" where
  "level_number TRACE = 0"
| "level_number DEBUG = 1"
| "level_number INFO = 2"
| "level_number WARN = 3"
| "level_number ERROR = 4"
| "level_number FATAL = 5"

lemma level_number_inj: "level_number a = level_number b \<longleftrightarrow> a = b"
  by (cases a; cases b) simp_all

instantiation log_level :: linorder
begin

definition less_eq_log_level :: "log_level \<Rightarrow> log_level \<Rightarrow> bool" where
  "less_eq_log_level a b \<longleftrightarrow> level_number a \<le> level_number b"

definition less_log_level :: "log_level \<Rightarrow> log_level \<Rightarrow> bool" where
  "less_log_level a b \<longleftrightarrow> level_number a < level_number b"

instance
  by standard (auto simp: less_eq_log_level_def less_log_level_def level_number_inj)

end

fun severity_text :: "log_level \<Rightarrow> string" where
  "severity_text TRACE = ''[TRACE]''"
| "severity_text DEBUG = ''[DEBUG]''"
| "severity_text INFO = ''[INFO] ''"
| "severity_text WARN = ''[WARN] ''"
| "severity_text ERROR = ''[ERROR]''"
| "severity_text FATAL = ''[FATAL]''"

definition escape :: "string \<Rightarrow> string" where
  "escape c = CHR 0x1B # ''['' @ c @ ''m''"

fun severity_color :: "log_level \<Rightarrow> string" where
  "severity_color TRACE = escape ''0;36''"
| "severity_color DEBUG = escape ''0;94''"
| "severity_color INFO = escape ''0;92''"
| "severity_color WARN = escape ''0;93''"
| "severity_color ERROR = escape ''0;91''"
| "severity_color FATAL = escape ''0;95''"

text \<open>Where a macro stands: \<open>std::source_location\<close>, with the line as text.\<close>

record source_location =
  slFunction :: string
  slFile :: string
  slLine :: string

text \<open>The line printed by the full format (\<open>FDL_LOG_MINIMAL\<close> not defined); \<open>timestamp\<close> is empty unless
  the build asks for it.\<close>

definition log_line :: "string \<Rightarrow> log_level \<Rightarrow> source_location \<Rightarrow> string \<Rightarrow> string" where
  "log_line timestamp severity source msg =
     severity_color severity @ timestamp @ severity_text severity @ '' '' @ slFunction source
     @ '' ('' @ slFile source @ '':'' @ slLine source @ ''):'' @ escape ''0'' @ '' '' @ msg @ [CHR 0x0A]"

text \<open>
  The line printed by the short format (\<open>FDL_LOG_MINIMAL\<close>): the functions of the project on the call stack,
  outermost first. The stack has the innermost frame first. The iterator is dereferenced without
  checking that a frame of the project was found.
\<close>

record stack_frame =
  frSourceFile :: string
  frName :: string

fun occurs_in :: "string \<Rightarrow> string \<Rightarrow> bool" where
  "occurs_in needle [] = (needle = [])"
| "occurs_in needle (c # cs) = (take (length needle) (c # cs) = needle \<or> occurs_in needle cs)"

definition in_project :: "stack_frame \<Rightarrow> bool" where
  "in_project rit = occurs_in ''/home/ubuntu/stream/STREAM-FDL'' (frSourceFile rit)"

fun skip_foreign :: "stack_frame list \<Rightarrow> stack_frame list" where
  "skip_foreign [] = []"
| "skip_foreign (rit # rest) = (if \<not> in_project rit then skip_foreign rest else rit # rest)"

fun show_callees :: "stack_frame list \<Rightarrow> string" where
  "show_callees [] = []"
| "show_callees (rit # rest) = (if in_project rit then '' -> '' @ frName rit @ show_callees rest else show_callees rest)"

definition log_line_minimal :: "log_level \<Rightarrow> stack_frame list \<Rightarrow> string \<Rightarrow> string result" where
  "log_line_minimal severity trace msg = (case skip_foreign (rev trace) of
       [] \<Rightarrow> Inl OutOfRange
     | rit # rest \<Rightarrow> Inr (severity_color severity @ severity_text severity @ ''('' @ frName rit @ show_callees rest
         @ ''):'' @ escape ''0'' @ '' '' @ msg @ [CHR 0x0A, CHR 0x0A]))"

definition log_at :: "log_level \<Rightarrow> string \<Rightarrow> log_level \<Rightarrow> source_location \<Rightarrow> string \<Rightarrow> string list \<Rightarrow> string list" where
  "log_at configured timestamp severity source msg out =
     (if configured \<le> severity then out @ [log_line timestamp severity source msg] else out)"

text \<open>The output of a run that passes a list of macros.\<close>

definition log_run :: "log_level \<Rightarrow> (log_level \<times> string \<times> source_location \<times> string) list \<Rightarrow> string list" where
  "log_run configured calls = fold (\<lambda>(severity, timestamp, source, msg). log_at configured timestamp severity source msg) calls []"

fun line_of :: "log_level \<times> string \<times> source_location \<times> string \<Rightarrow> string" where
  "line_of (severity, timestamp, source, msg) = log_line timestamp severity source msg"

lemma log_run_filter: "log_run configured calls = map line_of (filter (\<lambda>c. configured \<le> fst c) calls)"
proof -
  have "fold (\<lambda>(severity, timestamp, source, msg). log_at configured timestamp severity source msg) calls out
    = out @ map line_of (filter (\<lambda>c. configured \<le> fst c) calls)" for out
    by (induction calls arbitrary: out) (auto simp: log_at_def)
  then show ?thesis by (simp add: log_run_def)
qed

text \<open>A build with a higher level prints exactly those lines of a build with a lower one whose severity
  reaches it, in the same order; messages of severity \<open>FATAL\<close> are printed at every level.\<close>

theorem log_levels_filter:
  assumes "low \<le> high"
  shows "log_run high calls = map line_of (filter (\<lambda>c. high \<le> fst c) (filter (\<lambda>c. low \<le> fst c) calls))
    \<and> log_run low calls = map line_of (filter (\<lambda>c. low \<le> fst c) calls)
    \<and> (\<forall>c\<in>set calls. fst c = FATAL \<longrightarrow> line_of c \<in> set (log_run high calls))"
proof -
  have "high \<le> FATAL" by (cases high) (simp_all add: less_eq_log_level_def)
  moreover have "filter (\<lambda>c. high \<le> fst c) (filter (\<lambda>c. low \<le> fst c) calls) = filter (\<lambda>c. high \<le> fst c) calls"
    using assms by (auto intro!: filter_cong dest: order_trans)
  ultimately show ?thesis by (auto simp: log_run_filter)
qed

definition demo_source :: source_location where
  "demo_source = \<lparr>slFunction = ''main'', slFile = ''main.cpp'', slLine = ''53''\<rparr>"

lemma log_levels_filter_witness:
  "log_run WARN [(INFO, [], demo_source, ''a''), (FATAL, [], demo_source, ''b'')] = [log_line [] FATAL demo_source ''b'']"
  using log_levels_filter [of DEBUG WARN "[(INFO, [], demo_source, ''a''), (FATAL, [], demo_source, ''b'')]"]
  by (simp add: less_eq_log_level_def)

lemma occurs_in_iff: "occurs_in needle hay \<longleftrightarrow> (\<exists>before after. hay = before @ needle @ after)"
proof (induction hay)
  case (Cons c cs)
  have "take (length needle) (c # cs) = needle \<longleftrightarrow> (\<exists>after. c # cs = needle @ after)"
    by (metis append_eq_conv_conj append_take_drop_id)
  then show ?case using Cons by (auto simp: Cons_eq_append_conv)
qed simp

text \<open>The short format names exactly the functions of the project, outermost first; on a stack without any it
  reads past the end of the stack.\<close>

theorem minimal_format_names_project:
  "log_line_minimal severity trace msg = (case filter in_project (rev trace) of
       [] \<Rightarrow> Inl OutOfRange
     | f # fs \<Rightarrow> Inr (severity_color severity @ severity_text severity @ ''('' @ frName f
         @ concat (map (\<lambda>g. '' -> '' @ frName g) fs) @ ''):'' @ escape ''0'' @ '' '' @ msg @ [CHR 0x0A, CHR 0x0A]))"
proof -
  have c: "show_callees fs = concat (map (\<lambda>g. '' -> '' @ frName g) (filter in_project fs))" for fs
    by (induction fs) auto
  have "case skip_foreign fs of [] \<Rightarrow> filter in_project fs = [] | f # rest \<Rightarrow> filter in_project fs = f # filter in_project rest" for fs
    by (induction fs) (auto split: list.splits)
  from this [of "rev trace"] show ?thesis by (auto simp: log_line_minimal_def c split: list.splits)
qed

end
